(* ===== verification/Prelude.thy ===== *)
theory Prelude
  imports
    Main
    "HOL-Library.Word"
    "HOL-Library.Char_ord"
    "HOL-Library.List_Lexorder"
begin

unbundle bit_operations_syntax

text \<open>
  Shared vocabulary of the development: the C integer types as words, C strings and byte
  streams as Isabelle strings (a \<^typ>\<open>char\<close> is exactly a byte), the pieces of the C library
  that the modelled sources call (\<open>strcmp\<close>, \<open>strncmp\<close>, \<open>strchr\<close>, the \<open>%0nx\<close> conversion of
  \<open>printf\<close> and the \<open>%nx\<close> conversion of \<open>scanf\<close>), and the generic lemmas on lists, words and
  error results that the component theories share.
\<close>

named_theorems cstring \<open>facts about the modelled C string functions\<close>
named_theorems bytes \<open>facts about reading and writing byte streams\<close>

type_synonym u8 = "8 word"
type_synonym u16 = "16 word"
type_synonym u32 = "32 word"
type_synonym u64 = "64 word"
type_synonym bytes = "char list"

abbreviation NUL :: char where
  "NUL \<equiv> CHR 0x00"

section \<open>Error results\<close>

text \<open>
  A fallible operation returns \<open>Inl\<close> of its error or \<open>Inr\<close> of its result; \<open>and_then\<close> is
  the sequencing that stops at the first error, as \<open>die()\<close> and an early return do.
\<close>

definition and_then :: "'e + 'a \<Rightarrow> ('a \<Rightarrow> 'e + 'b) \<Rightarrow> 'e + 'b" where
  "and_then r f = (case r of Inl e \<Rightarrow> Inl e | Inr x \<Rightarrow> f x)"

lemma and_then_simps [simp]:
  "and_then (Inl e) f = Inl e"
  "and_then (Inr x) f = f x"
  by (simp_all add: and_then_def)

lemma and_then_Inr [simp]:
  "and_then r f = Inr y \<longleftrightarrow> (\<exists>x. r = Inr x \<and> f x = Inr y)"
  by (cases r) auto

lemma and_then_Inl:
  "and_then r f = Inl e \<longleftrightarrow> r = Inl e \<or> (\<exists>x. r = Inr x \<and> f x = Inl e)"
  by (cases r) auto

lemma and_then_assoc:
  "and_then (and_then r f) g = and_then r (\<lambda>x. and_then (f x) g)"
  by (cases r) auto

lemma and_then_cong [fundef_cong]:
  "r = r' \<Longrightarrow> (\<And>x. r' = Inr x \<Longrightarrow> f x = f' x) \<Longrightarrow> and_then r f = and_then r' f'"
  by (cases r') auto

section \<open>C strings\<close>

text \<open>
  A C string is the list of its characters before the terminating NUL. \<open>strcmp\<close> compares
  as \<open>unsigned char\<close>; only the sign of its result is specified, so the model returns
  \<open>-1\<close>, \<open>0\<close> or \<open>1\<close>.
\<close>

fun strcmp :: "string \<Rightarrow> string \<Rightarrow> int" where
  "strcmp [] [] = 0"
| "strcmp [] (_ # _) = -1"
| "strcmp (_ # _) [] = 1"
| "strcmp (a # as) (b # bs) =
     (if a < b then -1 else if b < a then 1 else strcmp as bs)"

definition strncmp :: "string \<Rightarrow> string \<Rightarrow> nat \<Rightarrow> int" where
  "strncmp a b n = strcmp (take n a) (take n b)"

lemma strcmp_eq_0 [simp, cstring]: "strcmp a b = 0 \<longleftrightarrow> a = b"
  by (induction a b rule: strcmp.induct) auto

lemma strcmp_le_0 [cstring]: "strcmp a b \<le> 0 \<longleftrightarrow> a \<le> b"
  by (induction a b rule: strcmp.induct) auto

lemma strncmp_prefix [cstring]:
  "strncmp a b (length a) = 0 \<longleftrightarrow> take (length a) b = a"
  by (auto simp: strncmp_def)

text \<open>\<open>strchr(s, c)\<close> as the split of \<open>s\<close> at its first \<open>c\<close>: the part before and the part after.\<close>

fun split_at :: "char \<Rightarrow> string \<Rightarrow> (string \<times> string) option" where
  "split_at c [] = None"
| "split_at c (x # xs) =
     (if x = c then Some ([], xs)
      else map_option (\<lambda>(a, b). (x # a, b)) (split_at c xs))"

lemma split_at_Some: "split_at c s = Some (a, b) \<Longrightarrow> s = a @ c # b \<and> c \<notin> set a"
  by (induction s arbitrary: a b) (auto split: if_splits)

lemma split_at_None: "split_at c s = None \<longleftrightarrow> c \<notin> set s"
  by (induction s) auto

text \<open>\<open>c_str\<close> cuts a buffer at its first NUL: what a \<open>char *\<close> to that buffer denotes.\<close>

definition c_str :: "bytes \<Rightarrow> string" where
  "c_str b = takeWhile (\<lambda>c. c \<noteq> NUL) b"

lemma c_str_append_NUL [simp, cstring]: "NUL \<notin> set s \<Longrightarrow> c_str (s @ NUL # r) = s"
  by (induction s) (auto simp: c_str_def)

lemma c_str_no_NUL [simp, cstring]: "NUL \<notin> set s \<Longrightarrow> c_str s = s"
  by (induction s) (auto simp: c_str_def)

section \<open>Hexadecimal fields\<close>

definition hex_digits :: string where
  "hex_digits = ''0123456789abcdef''"

definition hex_digit :: "nat \<Rightarrow> char" where
  "hex_digit n = hex_digits ! (n mod 16)"

text \<open>\<open>hex_pad k n\<close> is \<open>printf("%0<k>x", n)\<close> for a value of at most \<open>k\<close> hexadecimal digits.\<close>

fun hex_pad :: "nat \<Rightarrow> nat \<Rightarrow> string" where
  "hex_pad 0 n = []"
| "hex_pad (Suc k) n = hex_pad k (n div 16) @ [hex_digit n]"

lemma hex_pad_numeral:
  "hex_pad (numeral k) n = hex_pad (pred_numeral k) (n div 16) @ [hex_digit n]"
  by (subst numeral_eq_Suc) (rule hex_pad.simps(2))

definition hex_val :: "char \<Rightarrow> nat option" where
  "hex_val c =
     (let n = (of_char c :: nat) in
      if 48 \<le> n \<and> n \<le> 57 then Some (n - 48)
      else if 97 \<le> n \<and> n \<le> 102 then Some (n - 87)
      else if 65 \<le> n \<and> n \<le> 70 then Some (n - 55)
      else None)"

lemma length_hex_pad [simp]: "length (hex_pad k n) = k"
  by (induction k n rule: hex_pad.induct) auto

lemma hex_val_hex_digit [simp]: "hex_val (hex_digit n) = Some (n mod 16)"
proof -
  have "\<forall>i < (16::nat). hex_val (hex_digits ! i) = Some i"
    by code_simp
  then show ?thesis by (simp add: hex_digit_def)
qed

lemma set_hex_pad: "c \<in> set (hex_pad k n) \<Longrightarrow> \<exists>d < 16. hex_val c = Some d"
  by (induction k n rule: hex_pad.induct) auto

section \<open>Word and list facts\<close>

lemma unat_of_nat_small [simp]:
  "n < 2 ^ LENGTH('a) \<Longrightarrow> unat (of_nat n :: 'a::len word) = n"
  by (simp add: unat_of_nat take_bit_nat_eq_self)

lemma sint_small_word:
  assumes "unat (x :: 'a::len word) < 2 ^ (LENGTH('a) - Suc 0)"
  shows "sint x = int (unat x)"
proof -
  have u: "int (unat x) = uint x" by simp
  have "sint x = signed_take_bit (LENGTH('a) - Suc 0) (uint x)" by (simp add: sint_uint)
  also have "\<dots> = uint x"
  proof (rule signed_take_bit_int_eq_self)
    have "0 \<le> uint x" by simp
    then show "- (2 ^ (LENGTH('a) - Suc 0)) \<le> uint x" by (rule order_trans [rotated]) simp
    have "int (unat x) < int (2 ^ (LENGTH('a) - Suc 0))" using assms by (rule iffD2 [OF of_nat_less_iff])
    then show "uint x < 2 ^ (LENGTH('a) - Suc 0)" unfolding u by (simp only: of_nat_power of_nat_numeral)
  qed
  finally show ?thesis using u by simp
qed

lemma sint_small: "unat (x :: u32) < 2 ^ 31 \<Longrightarrow> sint x = int (unat x)"
  using sint_small_word [of x] by simp

lemma and_mask_mod: "unat (w AND mask k :: 'a::len word) = unat w mod 2 ^ k"
  by (simp only: take_bit_eq_mask [symmetric] unsigned_take_bit_eq) (simp add: take_bit_eq_mod)

lemma and_3_eq_0: "w AND 3 = (0 :: u32) \<longleftrightarrow> unat w mod 4 = 0"
  using and_mask_mod [of w 2] by (simp add: mask_eq_exp_minus_1 flip: unat_eq_0)

lemma and_255_eq_0: "w AND 255 = (0 :: u32) \<longleftrightarrow> unat w mod 256 = 0"
  using and_mask_mod [of w 8] by (simp add: mask_eq_exp_minus_1 flip: unat_eq_0)

text \<open>The number of bytes from offset \<open>n\<close> to the next multiple of \<open>k\<close>.\<close>

definition padlen :: "nat \<Rightarrow> nat \<Rightarrow> nat" where
  "padlen k n = (k - n mod k) mod k"

lemma padlen_less: "0 < k \<Longrightarrow> padlen k n < k"
  by (simp add: padlen_def)

lemma padlen_0_iff: "0 < k \<Longrightarrow> padlen k n = 0 \<longleftrightarrow> n mod k = 0"
  by (cases "n mod k = 0") (auto simp: padlen_def dest: leD)

lemma padlen_Suc: "0 < k \<Longrightarrow> n mod k \<noteq> 0 \<Longrightarrow> padlen k n = Suc (padlen k (Suc n))"
proof -
  assume k: "0 < k" and n: "n mod k \<noteq> 0"
  have lt: "n mod k < k" using k by simp
  show ?thesis
  proof (cases "Suc (n mod k) = k")
    case True
    then have "Suc n mod k = 0" by (simp add: mod_Suc)
    then show ?thesis using True n by (simp add: padlen_def)
  next
    case False
    then have "Suc n mod k = Suc (n mod k)" by (simp add: mod_Suc)
    then show ?thesis using False n lt by (simp add: padlen_def)
  qed
qed

lemma padlen_mod: "padlen k (n mod k) = padlen k n"
  by (simp add: padlen_def)

lemma padlen_add_aligned: "a mod k = 0 \<Longrightarrow> padlen k (a + n) = padlen k n"
  by (metis add_0 mod_add_left_eq padlen_mod)

lemma add_padlen_mod: "0 < k \<Longrightarrow> (n + padlen k n) mod k = 0"
proof (cases "n mod k = 0")
  case True
  then show ?thesis by (simp add: padlen_def)
next
  case False
  assume "0 < k"
  then have "n mod k < k" by simp
  then have "padlen k n = k - n mod k" using False by (simp add: padlen_def)
  then have "n + padlen k n = n - n mod k + k" using \<open>n mod k < k\<close> by simp
  then show ?thesis by (simp add: minus_mod_eq_mult_div)
qed

section \<open>Reading hexadecimal digits back\<close>

definition hex_value :: "string \<Rightarrow> nat" where
  "hex_value s = foldl (\<lambda>a c. a * 16 + (case hex_val c of None \<Rightarrow> 0 | Some d \<Rightarrow> d)) 0 s"

lemma hex_value_snoc: "hex_value (s @ [c]) = hex_value s * 16 + (case hex_val c of None \<Rightarrow> 0 | Some d \<Rightarrow> d)"
  by (simp add: hex_value_def)

lemma hex_value_hex_pad: "hex_value (hex_pad k n) = n mod 16 ^ k"
proof (induction k n rule: hex_pad.induct)
  case (1 n)
  then show ?case by (simp add: hex_value_def)
next
  case (2 k n)
  have "n mod (16 * 16 ^ k) = 16 * (n div 16 mod 16 ^ k) + n mod 16"
    by (simp add: mod_mult2_eq)
  then show ?case using 2 by (simp add: hex_value_snoc)
qed

text \<open>White space of the C locale, and the \<open>%8x\<close> conversion of \<open>scanf\<close>.\<close>

definition isspace :: "char \<Rightarrow> bool" where
  "isspace c = (let n = (of_char c :: nat) in n = 32 \<or> (9 \<le> n \<and> n \<le> 13))"

definition is_hex :: "char \<Rightarrow> bool" where
  "is_hex c = (hex_val c \<noteq> None)"

definition scan_hex8 :: "string \<Rightarrow> (u32 \<times> string) option" where
  "scan_hex8 s =
     (let s1 = dropWhile isspace s;
          (neg, s2, w2) = (case s1 of
              [] \<Rightarrow> (False, s1, 8)
            | c # r \<Rightarrow> if c = CHR ''-'' then (True, r, 7)
                      else if c = CHR ''+'' then (False, r, 7) else (False, s1, 8 :: nat));
          (s3, w3) = (if take 2 s2 = ''0x'' \<or> take 2 s2 = ''0X'' then (drop 2 s2, w2 - 2) else (s2, w2));
          digs = takeWhile is_hex (take w3 s3);
          v = of_nat (hex_value digs)
      in if digs = [] then None else Some (if neg then - v else v, drop (length digs) s3))"

section \<open>Decimal output\<close>

definition digit_char :: "nat \<Rightarrow> char" where
  "digit_char d = char_of (48 + d mod 10)"

lemma char_of_digit:
  "char_of (48 :: nat) = CHR ''0''" "char_of (49 :: nat) = CHR ''1''" "char_of (50 :: nat) = CHR ''2''"
  "char_of (51 :: nat) = CHR ''3''" "char_of (52 :: nat) = CHR ''4''" "char_of (53 :: nat) = CHR ''5''"
  "char_of (54 :: nat) = CHR ''6''" "char_of (55 :: nat) = CHR ''7''" "char_of (56 :: nat) = CHR ''8''"
  "char_of (57 :: nat) = CHR ''9''"
  by (simp_all flip: of_char_eq_iff [where 'a = nat])

fun dec_nat :: "nat \<Rightarrow> string" where
  "dec_nat n = (if n < 10 then [digit_char n] else dec_nat (n div 10) @ [digit_char n])"

declare dec_nat.simps [simp del]

text \<open>\<open>printf("%d")\<close>.\<close>

definition dec_int :: "int \<Rightarrow> string" where
  "dec_int i = (if i < 0 then CHR ''-'' # dec_nat (nat (- i)) else dec_nat (nat i))"

section \<open>Digits\<close>

definition isdigit :: "char \<Rightarrow> bool" where
  "isdigit c = (let n = (of_char c :: nat) in 48 \<le> n \<and> n \<le> 57)"

definition digits_value :: "nat \<Rightarrow> string \<Rightarrow> nat" where
  "digits_value b s = foldl (\<lambda>a c. a * b + (case hex_val c of None \<Rightarrow> 0 | Some d \<Rightarrow> d)) 0 s"

definition is_digit_of :: "nat \<Rightarrow> char \<Rightarrow> bool" where
  "is_digit_of b c = (case hex_val c of None \<Rightarrow> False | Some d \<Rightarrow> d < b)"

lemma of_digit_char: "of_char (digit_char n) = (48 + n mod 10 :: nat)"
  by (simp add: digit_char_def)

lemma hex_val_digit_char: "hex_val (digit_char n) = Some (n mod 10)"
  by (simp add: hex_val_def of_digit_char Let_def)

lemma dec_nat_digits: "list_all (is_digit_of 10) (dec_nat n)"
proof (induction n rule: dec_nat.induct)
  case (1 n)
  have "is_digit_of 10 (digit_char n)" by (simp add: is_digit_of_def hex_val_digit_char)
  with 1 show ?case by (subst dec_nat.simps) auto
qed

lemma digits_value_snoc:
  "digits_value b (s @ [c]) = digits_value b s * b + (case hex_val c of None \<Rightarrow> 0 | Some d \<Rightarrow> d)"
  by (simp add: digits_value_def)

lemma digits_value_dec_nat: "digits_value 10 (dec_nat n) = n"
proof (induction n rule: dec_nat.induct)
  case (1 n)
  show ?case
  proof (cases "n < 10")
    case True
    then show ?thesis by (subst dec_nat.simps) (simp add: digits_value_def hex_val_digit_char)
  next
    case False
    then show ?thesis using 1 by (subst dec_nat.simps) (simp add: digits_value_snoc hex_val_digit_char)
  qed
qed

lemma dec_nat_nonzero: "0 < n \<Longrightarrow> hd (dec_nat n) \<noteq> CHR ''0'' \<and> dec_nat n \<noteq> []"
proof (induction n rule: dec_nat.induct)
  case (1 n)
  have "n < 10 \<Longrightarrow> digit_char n \<noteq> CHR ''0''"
    using 1(2) of_digit_char [of n] by (auto simp flip: of_char_eq_iff [where 'a = nat])
  then show ?case using 1 by (subst (1 2) dec_nat.simps) auto
qed

lemma dec_nat_0: "dec_nat 0 = ''0''"
  by (subst dec_nat.simps) (simp add: of_digit_char flip: of_char_eq_iff [where 'a = nat])

lemma dec_nat_nonempty: "dec_nat n \<noteq> []"
  using dec_nat_nonzero [of n] dec_nat_0 by (cases "n = 0") auto

lemma is_digit_of_10: "is_digit_of 10 c \<longleftrightarrow> isdigit c"
  by (auto simp: is_digit_of_def hex_val_def isdigit_def Let_def split: if_splits)

end
