(* ===== verification/Fdio.thy ===== *)
theory Fdio
  imports Prelude
begin

text \<open>
  The descriptor helpers of \<open>libbb\<close> on which the archive code rests: \<open>safe_read\<close> and
  \<open>full_read\<close> (\<open>libbb/read.c\<close>), \<open>xread\<close> (\<open>libbb/read_printf.c\<close>) and the copy loops of
  \<open>libbb/copyfd.c\<close>. A descriptor to read from is the bytes still to come and a list of what
  the next \<open>read\<close> calls do: return at most some number of bytes, be interrupted, or fail. When
  the list is used up a \<open>read\<close> returns as much as it was asked for.
\<close>

datatype io_event = Chunk nat | Eintr | Eio

record fd =
  fd_data :: bytes
  fd_events :: "io_event list"

abbreviation plain_fd :: "bytes \<Rightarrow> fd" where
  "plain_fd b \<equiv> \<lparr>fd_data = b, fd_events = []\<rparr>"

text \<open>\<open>read(2)\<close> repeated while it is interrupted; \<open>None\<close> is a return value of \<open>-1\<close>.\<close>

fun safe_read_ev :: "nat \<Rightarrow> bytes \<Rightarrow> io_event list \<Rightarrow> bytes option \<times> fd" where
  "safe_read_ev n d [] = (Some (take n d), plain_fd (drop n d))"
| "safe_read_ev n d (Eintr # es) = safe_read_ev n d es"
| "safe_read_ev n d (Eio # es) = (None, \<lparr>fd_data = d, fd_events = es\<rparr>)"
| "safe_read_ev n d (Chunk k # es) =
     (let m = min n (Suc k) in (Some (take m d), \<lparr>fd_data = drop m d, fd_events = es\<rparr>))"

definition safe_read :: "nat \<Rightarrow> fd \<Rightarrow> bytes option \<times> fd" where
  "safe_read n f = safe_read_ev n (fd_data f) (fd_events f)"

lemma safe_read_Some:
  assumes "safe_read n f = (Some b, f')"
  shows "fd_data f = b @ fd_data f' \<and> length b \<le> n
     \<and> (b = [] \<longrightarrow> n = 0 \<or> fd_data f = []) \<and> set (fd_events f') \<subseteq> set (fd_events f)"
proof -
  have "safe_read_ev n d es = (Some b, f') \<Longrightarrow> d = b @ fd_data f' \<and> length b \<le> n
     \<and> (b = [] \<longrightarrow> n = 0 \<or> d = []) \<and> set (fd_events f') \<subseteq> set es" for d es
    by (induction n d es rule: safe_read_ev.induct) (auto simp: Let_def)
  from this [of "fd_data f" "fd_events f"] show ?thesis
    using assms unfolding safe_read_def by blast
qed

lemma safe_read_no_error: "Eio \<notin> set (fd_events f) \<Longrightarrow> \<exists>b f'. safe_read n f = (Some b, f')"
proof -
  have "Eio \<notin> set es \<Longrightarrow> \<exists>b f'. safe_read_ev n d es = (Some b, f')" for d es
    by (induction n d es rule: safe_read_ev.induct) (auto simp: Let_def)
  then show "Eio \<notin> set (fd_events f) \<Longrightarrow> \<exists>b f'. safe_read n f = (Some b, f')"
    by (simp add: safe_read_def)
qed

text \<open>The loop of \<open>full_read\<close>; \<open>tot\<close> is what it has stored in the buffer.\<close>

function full_read_loop :: "nat \<Rightarrow> fd \<Rightarrow> bytes \<Rightarrow> bytes option \<times> fd" where
  "full_read_loop len f tot =
     (if len = 0 then (Some tot, f)
      else case safe_read len f of
        (None, f') \<Rightarrow> (if tot \<noteq> [] then (Some tot, f') else (None, f'))
      | (Some cc, f') \<Rightarrow>
          if cc = [] then (Some tot, f')
          else full_read_loop (len - length cc) f' (tot @ cc))"
  by pat_completeness auto
termination
  by (relation "measure (\<lambda>(len, f, tot). len)") auto

declare full_read_loop.simps [simp del]

definition full_read :: "nat \<Rightarrow> fd \<Rightarrow> bytes option \<times> fd" where
  "full_read len f = full_read_loop len f []"

datatype io_error = ShortRead | IoFailed

text \<open>\<open>xread\<close> dies unless the whole buffer was read.\<close>

definition xread :: "nat \<Rightarrow> fd \<Rightarrow> io_error + (bytes \<times> fd)" where
  "xread count f =
     (if count = 0 then Inr ([], f)
      else case full_read count f of
        (Some b, f') \<Rightarrow> if length b = count then Inr (b, f') else Inl ShortRead
      | (None, f') \<Rightarrow> Inl ShortRead)"

text \<open>
  A descriptor to write to: the bytes written and what the next \<open>write\<close> calls do. A failed
  write is \<open>None\<close>; \<open>full_write\<close> reports how many bytes it wrote.
\<close>

record sink =
  sk_data :: bytes
  sk_events :: "io_event list"

fun safe_write_ev :: "bytes \<Rightarrow> bytes \<Rightarrow> io_event list \<Rightarrow> nat option \<times> sink" where
  "safe_write_ev b d [] = (Some (length b), \<lparr>sk_data = d @ b, sk_events = []\<rparr>)"
| "safe_write_ev b d (Eintr # es) = safe_write_ev b d es"
| "safe_write_ev b d (Eio # es) = (None, \<lparr>sk_data = d, sk_events = es\<rparr>)"
| "safe_write_ev b d (Chunk k # es) =
     (let m = min (length b) (Suc k) in (Some m, \<lparr>sk_data = d @ take m b, sk_events = es\<rparr>))"

definition safe_write :: "bytes \<Rightarrow> sink \<Rightarrow> nat option \<times> sink" where
  "safe_write b s = safe_write_ev b (sk_data s) (sk_events s)"

lemma safe_write_Some:
  assumes "safe_write b s = (Some n, s')" "b \<noteq> []"
  shows "0 < n \<and> n \<le> length b \<and> sk_data s' = sk_data s @ take n b
     \<and> set (sk_events s') \<subseteq> set (sk_events s)"
proof -
  have "safe_write_ev b d es = (Some n, s') \<Longrightarrow> b \<noteq> [] \<Longrightarrow> 0 < n \<and> n \<le> length b
     \<and> sk_data s' = d @ take n b \<and> set (sk_events s') \<subseteq> set es" for d es
    by (induction b d es rule: safe_write_ev.induct) (auto simp: Let_def)
  then show ?thesis using assms by (simp add: safe_write_def)
qed

lemma safe_write_no_error: "Eio \<notin> set (sk_events s) \<Longrightarrow> \<exists>n s'. safe_write b s = (Some n, s')"
proof -
  have "Eio \<notin> set es \<Longrightarrow> \<exists>n s'. safe_write_ev b d es = (Some n, s')" for d es
    by (induction b d es rule: safe_write_ev.induct) (auto simp: Let_def)
  then show "Eio \<notin> set (sk_events s) \<Longrightarrow> \<exists>n s'. safe_write b s = (Some n, s')"
    by (simp add: safe_write_def)
qed

function full_write_loop :: "bytes \<Rightarrow> sink \<Rightarrow> nat \<Rightarrow> nat option \<times> sink" where
  "full_write_loop b s tot =
     (if b = [] then (Some tot, s)
      else case safe_write b s of
        (None, s') \<Rightarrow> (if tot \<noteq> 0 then (Some tot, s') else (None, s'))
      | (Some cc, s') \<Rightarrow> full_write_loop (drop cc b) s' (tot + cc))"
  by pat_completeness auto
termination
  by (relation "measure (\<lambda>(b, s, tot). length b)") (auto dest: safe_write_Some [OF sym])

declare full_write_loop.simps [simp del]

definition full_write :: "bytes \<Rightarrow> sink \<Rightarrow> nat option \<times> sink" where
  "full_write b s = full_write_loop b s 0"

text \<open>
  The loop of \<open>bb_full_fd_action\<close>. \<open>dst = None\<close> is the fake descriptor \<open>-1\<close>; \<open>till_eof\<close> is
  \<open>status = 1\<close>; the result is the final status, the number of bytes moved and both ends.
\<close>

record copy_result =
  cp_ok :: bool
  cp_total :: nat
  cp_src :: fd
  cp_dst :: "sink option"

lemma safe_read_shrinks:
  "safe_read n f = (Some b, f') \<Longrightarrow> b \<noteq> [] \<Longrightarrow> length (fd_data f') < length (fd_data f)"
  using safe_read_Some [of n f b f'] by (cases b) auto

function fd_action_loop :: "bool \<Rightarrow> nat \<Rightarrow> bool \<Rightarrow> nat \<Rightarrow> nat \<Rightarrow> fd \<Rightarrow> sink option \<Rightarrow> copy_result" where
  "fd_action_loop cont bufsz till_eof sz tot f dst =
     (case safe_read (if sz > bufsz then bufsz else sz) f of
        (None, f') \<Rightarrow> \<lparr>cp_ok = False, cp_total = tot, cp_src = f', cp_dst = dst\<rparr>
      | (Some rd, f') \<Rightarrow>
          if rd = [] then \<lparr>cp_ok = True, cp_total = tot, cp_src = f', cp_dst = dst\<rparr>
          else
            let (failed, dst') =
              (case dst of
                 None \<Rightarrow> (False, None)
               | Some s \<Rightarrow> let (wr, s') = full_write rd s in
                   if wr = Some (length rd) then (False, Some s')
                   else if cont then (False, None) else (True, Some s'))
            in if failed then \<lparr>cp_ok = False, cp_total = tot, cp_src = f', cp_dst = dst'\<rparr>
               else if till_eof then fd_action_loop cont bufsz till_eof sz (tot + length rd) f' dst'
               else if sz - length rd = 0
               then \<lparr>cp_ok = True, cp_total = tot + length rd, cp_src = f', cp_dst = dst'\<rparr>
               else fd_action_loop cont bufsz till_eof (sz - length rd) (tot + length rd) f' dst')"
  by pat_completeness auto
termination
  by (relation "measure (\<lambda>(cont, bufsz, till_eof, sz, tot, f, dst). length (fd_data f))")
    (auto dest: safe_read_shrinks [OF sym])

declare fd_action_loop.simps [simp del]

text \<open>
  \<open>bb_full_fd_action(src, dst, size)\<close>: a negative size asks to go on after write errors, size 0
  to copy until the end of the input. The result is \<open>None\<close> for a return value of \<open>-1\<close>.
\<close>

definition bb_full_fd_action :: "nat \<Rightarrow> fd \<Rightarrow> sink option \<Rightarrow> int \<Rightarrow> nat option \<times> fd \<times> sink option" where
  "bb_full_fd_action bufsz f dst amount =
     (let cont = (amount < 0);
          sz = nat \<bar>amount\<bar>;
          r = (if sz = 0 then fd_action_loop cont bufsz True bufsz 0 f dst
               else fd_action_loop cont bufsz False sz 0 f dst)
      in (if cp_ok r then Some (cp_total r) else None, cp_src r, cp_dst r))"

definition bb_copyfd_size :: "nat \<Rightarrow> fd \<Rightarrow> sink option \<Rightarrow> int \<Rightarrow> nat option \<times> fd \<times> sink option" where
  "bb_copyfd_size bufsz f dst amount =
     (if amount \<noteq> 0 then bb_full_fd_action bufsz f dst amount else (Some 0, f, dst))"

definition bb_copyfd_exact_size :: "nat \<Rightarrow> fd \<Rightarrow> sink option \<Rightarrow> int \<Rightarrow> io_error + (fd \<times> sink option)" where
  "bb_copyfd_exact_size bufsz f dst amount =
     (case bb_copyfd_size bufsz f dst amount of
        (sz, f', dst') \<Rightarrow>
          if sz = Some (nat \<bar>amount\<bar>) then Inr (f', dst')
          else if sz \<noteq> None then Inl ShortRead
          else Inl IoFailed)"

definition bb_copyfd_eof :: "nat \<Rightarrow> fd \<Rightarrow> sink option \<Rightarrow> nat option \<times> fd \<times> sink option" where
  "bb_copyfd_eof bufsz f dst = bb_full_fd_action bufsz f dst 0"

section \<open>Facts: how the kernel splits the transfers does not matter\<close>

lemma full_read_loop_ok:
  "Eio \<notin> set (fd_events f) \<Longrightarrow>
   \<exists>f'. full_read_loop len f tot = (Some (tot @ take len (fd_data f)), f')
      \<and> fd_data f' = drop len (fd_data f) \<and> set (fd_events f') \<subseteq> set (fd_events f)"
proof (induction len f tot rule: full_read_loop.induct)
  case (1 len f tot)
  show ?case
  proof (cases "len = 0")
    case True
    then show ?thesis by (simp add: full_read_loop.simps)
  next
    case False
    obtain b f' where r: "safe_read len f = (Some b, f')"
      using safe_read_no_error [OF "1.prems"] by blast
    note b = safe_read_Some [OF r]
    show ?thesis
    proof (cases "b = []")
      case True
      then have "fd_data f = []" "fd_data f' = []" using False b by auto
      then show ?thesis using True False r b by (simp add: full_read_loop.simps)
    next
      case ne: False
      have "Eio \<notin> set (fd_events f')" using b "1.prems" by blast
      from "1.IH" [OF False r [symmetric] refl ne this] show ?thesis
        using False r ne b by (subst full_read_loop.simps) (auto simp: drop_append)
    qed
  qed
qed

lemma full_read_ok:
  "Eio \<notin> set (fd_events f) \<Longrightarrow>
   \<exists>f'. full_read len f = (Some (take len (fd_data f)), f')
      \<and> fd_data f' = drop len (fd_data f) \<and> set (fd_events f') \<subseteq> set (fd_events f)"
  using full_read_loop_ok [of f len "[]"] by (simp add: full_read_def)

lemma full_write_ok:
  "Eio \<notin> set (sk_events s) \<Longrightarrow>
   \<exists>s'. full_write b s = (Some (length b), s') \<and> sk_data s' = sk_data s @ b
      \<and> set (sk_events s') \<subseteq> set (sk_events s)"
proof -
  have "Eio \<notin> set (sk_events s) \<Longrightarrow>
     \<exists>s'. full_write_loop b s tot = (Some (tot + length b), s') \<and> sk_data s' = sk_data s @ b
        \<and> set (sk_events s') \<subseteq> set (sk_events s)" for tot
  proof (induction b s tot rule: full_write_loop.induct)
    case (1 b s tot)
    show ?case
    proof (cases "b = []")
      case True
      then show ?thesis by (simp add: full_write_loop.simps)
    next
      case False
      obtain n s' where w: "safe_write b s = (Some n, s')"
        using safe_write_no_error [OF "1.prems"] by blast
      note n = safe_write_Some [OF w False]
      then have "Eio \<notin> set (sk_events s')" using "1.prems" by blast
      from "1.IH" [OF False w [symmetric] refl this] show ?thesis
        using False w n by (subst full_write_loop.simps) auto
    qed
  qed
  from this [of 0] show "Eio \<notin> set (sk_events s) \<Longrightarrow> ?thesis" by (simp add: full_write_def)
qed

text \<open>The bytes a descriptor will deliver, when none of its reads fails.\<close>

definition feeds :: "fd \<Rightarrow> bytes \<Rightarrow> bool" where
  "feeds f b \<longleftrightarrow> fd_data f = b \<and> Eio \<notin> set (fd_events f)"

definition accepts :: "sink option \<Rightarrow> bool" where
  "accepts dst \<longleftrightarrow> (case dst of None \<Rightarrow> True | Some s \<Rightarrow> Eio \<notin> set (sk_events s))"

definition written :: "sink option \<Rightarrow> bytes option" where
  "written dst = map_option sk_data dst"

lemma written_write:
  assumes "accepts dst"
  shows "\<exists>dst'. (case dst of None \<Rightarrow> (False, None)
        | Some s \<Rightarrow> let (wr, s') = full_write b s in
            if wr = Some (length b) then (False, Some s')
            else if cont then (False, None) else (True, Some s')) = (False, dst')
      \<and> accepts dst' \<and> written dst' = map_option (\<lambda>w. w @ b) (written dst)"
proof (cases dst)
  case None
  then show ?thesis by (simp add: accepts_def written_def)
next
  case (Some s)
  with assms obtain s' where "full_write b s = (Some (length b), s')" "sk_data s' = sk_data s @ b"
    "set (sk_events s') \<subseteq> set (sk_events s)"
    using full_write_ok [of s b] by (auto simp: accepts_def)
  then show ?thesis using Some assms by (auto simp: accepts_def written_def)
qed

lemma take_drop_prefix:
  "b @ r = d \<Longrightarrow> length b \<le> n \<Longrightarrow> take n d = b @ take (n - length b) r \<and> drop n d = drop (n - length b) r"
  by auto

lemma fd_action_exact:
  "feeds f d \<Longrightarrow> accepts dst \<Longrightarrow> 0 < bufsz \<Longrightarrow> 0 < sz \<Longrightarrow>
   \<exists>f' dst'. fd_action_loop cont bufsz False sz tot f dst =
       \<lparr>cp_ok = True, cp_total = tot + min sz (length d), cp_src = f', cp_dst = dst'\<rparr>
     \<and> feeds f' (drop sz d) \<and> accepts dst'
     \<and> written dst' = map_option (\<lambda>w. w @ take sz d) (written dst)"
proof (induction "length d" arbitrary: d sz tot f dst rule: less_induct)
  case less
  let ?n = "if sz > bufsz then bufsz else sz"
  obtain b f1 where r: "safe_read ?n f = (Some b, f1)"
    using safe_read_no_error [of f ?n] less.prems(1) by (auto simp: feeds_def)
  note b = safe_read_Some [OF r]
  have f1: "feeds f1 (fd_data f1)" "b @ fd_data f1 = d"
    using b less.prems(1) by (auto simp: feeds_def)
  have n: "0 < ?n" "?n \<le> sz" using less.prems(3,4) by auto
  show ?case
  proof (cases "b = []")
    case True
    then have "d = []" "fd_data f1 = []" using b n(1) less.prems(1) by (auto simp: feeds_def)
    then show ?thesis
      using True r f1 less.prems by (subst fd_action_loop.simps) (auto simp: option.map_ident)
  next
    case False
    obtain dst1 where w: "(case dst of None \<Rightarrow> (False, None)
        | Some s \<Rightarrow> let (wr, s') = full_write b s in
            if wr = Some (length b) then (False, Some s')
            else if cont then (False, None) else (True, Some s')) = (False, dst1)"
      "accepts dst1" "written dst1 = map_option (\<lambda>w. w @ b) (written dst)"
      using written_write [OF less.prems(2)] by blast
    have le: "length b \<le> sz" using b n(2) by linarith
    note split = take_drop_prefix [OF f1(2) le]
    show ?thesis
    proof (cases "sz = length b")
      case True
      then show ?thesis
        using False r w f1 split by (subst fd_action_loop.simps) (auto simp: min_def)
    next
      case sz: False
      have lt: "length (fd_data f1) < length d" using f1(2) False by (cases b) auto
      have pos: "0 < sz - length b" using sz le by simp
      from less.hyps [OF lt f1(1) w(2) less.prems(3) pos, of "tot + length b"]
      obtain f2 dst2 where IH: "fd_action_loop cont bufsz False (sz - length b) (tot + length b) f1 dst1 =
         \<lparr>cp_ok = True, cp_total = tot + length b + min (sz - length b) (length (fd_data f1)),
          cp_src = f2, cp_dst = dst2\<rparr>"
        "feeds f2 (drop (sz - length b) (fd_data f1))" "accepts dst2"
        "written dst2 = map_option (\<lambda>w. w @ take (sz - length b) (fd_data f1)) (written dst1)"
        by blast
      have "length b + min (sz - length b) (length (fd_data f1)) = min sz (length d)"
        using f1(2) le by auto
      then show ?thesis
        using False r w IH split sz pos
        by (subst fd_action_loop.simps) (auto simp: option.map_comp o_def add.assoc)
    qed
  qed
qed

lemma copyfd_exact_ok:
  assumes "feeds f d" "accepts dst" "0 < bufsz" "n \<le> length d"
  shows "\<exists>f' dst'. bb_copyfd_exact_size bufsz f dst (int n) = Inr (f', dst')
     \<and> feeds f' (drop n d) \<and> accepts dst'
     \<and> written dst' = map_option (\<lambda>w. w @ take n d) (written dst)"
proof (cases "n = 0")
  case True
  then show ?thesis
    using assms by (auto simp: bb_copyfd_exact_size_def bb_copyfd_size_def option.map_ident)
next
  case False
  then show ?thesis
    using fd_action_exact [OF assms(1-3), of n False 0] assms(4)
    by (auto simp: bb_copyfd_exact_size_def bb_copyfd_size_def bb_full_fd_action_def Let_def)
qed

lemma copyfd_exact_short:
  assumes "feeds f d" "accepts dst" "0 < bufsz" "length d < n"
  shows "bb_copyfd_exact_size bufsz f dst (int n) = Inl ShortRead"
  using fd_action_exact [OF assms(1-3), of n False 0] assms(4)
  by (auto simp: bb_copyfd_exact_size_def bb_copyfd_size_def bb_full_fd_action_def Let_def)

section \<open>The interface of a byte source\<close>

text \<open>
  What the archive readers rely on: a read of \<open>n\<close> bytes from a source that will deliver
  \<open>a @ b\<close>, with \<open>n\<close> the length of \<open>a\<close>, gives \<open>a\<close> and leaves a source that will deliver \<open>b\<close>.
\<close>

locale byte_source =
  fixes rd :: "nat \<Rightarrow> 's \<Rightarrow> 'e + (bytes \<times> 's)"
    and delivers :: "'s \<Rightarrow> bytes \<Rightarrow> bool"
  assumes rd_exact: "delivers s (a @ b) \<Longrightarrow> length a = n \<Longrightarrow> \<exists>s'. rd n s = Inr (a, s') \<and> delivers s' b"
begin

lemma rd_take:
  "delivers s d \<Longrightarrow> n \<le> length d \<Longrightarrow> \<exists>s'. rd n s = Inr (take n d, s') \<and> delivers s' (drop n d)"
  using rd_exact [of s "take n d" "drop n d" n] by simp

lemma rd_twice:
  assumes "delivers s (a @ b @ c)" "length a = m" "length b = n"
  shows "\<exists>s'. and_then (rd m s) (\<lambda>(x, s1). and_then (rd n s1) (\<lambda>(y, s2). Inr (x @ y, s2))) = Inr (a @ b, s')
     \<and> delivers s' c"
proof -
  obtain s1 where 1: "rd m s = Inr (a, s1)" "delivers s1 (b @ c)"
    using rd_exact [OF assms(1,2)] by blast
  obtain s2 where "rd n s1 = Inr (b, s2)" "delivers s2 c"
    using rd_exact [OF 1(2) assms(3)] by blast
  with 1 show ?thesis by simp
qed

end

lemma xread_exact:
  assumes "feeds f (a @ b)" "length a = n"
  shows "\<exists>f'. xread n f = Inr (a, f') \<and> feeds f' b"
proof -
  obtain f' where "full_read n f = (Some (take n (a @ b)), f')" "fd_data f' = drop n (a @ b)"
    "set (fd_events f') \<subseteq> set (fd_events f)"
    using full_read_ok [of f n] assms(1) by (auto simp: feeds_def)
  then show ?thesis using assms by (auto simp: xread_def feeds_def)
qed

interpretation fd_source: byte_source xread feeds
  by unfold_locales (rule xread_exact)

text \<open>
  However the kernel splits the reads and writes and however often it interrupts them, as
  long as none fails, \<open>bb_copyfd_exact_size\<close> moves exactly the first \<open>n\<close> bytes of the source to
  the destination and leaves the source behind them, or dies with "short read" when the source
  holds fewer than \<open>n\<close> bytes.
\<close>

theorem copyfd_exact_size_moves:
  assumes "feeds f d" "accepts dst" "0 < bufsz"
  shows "if n \<le> length d
    then \<exists>f' dst'. bb_copyfd_exact_size bufsz f dst (int n) = Inr (f', dst')
       \<and> feeds f' (drop n d) \<and> written dst' = map_option (\<lambda>w. w @ take n d) (written dst)
    else bb_copyfd_exact_size bufsz f dst (int n) = Inl ShortRead"
  using copyfd_exact_ok [OF assms, of n] copyfd_exact_short [OF assms, of n]
  by (cases "n \<le> length d") auto

theorem copyfd_exact_size_moves_witness:
  "\<exists>f' dst'. bb_copyfd_exact_size 4 \<lparr>fd_data = ''flashtool'', fd_events = [Chunk 1, Eintr, Chunk 0]\<rparr>
      (Some \<lparr>sk_data = ''>'', sk_events = [Eintr, Chunk 0]\<rparr>) (int 5) = Inr (f', dst')
    \<and> feeds f' ''tool'' \<and> written dst' = Some ''>flash''"
  using copyfd_exact_size_moves [of "\<lparr>fd_data = ''flashtool'', fd_events = [Chunk 1, Eintr, Chunk 0]\<rparr>"
      "''flashtool''" "Some \<lparr>sk_data = ''>'', sk_events = [Eintr, Chunk 0]\<rparr>" 4 5]
  by (simp add: feeds_def accepts_def written_def)

end
