(* ===== verification/FsConfig.thy ===== *)
theory FsConfig
  imports Prelude
begin

text \<open>
  The ownership and permission tables of \<open>src/mkbootfs/android_filesystem_config.h\<close> and the
  lookup \<open>fs_config\<close> over them: the two tables as lists in source order, the lookup as the
  source's first-match scan, and what that scan guarantees.
\<close>

section \<open>User and group identifiers\<close>

text \<open>A four-digit octal literal of the source, such as \<open>01771\<close>.\<close>

definition oct :: "u32 \<Rightarrow> u32 \<Rightarrow> u32 \<Rightarrow> u32 \<Rightarrow> u32" where
  "oct a b c d = ((a * 8 + b) * 8 + c) * 8 + d"

definition AID_ROOT :: u32 where "AID_ROOT = 0"
definition AID_SYSTEM :: u32 where "AID_SYSTEM = 1000"
definition AID_RADIO :: u32 where "AID_RADIO = 1001"
definition AID_BLUETOOTH :: u32 where "AID_BLUETOOTH = 1002"
definition AID_GRAPHICS :: u32 where "AID_GRAPHICS = 1003"
definition AID_INPUT :: u32 where "AID_INPUT = 1004"
definition AID_AUDIO :: u32 where "AID_AUDIO = 1005"
definition AID_CAMERA :: u32 where "AID_CAMERA = 1006"
definition AID_LOG :: u32 where "AID_LOG = 1007"
definition AID_COMPASS :: u32 where "AID_COMPASS = 1008"
definition AID_MOUNT :: u32 where "AID_MOUNT = 1009"
definition AID_WIFI :: u32 where "AID_WIFI = 1010"
definition AID_ADB :: u32 where "AID_ADB = 1011"
definition AID_INSTALL :: u32 where "AID_INSTALL = 1012"
definition AID_MEDIA :: u32 where "AID_MEDIA = 1013"
definition AID_DHCP :: u32 where "AID_DHCP = 1014"
definition AID_SDCARD_RW :: u32 where "AID_SDCARD_RW = 1015"
definition AID_VPN :: u32 where "AID_VPN = 1016"
definition AID_KEYSTORE :: u32 where "AID_KEYSTORE = 1017"
definition AID_SHELL :: u32 where "AID_SHELL = 2000"
definition AID_CACHE :: u32 where "AID_CACHE = 2001"
definition AID_DIAG :: u32 where "AID_DIAG = 2002"
definition AID_NET_BT_ADMIN :: u32 where "AID_NET_BT_ADMIN = 3001"
definition AID_NET_BT :: u32 where "AID_NET_BT = 3002"
definition AID_INET :: u32 where "AID_INET = 3003"
definition AID_NET_RAW :: u32 where "AID_NET_RAW = 3004"
definition AID_NET_ADMIN :: u32 where "AID_NET_ADMIN = 3005"
definition AID_MISC :: u32 where "AID_MISC = 9998"
definition AID_NOBODY :: u32 where "AID_NOBODY = 9999"
definition AID_APP :: u32 where "AID_APP = 10000"

lemmas aid_defs =
  AID_ROOT_def AID_SYSTEM_def AID_RADIO_def AID_BLUETOOTH_def
  AID_GRAPHICS_def AID_INPUT_def AID_AUDIO_def AID_CAMERA_def
  AID_LOG_def AID_COMPASS_def AID_MOUNT_def AID_WIFI_def
  AID_ADB_def AID_INSTALL_def AID_MEDIA_def AID_DHCP_def
  AID_SDCARD_RW_def AID_VPN_def AID_KEYSTORE_def AID_SHELL_def
  AID_CACHE_def AID_DIAG_def AID_NET_BT_ADMIN_def AID_NET_BT_def
  AID_INET_def AID_NET_RAW_def AID_NET_ADMIN_def AID_MISC_def
  AID_NOBODY_def AID_APP_def

record android_id_info =
  id_name :: string
  id_aid :: u32

definition android_ids :: "android_id_info list" where
  "android_ids =
   [\<lparr>id_name = ''root'', id_aid = AID_ROOT\<rparr>,
    \<lparr>id_name = ''system'', id_aid = AID_SYSTEM\<rparr>,
    \<lparr>id_name = ''radio'', id_aid = AID_RADIO\<rparr>,
    \<lparr>id_name = ''bluetooth'', id_aid = AID_BLUETOOTH\<rparr>,
    \<lparr>id_name = ''graphics'', id_aid = AID_GRAPHICS\<rparr>,
    \<lparr>id_name = ''input'', id_aid = AID_INPUT\<rparr>,
    \<lparr>id_name = ''audio'', id_aid = AID_AUDIO\<rparr>,
    \<lparr>id_name = ''camera'', id_aid = AID_CAMERA\<rparr>,
    \<lparr>id_name = ''log'', id_aid = AID_LOG\<rparr>,
    \<lparr>id_name = ''compass'', id_aid = AID_COMPASS\<rparr>,
    \<lparr>id_name = ''mount'', id_aid = AID_MOUNT\<rparr>,
    \<lparr>id_name = ''wifi'', id_aid = AID_WIFI\<rparr>,
    \<lparr>id_name = ''dhcp'', id_aid = AID_DHCP\<rparr>,
    \<lparr>id_name = ''adb'', id_aid = AID_ADB\<rparr>,
    \<lparr>id_name = ''install'', id_aid = AID_INSTALL\<rparr>,
    \<lparr>id_name = ''media'', id_aid = AID_MEDIA\<rparr>,
    \<lparr>id_name = ''shell'', id_aid = AID_SHELL\<rparr>,
    \<lparr>id_name = ''cache'', id_aid = AID_CACHE\<rparr>,
    \<lparr>id_name = ''diag'', id_aid = AID_DIAG\<rparr>,
    \<lparr>id_name = ''net_bt_admin'', id_aid = AID_NET_BT_ADMIN\<rparr>,
    \<lparr>id_name = ''net_bt'', id_aid = AID_NET_BT\<rparr>,
    \<lparr>id_name = ''sdcard_rw'', id_aid = AID_SDCARD_RW\<rparr>,
    \<lparr>id_name = ''vpn'', id_aid = AID_VPN\<rparr>,
    \<lparr>id_name = ''keystore'', id_aid = AID_KEYSTORE\<rparr>,
    \<lparr>id_name = ''inet'', id_aid = AID_INET\<rparr>,
    \<lparr>id_name = ''net_raw'', id_aid = AID_NET_RAW\<rparr>,
    \<lparr>id_name = ''net_admin'', id_aid = AID_NET_ADMIN\<rparr>,
    \<lparr>id_name = ''misc'', id_aid = AID_MISC\<rparr>,
    \<lparr>id_name = ''nobody'', id_aid = AID_NOBODY\<rparr>]"

text \<open>\<open>android_id_count\<close>: the number of elements of the array.\<close>

definition android_id_count :: nat where
  "android_id_count = length android_ids"

section \<open>Path rules\<close>

record fs_path_config =
  pc_mode :: u32
  pc_uid :: u32
  pc_gid :: u32
  pc_prefix :: "string option"

abbreviation pc :: "u32 \<Rightarrow> u32 \<Rightarrow> u32 \<Rightarrow> string option \<Rightarrow> fs_path_config" where
  "pc m u g p \<equiv> \<lparr>pc_mode = m, pc_uid = u, pc_gid = g, pc_prefix = p\<rparr>"

definition android_dirs :: "fs_path_config list" where
  "android_dirs =
   [pc (oct 0 7 7 0) AID_SYSTEM AID_CACHE (Some ''cache''),
    pc (oct 0 7 7 1) AID_SYSTEM AID_SYSTEM (Some ''data/app''),
    pc (oct 0 7 7 1) AID_SYSTEM AID_SYSTEM (Some ''data/app-private''),
    pc (oct 0 7 7 1) AID_SYSTEM AID_SYSTEM (Some ''data/dalvik-cache''),
    pc (oct 0 7 7 1) AID_SYSTEM AID_SYSTEM (Some ''data/data''),
    pc (oct 0 7 7 1) AID_SHELL AID_SHELL (Some ''data/local/tmp''),
    pc (oct 0 7 7 1) AID_SHELL AID_SHELL (Some ''data/local''),
    pc (oct 1 7 7 1) AID_SYSTEM AID_MISC (Some ''data/misc''),
    pc (oct 0 7 7 0) AID_DHCP AID_DHCP (Some ''data/misc/dhcp''),
    pc (oct 0 7 7 1) AID_SYSTEM AID_SYSTEM (Some ''data''),
    pc (oct 0 7 5 0) AID_ROOT AID_SHELL (Some ''sbin''),
    pc (oct 0 7 5 5) AID_ROOT AID_SHELL (Some ''system/bin''),
    pc (oct 0 7 5 5) AID_ROOT AID_SHELL (Some ''system/xbin''),
    pc (oct 0 7 5 5) AID_ROOT AID_ROOT (Some ''system/etc/ppp''),
    pc (oct 0 7 7 7) AID_ROOT AID_ROOT (Some ''sdcard''),
    pc (oct 0 7 5 5) AID_ROOT AID_ROOT None]"

definition android_files :: "fs_path_config list" where
  "android_files =
   [pc (oct 0 4 4 0) AID_ROOT AID_SHELL (Some ''system/etc/init.goldfish.rc''),
    pc (oct 0 5 5 0) AID_ROOT AID_SHELL (Some ''system/etc/init.goldfish.sh''),
    pc (oct 0 5 5 0) AID_ROOT AID_SHELL (Some ''system/etc/init.GPU_z430.sh''),
    pc (oct 0 5 5 0) AID_ROOT AID_SHELL (Some ''system/etc/mknod_gpu''),
    pc (oct 0 5 5 0) AID_ROOT AID_SHELL (Some ''system/etc/init.gprs-pppd''),
    pc (oct 0 4 4 0) AID_ROOT AID_SHELL (Some ''system/etc/init.trout.rc''),
    pc (oct 0 5 5 0) AID_ROOT AID_SHELL (Some ''system/etc/init.ril''),
    pc (oct 0 5 5 0) AID_ROOT AID_SHELL (Some ''system/etc/init.testmenu''),
    pc (oct 0 5 5 0) AID_DHCP AID_SHELL (Some ''system/etc/dhcpcd/dhcpcd-run-hooks''),
    pc (oct 0 4 4 0) AID_BLUETOOTH AID_BLUETOOTH (Some ''system/etc/dbus.conf''),
    pc (oct 0 4 4 0) AID_BLUETOOTH AID_BLUETOOTH (Some ''system/etc/bluetooth/main.conf''),
    pc (oct 0 4 4 0) AID_BLUETOOTH AID_BLUETOOTH (Some ''system/etc/bluetooth/input.conf''),
    pc (oct 0 4 4 0) AID_BLUETOOTH AID_BLUETOOTH (Some ''system/etc/bluetooth/audio.conf''),
    pc (oct 0 4 4 4) AID_NET_BT AID_NET_BT (Some ''system/etc/bluetooth/blacklist.conf''),
    pc (oct 0 6 4 0) AID_SYSTEM AID_SYSTEM (Some ''system/etc/bluetooth/auto_pairing.conf''),
    pc (oct 0 4 4 4) AID_RADIO AID_AUDIO (Some ''system/etc/AudioPara4.csv''),
    pc (oct 0 5 5 5) AID_ROOT AID_ROOT (Some ''system/etc/ppp/*''),
    pc (oct 0 6 4 4) AID_SYSTEM AID_SYSTEM (Some ''data/app/*''),
    pc (oct 0 6 4 4) AID_SYSTEM AID_SYSTEM (Some ''data/app-private/*''),
    pc (oct 0 6 4 4) AID_APP AID_APP (Some ''data/data/*''),
    pc (oct 2 7 5 5) AID_ROOT AID_NET_RAW (Some ''system/bin/ping''),
    pc (oct 2 7 5 0) AID_ROOT AID_INET (Some ''system/bin/netcfg''),
    pc (oct 6 7 5 5) AID_ROOT AID_ROOT (Some ''system/xbin/su''),
    pc (oct 6 7 5 5) AID_ROOT AID_ROOT (Some ''system/xbin/librank''),
    pc (oct 6 7 5 5) AID_ROOT AID_ROOT (Some ''system/xbin/procrank''),
    pc (oct 6 7 5 5) AID_ROOT AID_ROOT (Some ''system/xbin/procmem''),
    pc (oct 6 7 5 5) AID_ROOT AID_ROOT (Some ''system/xbin/tcpdump''),
    pc (oct 4 7 7 0) AID_ROOT AID_RADIO (Some ''system/bin/pppd-ril''),
    pc (oct 6 7 5 0) AID_ROOT AID_SHELL (Some ''system/bin/run-as''),
    pc (oct 0 7 5 5) AID_ROOT AID_SHELL (Some ''system/bin/*''),
    pc (oct 0 7 5 5) AID_ROOT AID_SHELL (Some ''system/xbin/*''),
    pc (oct 0 7 5 0) AID_ROOT AID_SHELL (Some ''sbin/*''),
    pc (oct 0 7 5 5) AID_ROOT AID_ROOT (Some ''bin/*''),
    pc (oct 0 7 5 0) AID_ROOT AID_SHELL (Some ''init*''),
    pc (oct 0 6 4 4) AID_ROOT AID_ROOT None]"

section \<open>The lookup\<close>

text \<open>
  The body of the loop in \<open>fs_config\<close>, one predicate per kind of table. A directory rule
  matches every path it is a prefix of; a file rule matches the whole path, or what stands
  before its final \<open>*\<close>. A rule with an empty prefix (the source would read \<open>prefix[-1]\<close>)
  does not occur in the tables.
\<close>

definition dir_match :: "string \<Rightarrow> string \<Rightarrow> bool" where
  "dir_match path pfx =
     (if length path < length pfx then False else strncmp pfx path (length pfx) = 0)"

definition file_match :: "string \<Rightarrow> string \<Rightarrow> bool" where
  "file_match path pfx =
     (let len = length pfx in
      if pfx \<noteq> [] \<and> pfx ! (len - 1) = CHR ''*''
      then strncmp pfx path (len - 1) = 0
      else length path = len \<and> strncmp pfx path len = 0)"

text \<open>
  The scan \<open>for (; pc->prefix; pc++)\<close>: it stops at the first rule that matches or at the rule
  with a null prefix. \<open>None\<close> would be a scan past the end of the array.
\<close>

fun fs_scan :: "(string \<Rightarrow> bool) \<Rightarrow> fs_path_config list \<Rightarrow> fs_path_config option" where
  "fs_scan match [] = None"
| "fs_scan match (r # rs) =
     (case pc_prefix r of
        None \<Rightarrow> Some r
      | Some p \<Rightarrow> if match p then Some r else fs_scan match rs)"

text \<open>\<open>fs_config\<close> returns the new uid, gid and mode.\<close>

definition fs_config :: "string \<Rightarrow> bool \<Rightarrow> u32 \<Rightarrow> (u32 \<times> u32 \<times> u32) option" where
  "fs_config path dir m =
     map_option (\<lambda>r. (pc_uid r, pc_gid r, (m AND NOT (oct 7 7 7 7)) OR pc_mode r))
       (if dir then fs_scan (dir_match path) android_dirs
        else fs_scan (file_match path) android_files)"

section \<open>Facts about the lookup\<close>

lemma dir_match_iff: "dir_match path pfx \<longleftrightarrow> take (length pfx) path = pfx"
  by (auto simp: dir_match_def strncmp_prefix)

lemma dir_match_append: "dir_match path (p @ q) \<Longrightarrow> dir_match path p"
proof -
  assume "dir_match path (p @ q)"
  then have "take (length p) (take (length (p @ q)) path) = take (length p) (p @ q)"
    by (simp only: dir_match_iff)
  then show ?thesis by (simp add: dir_match_iff)
qed

lemma fs_scan_first:
  assumes "\<exists>r \<in> set rs. pc_prefix r = None"
  shows "\<exists>pre r post. rs = pre @ r # post \<and> fs_scan match rs = Some r
     \<and> (pc_prefix r = None \<or> match (the (pc_prefix r)))
     \<and> (\<forall>q \<in> set pre. pc_prefix q \<noteq> None \<and> \<not> match (the (pc_prefix q)))"
  using assms
proof (induction rs)
  case Nil
  then show ?case by simp
next
  case (Cons r rs)
  show ?case
  proof (cases "pc_prefix r = None \<or> match (the (pc_prefix r))")
    case True
    then show ?thesis
      by (intro exI [of _ "[]"] exI [of _ r] exI [of _ rs]) (auto split: option.splits)
  next
    case False
    with Cons obtain pre r' post where IH: "rs = pre @ r' # post" "fs_scan match rs = Some r'"
      "pc_prefix r' = None \<or> match (the (pc_prefix r'))"
      "\<forall>q \<in> set pre. pc_prefix q \<noteq> None \<and> \<not> match (the (pc_prefix q))"
      by auto
    with False show ?thesis
      by (intro exI [of _ "r # pre"] exI [of _ r'] exI [of _ post]) (auto split: option.splits)
  qed
qed

lemma tables_end: "\<exists>r \<in> set android_dirs. pc_prefix r = None"
  "\<exists>r \<in> set android_files. pc_prefix r = None"
  by (simp_all add: android_dirs_def android_files_def)

lemma fs_scan_in: "fs_scan match rs = Some r \<Longrightarrow> r \<in> set rs"
  by (induction rs) (auto split: option.splits if_splits)

lemma table_modes: "r \<in> set android_dirs \<union> set android_files \<Longrightarrow> pc_mode r AND NOT (oct 7 7 7 7) = 0"
  by (auto simp: android_dirs_def android_files_def oct_def)

lemma mode_merge:
  fixes m k p :: u32
  assumes "p AND NOT k = 0"
  shows "((m AND NOT k) OR p) AND NOT k = m AND NOT k" "((m AND NOT k) OR p) AND k = p"
proof -
  have b: "bit p n \<Longrightarrow> n < 32 \<Longrightarrow> bit k n" for n
    using arg_cong [OF assms, of "\<lambda>w. bit w n"] by (simp add: bit_simps)
  show "((m AND NOT k) OR p) AND NOT k = m AND NOT k"
    by (rule bit_word_eqI) (auto simp: bit_simps dest: b)
  show "((m AND NOT k) OR p) AND k = p"
    by (rule bit_word_eqI) (auto simp: bit_simps dest: b)
qed

text \<open>
  C6. \<open>fs_config\<close> always finds a rule, and it is the first one of the table that matches the
  path (or the final catch-all rule): no earlier rule matches. It returns that rule's owner and
  group, replaces the low twelve bits of the mode by the rule's and keeps every other bit.
\<close>

theorem fs_config_first_match:
  "\<exists>pre r post m'.
     (if dir then android_dirs else android_files) = pre @ r # post
   \<and> fs_config path dir m = Some (pc_uid r, pc_gid r, m')
   \<and> m' AND NOT (oct 7 7 7 7) = m AND NOT (oct 7 7 7 7) \<and> m' AND oct 7 7 7 7 = pc_mode r
   \<and> (pc_prefix r = None \<or>
        (if dir then dir_match path else file_match path) (the (pc_prefix r)))
   \<and> \<not> list_ex (\<lambda>q. pc_prefix q = None \<or>
        (if dir then dir_match path else file_match path) (the (pc_prefix q))) pre"
proof -
  let ?match = "if dir then dir_match path else file_match path"
  let ?table = "if dir then android_dirs else android_files"
  have "\<exists>r \<in> set ?table. pc_prefix r = None"
    using tables_end by simp
  from fs_scan_first [OF this, of ?match] obtain pre r post where
    r: "?table = pre @ r # post" "fs_scan ?match ?table = Some r"
      "pc_prefix r = None \<or> ?match (the (pc_prefix r))"
      "\<forall>q \<in> set pre. pc_prefix q \<noteq> None \<and> \<not> ?match (the (pc_prefix q))"
    by blast
  let ?m' = "(m AND NOT (oct 7 7 7 7)) OR pc_mode r"
  have "r \<in> set android_dirs \<union> set android_files"
    using fs_scan_in [OF r(2)] by (auto split: if_splits)
  note merge = mode_merge [OF table_modes [OF this], of m]
  have "fs_config path dir m = Some (pc_uid r, pc_gid r, ?m')"
    using r(2) by (simp add: fs_config_def split: if_splits)
  moreover have "\<not> list_ex (\<lambda>q. pc_prefix q = None \<or> ?match (the (pc_prefix q))) pre"
    using r(4) by (auto simp: list_ex_iff)
  ultimately show ?thesis
    using r(1,3) merge by blast
qed

text \<open>
  The tables are scanned first match first, so a rule behind a rule whose prefix is a
  prefix of its own is dead. The rule for \<open>data/misc/dhcp\<close> (owner and group \<open>AID_DHCP\<close>) stands
  behind the one for \<open>data/misc\<close>: no directory path ever gets it, whatever the path.
\<close>

theorem data_misc_dhcp_rule_dead:
  "fs_config path True m \<noteq> Some (AID_DHCP, AID_DHCP, m')"
proof
  assume a: "fs_config path True m = Some (AID_DHCP, AID_DHCP, m')"
  then obtain r where r: "fs_scan (dir_match path) android_dirs = Some r" "pc_uid r = AID_DHCP"
    by (auto simp: fs_config_def)
  have "r = pc (oct 0 7 7 0) AID_DHCP AID_DHCP (Some ''data/misc/dhcp'')"
    using fs_scan_in [OF r(1)] r(2) by (auto simp: android_dirs_def aid_defs)
  with r(1) have "dir_match path ''data/misc/dhcp''" "\<not> dir_match path ''data/misc''"
    by (auto simp: android_dirs_def split: if_splits)
  moreover have "dir_match path ''data/misc''"
    using dir_match_append [of path "''data/misc''" "''/dhcp''"] calculation(1) by simp
  ultimately show False by simp
qed

end
