(* ===== verification/Mkbootfs.thy ===== *)
theory Mkbootfs
  imports FsConfig "HOL-Library.Multiset"
begin

text \<open>
  \<open>src/mkbootfs/mkbootfs.c\<close>: the tool that packs a directory tree into the initial ramdisk, a
  \<open>newc\<close> cpio archive on standard output. The static variables \<open>total_size\<close> and \<open>next_inode\<close>
  and the bytes written so far are the state; \<open>die\<close> is an error value. The directory tree the
  tool walks is an argument: a node holds what \<open>lstat\<close>, \<open>open\<close> and \<open>read\<close>, \<open>readlink\<close> and
  \<open>readdir\<close> report for a path. Memory allocation is taken to succeed.
\<close>

section \<open>State, file tree and errors\<close>

record cstat =
  st_mode :: u32
  st_uid :: u32
  st_gid :: u32
  st_size :: nat

text \<open>
  \<open>NoEnt\<close>: \<open>lstat\<close> fails. \<open>Inode s d l es\<close>: \<open>lstat\<close> gives \<open>s\<close>; \<open>d\<close> is the content a read
  returns (\<open>None\<close> when \<open>open\<close> fails), \<open>l\<close> the link target (\<open>None\<close> when \<open>readlink\<close> fails), \<open>es\<close> the
  directory entries in \<open>readdir\<close> order (\<open>None\<close> when \<open>opendir\<close> fails).
\<close>

datatype fnode =
  NoEnt
| Inode cstat "bytes option" "string option" "(string \<times> fnode) list option"

record boot_state =
  out_bytes :: bytes
  total_size :: u32
  next_inode :: u32

definition init_boot_state :: boot_state where
  "init_boot_state = \<lparr>out_bytes = [], total_size = 0, next_inode = 300000\<rparr>"

text \<open>
  The calls of \<open>die\<close>, by message. \<open>PathOverflow\<close> is not one of them: it marks a write past the
  end of the 8192-byte path buffers of \<open>archive\<close>, which the source does not guard against.
\<close>

datatype die =
  NoDirectories
| CannotOpenDir string
| CannotStat string
| CannotOpen string
| CannotRead nat
| CannotReadlink string
| UnknownMode string u32
| Ack
| PathOverflow

definition S_ISDIR :: "u32 \<Rightarrow> bool" where
  "S_ISDIR m \<longleftrightarrow> m AND 0xf000 = 0x4000"

definition S_ISREG :: "u32 \<Rightarrow> bool" where
  "S_ISREG m \<longleftrightarrow> m AND 0xf000 = 0x8000"

definition S_ISLNK :: "u32 \<Rightarrow> bool" where
  "S_ISLNK m \<longleftrightarrow> m AND 0xf000 = 0xa000"

section \<open>Writing one entry\<close>

text \<open>\<open>fix_stat\<close> takes owner and group from the tables and restores the mode it saved.\<close>

definition fix_stat :: "string \<Rightarrow> cstat \<Rightarrow> cstat" where
  "fix_stat path s =
     (let save_mode = st_mode s;
          s' = (case fs_config path (S_ISDIR (st_mode s)) (st_mode s) of
                  None \<Rightarrow> s
                | Some (u, g, m) \<Rightarrow> s\<lparr>st_uid := u, st_gid := g, st_mode := m\<rparr>)
      in s'\<lparr>st_mode := save_mode\<rparr>)"

text \<open>\<open>while (total_size & mask) { total_size++; putchar(0); }\<close>\<close>

function pad_out :: "u32 \<Rightarrow> boot_state \<Rightarrow> boot_state" where
  "pad_out msk st =
     (if total_size st AND msk = 0 then st
      else pad_out msk (st\<lparr>total_size := total_size st + 1, out_bytes := out_bytes st @ [NUL]\<rparr>))"
  by pat_completeness auto
termination
proof (relation "measure (\<lambda>(msk, st). unat (- total_size st))")
  fix msk :: u32 and st :: boot_state
  assume "total_size st AND msk \<noteq> 0"
  then have "total_size st \<noteq> 0" by auto
  then have "unat (- total_size st - 1) < unat (- total_size st)"
    by (subst unat_minus_one) (auto simp: unat_gt_0)
  then show "((msk, st\<lparr>total_size := total_size st + 1, out_bytes := out_bytes st @ [NUL]\<rparr>), msk, st)
      \<in> measure (\<lambda>(msk, st). unat (- total_size st))"
    by simp
qed simp

declare pad_out.simps [simp del]

definition hex8 :: "u32 \<Rightarrow> string" where
  "hex8 w = hex_pad 8 (unat w)"

definition newc_header :: "u32 \<Rightarrow> u32 \<Rightarrow> u32 \<Rightarrow> nat \<Rightarrow> string" where
  "newc_header inode m datasize olen =
     hex_pad 6 0x070701 @ hex8 inode @ hex8 m @ hex8 0 @ hex8 0 @ hex8 1 @ hex8 0
     @ hex8 datasize @ hex8 0 @ hex8 0 @ hex8 0 @ hex8 0 @ hex8 (of_nat (olen + 1)) @ hex8 0"

definition eject :: "cstat \<Rightarrow> string \<Rightarrow> nat \<Rightarrow> bytes \<Rightarrow> u32 \<Rightarrow> boot_state \<Rightarrow> die + boot_state" where
  "eject s out olen data datasize st =
     (let st1 = pad_out 3 st;
          s1 = fix_stat out s;
          st2 = st1\<lparr>out_bytes := out_bytes st1
                      @ newc_header (next_inode st1) (st_mode s1) datasize olen @ out @ [NUL],
                    next_inode := next_inode st1 + 1,
                    total_size := total_size st1 + (6 + 8 * 13 + of_nat olen + 1)\<rparr>
      in if length out \<noteq> olen then Inl Ack
         else
           let st3 = pad_out 3 st2 in
           Inr (if datasize \<noteq> 0
                then st3\<lparr>out_bytes := out_bytes st3 @ take (unat datasize) data,
                         total_size := total_size st3 + datasize\<rparr>
                else st3))"

definition zero_stat :: cstat where
  "zero_stat = \<lparr>st_mode = 0, st_uid = 0, st_gid = 0, st_size = 0\<rparr>"

definition eject_trailer :: "boot_state \<Rightarrow> die + boot_state" where
  "eject_trailer st =
     and_then (eject zero_stat ''TRAILER!!!'' 10 [] 0 st) (\<lambda>st'. Inr (pad_out 0xff st'))"

section \<open>Walking the tree\<close>

text \<open>The \<open>readdir\<close> loop of \<open>_archive_dir\<close> drops dot files and anything named \<open>root\<close>.\<close>

definition keep_name :: "string \<Rightarrow> bool" where
  "keep_name n \<longleftrightarrow> take 1 n \<noteq> ''.'' \<and> strcmp n ''root'' \<noteq> 0"

text \<open>\<open>qsort(names, entries, sizeof(char*), compare)\<close> with \<open>compare\<close> the \<open>strcmp\<close> order.\<close>

definition read_names :: "(string \<times> fnode) list \<Rightarrow> (string \<times> fnode) list" where
  "read_names es = sort_key fst (filter (\<lambda>e. keep_name (fst e)) es)"

lemma size_list_sum: "size_list f xs = sum_list (map f xs) + length xs"
  by (induction xs) auto

lemma size_list_sort_key [simp]: "size_list f (sort_key k xs) = size_list f xs"
proof -
  have "sum_list (map f ys) = sum_mset (image_mset f (mset ys))" for ys
    by (metis mset_map sum_mset_sum_list)
  then show ?thesis by (simp add: size_list_sum)
qed

lemma size_list_filter_le: "size_list f (filter P xs) \<le> size_list f xs"
  by (induction xs) auto

lemma size_read_names: "size_list f (read_names es) \<le> size_list f es"
  by (simp add: read_names_def size_list_filter_le)

definition PATH_BUF :: nat where
  "PATH_BUF = 8192"

text \<open>
  \<open>_archive\<close>, \<open>_archive_dir\<close> and the loop at the end of \<open>_archive_dir\<close>. The buffers \<open>in\<close> and
  \<open>out\<close> are the strings they hold; the lengths \<open>ilen\<close> and \<open>olen\<close> travel beside them as in the
  source.
\<close>

function archive1 :: "fnode \<Rightarrow> string \<Rightarrow> string \<Rightarrow> nat \<Rightarrow> nat \<Rightarrow> boot_state \<Rightarrow> die + boot_state"
  and archive_dir :: "(string \<times> fnode) list option \<Rightarrow> string \<Rightarrow> string \<Rightarrow> nat \<Rightarrow> nat
        \<Rightarrow> boot_state \<Rightarrow> die + boot_state"
  and archive_loop :: "(string \<times> fnode) list \<Rightarrow> string \<Rightarrow> string \<Rightarrow> nat \<Rightarrow> nat
        \<Rightarrow> boot_state \<Rightarrow> die + boot_state" where
  "archive1 NoEnt inp out ilen olen st = Inl (CannotStat inp)"
| "archive1 (Inode s data lnk ents) inp out ilen olen st =
     (if S_ISREG (st_mode s) then
        (case data of
           None \<Rightarrow> Inl (CannotOpen inp)
         | Some d \<Rightarrow>
             if length (take (st_size s) d) \<noteq> st_size s then Inl (CannotRead (st_size s))
             else eject s out olen (take (st_size s) d) (of_nat (st_size s)) st)
      else if S_ISDIR (st_mode s) then
        and_then (eject s out olen [] 0 st) (archive_dir ents inp out ilen olen)
      else if S_ISLNK (st_mode s) then
        (case lnk of
           None \<Rightarrow> Inl (CannotReadlink inp)
         | Some t \<Rightarrow> let buf = take 1024 t in eject s out olen buf (of_nat (length buf)) st)
      else Inl (UnknownMode inp (st_mode s)))"
| "archive_dir None inp out ilen olen st = Inl (CannotOpenDir inp)"
| "archive_dir (Some es) inp out ilen olen st = archive_loop (read_names es) inp out ilen olen st"
| "archive_loop [] inp out ilen olen st = Inr st"
| "archive_loop ((name, x) # es) inp out ilen olen st =
     (let t = length name;
          inp' = take ilen inp @ ''/'' @ name
      in if PATH_BUF < ilen + 1 + (t + 1) then Inl PathOverflow
         else if olen > 0 then
           if PATH_BUF < olen + 1 + (t + 1) then Inl PathOverflow
           else and_then (archive1 x inp' (take olen out @ ''/'' @ name) (ilen + t + 1) (olen + t + 1) st)
                  (archive_loop es (take ilen inp) (take olen out) ilen olen)
         else
           if PATH_BUF < t + 1 then Inl PathOverflow
           else and_then (archive1 x inp' name (ilen + t + 1) t st)
                  (archive_loop es (take ilen inp) (take olen out) ilen olen))"
  by pat_completeness auto
termination
  by (relation "measure (\<lambda>x. case x of
        Inl (nd, _) \<Rightarrow> size nd
      | Inr (Inl (es, _)) \<Rightarrow> size_option (size_list (size_prod (\<lambda>_. 0) size)) es
      | Inr (Inr (es, _)) \<Rightarrow> size_list (size_prod (\<lambda>_. 0) size) es)")
    (auto simp: le_imp_less_Suc size_read_names)

text \<open>\<open>archive(start, prefix)\<close> copies its arguments into the buffers and lists the directory.\<close>

definition archive :: "(string \<times> fnode) list option \<Rightarrow> string \<Rightarrow> string \<Rightarrow> boot_state
    \<Rightarrow> die + boot_state" where
  "archive ents start pfx st =
     (if PATH_BUF < length start + 1 \<or> PATH_BUF < length pfx + 1 then Inl PathOverflow
      else archive_dir ents start pfx (length start) (length pfx) st)"

text \<open>An argument \<open>dir=prefix\<close> of the command line, cut at the first \<open>=\<close>.\<close>

definition split_arg :: "string \<Rightarrow> string \<times> string" where
  "split_arg a = (case split_at (CHR ''='') a of None \<Rightarrow> (a, []) | Some (d, p) \<Rightarrow> (d, p))"

fun archive_args :: "(string \<Rightarrow> (string \<times> fnode) list option) \<Rightarrow> string list \<Rightarrow> boot_state
    \<Rightarrow> die + boot_state" where
  "archive_args fs [] st = Inr st"
| "archive_args fs (a # as) st =
     (let (d, p) = split_arg a in and_then (archive (fs d) d p st) (archive_args fs as))"

text \<open>\<open>main\<close>: \<open>fs\<close> gives the entries of the directories named on the command line.\<close>

definition mkbootfs_main :: "(string \<Rightarrow> (string \<times> fnode) list option) \<Rightarrow> string list
    \<Rightarrow> die + boot_state" where
  "mkbootfs_main fs args =
     (if args = [] then Inl NoDirectories
      else and_then (archive_args fs args init_boot_state) eject_trailer)"

section \<open>What the archive holds\<close>

text \<open>
  The specification: the entries of a tree in archive order (path, mode, content), and the
  \<open>newc\<close> byte stream of a list of entries, each part padded with NULs to a multiple of four.
\<close>

type_synonym entry = "string \<times> u32 \<times> bytes"

definition join_path :: "string \<Rightarrow> string \<Rightarrow> string" where
  "join_path d n = (if d = [] then n else d @ ''/'' @ n)"

function node_entries :: "string \<Rightarrow> fnode \<Rightarrow> entry list"
  and loop_entries :: "string \<Rightarrow> (string \<times> fnode) list \<Rightarrow> entry list" where
  "node_entries p NoEnt = []"
| "node_entries p (Inode s data lnk ents) =
     (if S_ISREG (st_mode s) then
        (case data of None \<Rightarrow> [] | Some d \<Rightarrow> [(p, st_mode s, take (st_size s) d)])
      else if S_ISDIR (st_mode s) then
        (p, st_mode s, []) #
        (case ents of None \<Rightarrow> [] | Some es \<Rightarrow> loop_entries p (read_names es))
      else if S_ISLNK (st_mode s) then
        (case lnk of None \<Rightarrow> [] | Some t \<Rightarrow> [(p, st_mode s, take 1024 t)])
      else [])"
| "loop_entries p [] = []"
| "loop_entries p ((n, x) # es) = node_entries (join_path p n) x @ loop_entries p es"
  by pat_completeness auto
termination
  by (relation "measure (\<lambda>x. case x of
        Inl (_, nd) \<Rightarrow> size nd
      | Inr (_, es) \<Rightarrow> size_list (size_prod (\<lambda>_. 0) size) es)")
    (auto simp: le_imp_less_Suc less_SucI size_read_names intro: le_less_trans [OF size_read_names])

definition pad :: "nat \<Rightarrow> bytes \<Rightarrow> bytes" where
  "pad k b = b @ replicate (padlen k (length b)) NUL"

definition newc_entry :: "u32 \<Rightarrow> entry \<Rightarrow> bytes" where
  "newc_entry i e = (case e of (p, m, d) \<Rightarrow>
     pad 4 (newc_header i m (of_nat (length d)) (length p) @ p @ [NUL]) @ pad 4 d)"

fun newc_stream :: "u32 \<Rightarrow> entry list \<Rightarrow> bytes" where
  "newc_stream i [] = []"
| "newc_stream i (e # es) = newc_entry i e @ newc_stream (i + 1) es"

text \<open>
  When the walk succeeds: every file can be read in full, every directory and link can be
  opened, nothing is a device or a socket, and every path fits its buffer.
\<close>

function node_ok :: "nat \<Rightarrow> nat \<Rightarrow> fnode \<Rightarrow> bool"
  and loop_ok :: "nat \<Rightarrow> nat \<Rightarrow> (string \<times> fnode) list \<Rightarrow> bool" where
  "node_ok ilen olen NoEnt = False"
| "node_ok ilen olen (Inode s data lnk ents) =
     (if S_ISREG (st_mode s) then
        (case data of None \<Rightarrow> False | Some d \<Rightarrow> st_size s \<le> length d)
      else if S_ISDIR (st_mode s) then
        (case ents of None \<Rightarrow> False | Some es \<Rightarrow> loop_ok ilen olen (read_names es))
      else S_ISLNK (st_mode s) \<and> lnk \<noteq> None)"
| "loop_ok ilen olen [] = True"
| "loop_ok ilen olen ((n, x) # es) =
     (let t = length n; olen' = (if olen = 0 then t else olen + t + 1)
      in ilen + t + 2 \<le> PATH_BUF \<and> olen' + 1 \<le> PATH_BUF
         \<and> node_ok (ilen + t + 1) olen' x \<and> loop_ok ilen olen es)"
  by pat_completeness auto
termination
  by (relation "measure (\<lambda>x. case x of
        Inl (_, _, nd) \<Rightarrow> size nd
      | Inr (_, _, es) \<Rightarrow> size_list (size_prod (\<lambda>_. 0) size) es)")
    (auto simp: le_imp_less_Suc less_SucI size_read_names intro: le_less_trans [OF size_read_names])

section \<open>Padding and the size counter\<close>

text \<open>The invariant of the state: \<open>total_size\<close> counts the bytes written, modulo \<open>2 ^ 32\<close>.\<close>

definition boot_inv :: "boot_state \<Rightarrow> bool" where
  "boot_inv st \<longleftrightarrow> total_size st = of_nat (length (out_bytes st))"

lemma pad_length_dvd: "0 < k \<Longrightarrow> k dvd length (pad k b)"
proof (induction "padlen k (length b)" arbitrary: b)
  case 0
  then show ?case using padlen_0_iff [of k "length b"] by (auto simp: pad_def)
next
  case (Suc m)
  then have "length b mod k \<noteq> 0" using padlen_0_iff [of k "length b"] by auto
  then have "m = padlen k (length (b @ [NUL]))" "pad k b = pad k (b @ [NUL])"
    using Suc.hyps(2) Suc.prems padlen_Suc [of k "length b"]
    by (auto simp: pad_def replicate_app_Cons_same)
  then show ?case using Suc by simp
qed

lemma pad_aligned: "length a mod k = 0 \<Longrightarrow> pad k (a @ b) = a @ pad k b"
  by (simp add: pad_def padlen_def mod_add_left_eq [of "length a" k "length b", symmetric])

lemma pad_idem [simp]: "0 < k \<Longrightarrow> pad k (pad k b) = pad k b"
  using pad_length_dvd [of k b] by (simp add: pad_def [of k "pad k b"] padlen_def)

lemma mask_zero:
  assumes "boot_inv st" "k \<le> 32"
  shows "total_size st AND mask k = 0 \<longleftrightarrow> length (out_bytes st) mod 2 ^ k = 0"
proof -
  have "unat (of_nat n :: u32) mod 2 ^ k = n mod 2 ^ k" for n
    using mod_mod_cancel [OF le_imp_power_dvd [OF assms(2), of 2], of n]
    by (simp add: unat_of_nat take_bit_eq_mod)
  then have "unat (total_size st AND mask k) = length (out_bytes st) mod 2 ^ k"
    using assms(1) by (simp only: boot_inv_def and_mask_mod)
  then show ?thesis by (metis unat_eq_zero)
qed

lemma pad_out_eq:
  assumes "boot_inv st" "k \<le> 32"
  shows "pad_out (mask k) st =
    st\<lparr>out_bytes := pad (2 ^ k) (out_bytes st),
       total_size := of_nat (length (pad (2 ^ k) (out_bytes st)))\<rparr>"
  using assms(1)
proof (induction "padlen (2 ^ k) (length (out_bytes st))" arbitrary: st)
  case 0
  then show ?case
    using mask_zero [OF "0.prems" assms(2)] padlen_0_iff [of "2 ^ k" "length (out_bytes st)"]
    by (subst pad_out.simps) (simp add: pad_def boot_inv_def)
next
  case (Suc m)
  let ?st = "st\<lparr>total_size := total_size st + 1, out_bytes := out_bytes st @ [NUL]\<rparr>"
  have nz: "length (out_bytes st) mod 2 ^ k \<noteq> 0"
    using Suc.hyps(2) padlen_0_iff [of "2 ^ k" "length (out_bytes st)"] by auto
  have m: "m = padlen (2 ^ k) (length (out_bytes ?st))"
    using Suc.hyps(2) padlen_Suc [OF _ nz] by simp
  have "boot_inv ?st" using Suc.prems by (simp add: boot_inv_def)
  note IH = Suc.hyps(1) [OF m this]
  have "pad (2 ^ k) (out_bytes ?st) = pad (2 ^ k) (out_bytes st)"
    using padlen_Suc [OF _ nz] by (simp add: pad_def replicate_app_Cons_same)
  then show ?case
    using mask_zero [OF Suc.prems assms(2)] nz IH by (subst pad_out.simps) simp
qed

lemma pad_out_3: "boot_inv st \<Longrightarrow> pad_out 3 st =
    st\<lparr>out_bytes := pad 4 (out_bytes st), total_size := of_nat (length (pad 4 (out_bytes st)))\<rparr>"
  using pad_out_eq [of st 2] by (simp add: mask_eq_exp_minus_1)

lemma pad_out_255: "boot_inv st \<Longrightarrow> pad_out 255 st =
    st\<lparr>out_bytes := pad 256 (out_bytes st), total_size := of_nat (length (pad 256 (out_bytes st)))\<rparr>"
  using pad_out_eq [of st 8] by (simp add: mask_eq_exp_minus_1)

section \<open>Refinement: the walk writes the stream of the tree's entries\<close>

lemma fix_stat_mode [simp]: "st_mode (fix_stat p s) = st_mode s"
  by (simp add: fix_stat_def Let_def)

lemma length_newc_header [simp]: "length (newc_header i m d n) = 110"
  by (simp add: newc_header_def hex8_def)

text \<open>One entry, as a total function on states; \<open>eject\<close> is this function.\<close>

definition emit :: "entry \<Rightarrow> boot_state \<Rightarrow> boot_state" where
  "emit e st = (case e of (p, m, d) \<Rightarrow>
     let b = pad 4 (out_bytes st) @
               pad 4 (newc_header (next_inode st) m (of_nat (length d)) (length p) @ p @ [NUL]) @ d
     in \<lparr>out_bytes = b, total_size = of_nat (length b), next_inode = next_inode st + 1\<rparr>)"

lemma boot_inv_emit [simp]: "boot_inv (emit e st)"
  by (simp add: emit_def boot_inv_def Let_def split: prod.splits)

lemma boot_inv_fold_emit [simp]: "boot_inv st \<Longrightarrow> boot_inv (fold emit es st)"
  by (induction es arbitrary: st) auto

lemma next_inode_fold_emit [simp]:
  "next_inode (fold emit es st) = next_inode st + of_nat (length es)"
  by (induction es arbitrary: st) (auto simp: emit_def Let_def add_ac split: prod.splits)

lemma eject_eq:
  assumes "boot_inv st" "length d < 2 ^ 32"
  shows "eject s p (length p) d (of_nat (length d)) st = Inr (emit (p, st_mode s, d) st)"
proof -
  let ?h = "newc_header (next_inode st) (st_mode s) (of_nat (length d)) (length p) @ p @ [NUL]"
  let ?st = "st\<lparr>out_bytes := pad 4 (out_bytes st) @ ?h,
       next_inode := next_inode st + 1,
       total_size := of_nat (length (pad 4 (out_bytes st)) + length ?h)\<rparr>"
  have al: "length (pad 4 (out_bytes st)) mod 4 = 0"
    using pad_length_dvd [of 4 "out_bytes st"] by simp
  have "boot_inv ?st" by (simp add: boot_inv_def)
  then have p3: "pad_out 3 ?st = ?st\<lparr>out_bytes := pad 4 (out_bytes st) @ pad 4 ?h,
      total_size := of_nat (length (pad 4 (out_bytes st) @ pad 4 ?h))\<rparr>"
    by (simp add: pad_out_3 pad_aligned [OF al])
  have len: "unat (of_nat (length d) :: u32) = length d"
    using assms(2) by simp
  have zero: "(of_nat (length d) :: u32) = 0 \<longleftrightarrow> d = []"
    using len by (metis length_0_conv unat_eq_zero)
  have "eject s p (length p) d (of_nat (length d)) st =
     (let st3 = pad_out 3 ?st in
      Inr (if (of_nat (length d) :: u32) \<noteq> 0
           then st3\<lparr>out_bytes := out_bytes st3 @ take (unat (of_nat (length d) :: u32)) d,
                    total_size := total_size st3 + of_nat (length d)\<rparr>
           else st3))"
    by (simp add: eject_def pad_out_3 [OF assms(1)])
  then show ?thesis
    unfolding Let_def p3 len zero by (simp add: emit_def)
qed

text \<open>An entry that the 32-bit fields can describe.\<close>

definition entry_fits :: "entry \<Rightarrow> bool" where
  "entry_fits e \<longleftrightarrow> (case e of (p, m, d) \<Rightarrow> length d < 2 ^ 32)"

definition dir_entries :: "string \<Rightarrow> (string \<times> fnode) list option \<Rightarrow> entry list" where
  "dir_entries p ents = (case ents of None \<Rightarrow> [] | Some es \<Rightarrow> loop_entries p (read_names es))"

definition dir_ok :: "nat \<Rightarrow> nat \<Rightarrow> (string \<times> fnode) list option \<Rightarrow> bool" where
  "dir_ok ilen olen ents =
     (case ents of None \<Rightarrow> False | Some es \<Rightarrow> loop_ok ilen olen (read_names es))"

text \<open>
  The outcome of a walk over a tree part: success exactly when the part is readable, and then
  the state after emitting its entries in order; a failure is never the \<open>ACK!\<close> check.
\<close>

definition walks :: "die + boot_state \<Rightarrow> bool \<Rightarrow> entry list \<Rightarrow> boot_state \<Rightarrow> bool" where
  "walks r ok es st =
     (case r of Inr st' \<Rightarrow> ok \<and> st' = fold emit es st | Inl e \<Rightarrow> \<not> ok \<and> e \<noteq> Ack)"

lemma walks_Inl [simp]: "walks (Inl e) ok es st \<longleftrightarrow> \<not> ok \<and> e \<noteq> Ack"
  and walks_Inr [simp]: "walks (Inr st') ok es st \<longleftrightarrow> ok \<and> st' = fold emit es st"
  by (simp_all add: walks_def)

lemma walks_and_then:
  assumes "walks r ok1 es1 st" "ok1 \<Longrightarrow> walks (f (fold emit es1 st)) ok2 es2 (fold emit es1 st)"
  shows "walks (and_then r f) (ok1 \<and> ok2) (es1 @ es2) st"
  using assms by (cases r) (auto simp: walks_def split: sum.splits)

lemma eject_walks:
  assumes "boot_inv st" "length p = n" "entry_fits (p, st_mode s, d)" "k = length d" "ok"
  shows "walks (eject s p n d (of_nat k) st) ok [(p, st_mode s, d)] st"
  using assms eject_eq [of st d s p] by (auto simp: entry_fits_def)

lemma walk_entries:
  "boot_inv st \<Longrightarrow> length inp = ilen \<Longrightarrow> length out = olen \<Longrightarrow>
     list_all entry_fits (node_entries out x) \<Longrightarrow>
     walks (archive1 x inp out ilen olen st) (node_ok ilen olen x) (node_entries out x) st"
  "boot_inv st \<Longrightarrow> length inp = ilen \<Longrightarrow> length out = olen \<Longrightarrow>
     list_all entry_fits (dir_entries out ents) \<Longrightarrow>
     walks (archive_dir ents inp out ilen olen st) (dir_ok ilen olen ents) (dir_entries out ents) st"
  "boot_inv st \<Longrightarrow> length inp = ilen \<Longrightarrow> length out = olen \<Longrightarrow>
     list_all entry_fits (loop_entries out es) \<Longrightarrow>
     walks (archive_loop es inp out ilen olen st) (loop_ok ilen olen es) (loop_entries out es) st"
proof (induction x inp out ilen olen st and ents inp out ilen olen st and es inp out ilen olen st
    rule: archive1_archive_dir_archive_loop.induct)
  case (2 s data lnk ents inp out ilen olen st)
  consider (reg) "S_ISREG (st_mode s)" | (dir) "\<not> S_ISREG (st_mode s)" "S_ISDIR (st_mode s)"
    | (lnk) "\<not> S_ISREG (st_mode s)" "\<not> S_ISDIR (st_mode s)" "S_ISLNK (st_mode s)"
    | (other) "\<not> S_ISREG (st_mode s)" "\<not> S_ISDIR (st_mode s)" "\<not> S_ISLNK (st_mode s)"
    by blast
  then show ?case
  proof cases
    case reg
    with 2 show ?thesis by (auto simp: min_def split: option.splits if_splits intro!: eject_walks)
  next
    case dir
    have e: "walks (eject s out olen [] 0 st) True [(out, st_mode s, [])] st"
      using eject_walks [of st out olen s "[]" 0 True] 2(2-4) by (simp add: entry_fits_def)
    have fits: "list_all entry_fits (dir_entries out ents)"
      using dir 2(5) by (simp add: dir_entries_def)
    have st': "eject s out olen [] 0 st = Inr (emit (out, st_mode s, []) st)"
      using e by (auto simp: walks_def split: sum.splits)
    have "walks (archive_dir ents inp out ilen olen (emit (out, st_mode s, []) st))
        (dir_ok ilen olen ents) (dir_entries out ents) (emit (out, st_mode s, []) st)"
      using 2(1) [OF dir st'] 2(2-4) fits by simp
    then show ?thesis
      using dir st' walks_and_then [OF e, of "archive_dir ents inp out ilen olen"
          "dir_ok ilen olen ents" "dir_entries out ents"]
      by (simp add: dir_ok_def dir_entries_def)
  next
    case lnk
    with 2 show ?thesis by (auto simp: Let_def split: option.splits intro!: eject_walks)
  next
    case other
    then show ?thesis by simp
  qed
next
  case (6 name x es inp out ilen olen st)
  let ?n = "length name"
  let ?p = "join_path out name" and ?ol = "if olen = 0 then ?n else olen + ?n + 1"
  let ?r = "archive1 x (inp @ ''/'' @ name) ?p (ilen + ?n + 1) ?ol st"
  show ?case
  proof (cases "ilen + ?n + 2 \<le> PATH_BUF \<and> ?ol + 1 \<le> PATH_BUF")
    case True
    have len: "length (inp @ ''/'' @ name) = ilen + ?n + 1" "length ?p = ?ol"
      using "6.prems" by (auto simp: join_path_def)
    have fits: "list_all entry_fits (node_entries ?p x)" "list_all entry_fits (loop_entries out es)"
      using "6.prems" by auto
    have w: "walks ?r (node_ok (ilen + ?n + 1) ?ol x) (node_entries ?p x) st"
      using 6(1-6) True len fits(1) by (cases "olen = 0") (auto simp: join_path_def)
    have l: "walks (archive_loop es inp out ilen olen (fold emit (node_entries ?p x) st))
        (loop_ok ilen olen es) (loop_entries out es) (fold emit (node_entries ?p x) st)"
      if "node_ok (ilen + ?n + 1) ?ol x"
    proof -
      have r: "?r = Inr (fold emit (node_entries ?p x) st)"
        using w that by (auto simp: walks_def split: sum.splits)
      show ?thesis
        using 6(2,4) r True "6.prems" fits(2) by (cases "olen = 0") (auto simp: join_path_def)
    qed
    have "archive_loop ((name, x) # es) inp out ilen olen st =
        and_then ?r (archive_loop es inp out ilen olen)"
      using True "6.prems" by (auto simp: Let_def join_path_def)
    then show ?thesis
      using walks_and_then [where f = "archive_loop es inp out ilen olen", OF w l] True by (simp add: Let_def)
  next
    case False
    then show ?thesis by (auto simp: Let_def)
  qed
qed (auto simp: dir_entries_def dir_ok_def)

lemma stream_fold_emit:
  "pad 4 (out_bytes (fold emit es st)) = pad 4 (out_bytes st) @ newc_stream (next_inode st) es"
proof (induction es arbitrary: st)
  case Nil
  show ?case by simp
next
  case (Cons e es)
  obtain p m d where e: "e = (p, m, d)" by (cases e)
  let ?h = "newc_header (next_inode st) m (of_nat (length d)) (length p) @ p @ [NUL]"
  have "length (pad 4 (out_bytes st) @ pad 4 ?h) mod 4 = 0"
    using pad_length_dvd [of 4 "out_bytes st"] pad_length_dvd [of 4 ?h] by (simp add: mod_eq_0_iff_dvd)
  then have "pad 4 (out_bytes (emit e st)) = pad 4 (out_bytes st) @ newc_entry (next_inode st) e"
    using pad_aligned [of "pad 4 (out_bytes st) @ pad 4 ?h" 4 d]
    by (simp add: emit_def newc_entry_def e Let_def)
  moreover have "next_inode (emit e st) = next_inode st + 1"
    by (simp add: emit_def e Let_def)
  ultimately show ?case using Cons.IH [of "emit e st"] by simp
qed

section \<open>The whole program\<close>

definition arg_entries :: "(string \<Rightarrow> (string \<times> fnode) list option) \<Rightarrow> string \<Rightarrow> entry list" where
  "arg_entries fs a = (case split_arg a of (d, p) \<Rightarrow> dir_entries p (fs d))"

definition arg_ok :: "(string \<Rightarrow> (string \<times> fnode) list option) \<Rightarrow> string \<Rightarrow> bool" where
  "arg_ok fs a = (case split_arg a of (d, p) \<Rightarrow>
     length d < PATH_BUF \<and> length p < PATH_BUF \<and> dir_ok (length d) (length p) (fs d))"

lemma archive_args_walks:
  "boot_inv st \<Longrightarrow> list_all entry_fits (concat (map (arg_entries fs) args)) \<Longrightarrow>
   walks (archive_args fs args st) (list_all (arg_ok fs) args) (concat (map (arg_entries fs) args)) st"
proof (induction args arbitrary: st)
  case Nil
  then show ?case by simp
next
  case (Cons a as)
  obtain d p where a: "split_arg a = (d, p)" by (cases "split_arg a")
  have "walks (archive (fs d) d p st) (arg_ok fs a) (arg_entries fs a) st"
  proof (cases "length d < PATH_BUF \<and> length p < PATH_BUF")
    case True
    then show ?thesis
      using walk_entries(2) [OF Cons.prems(1) refl refl, of p "fs d" d] Cons.prems(2)
      by (auto simp: archive_def arg_ok_def arg_entries_def a)
  next
    case False
    then show ?thesis by (auto simp: archive_def arg_ok_def a)
  qed
  then show ?case
    using walks_and_then [where f = "archive_args fs as", OF _ Cons.IH] Cons.prems by (simp add: a)
qed

definition trailer :: entry where
  "trailer = (''TRAILER!!!'', 0, [])"

lemma eject_trailer_eq:
  assumes "boot_inv st"
  shows "eject_trailer st = Inr (pad_out 0xff (emit trailer st))"
proof -
  have len: "length ''TRAILER!!!'' = 10" by simp
  have "eject zero_stat ''TRAILER!!!'' 10 [] 0 st = Inr (emit trailer st)"
    using eject_eq [OF assms, of "[]" zero_stat "''TRAILER!!!''", unfolded len]
    by (simp add: trailer_def zero_stat_def)
  then show ?thesis by (simp add: eject_trailer_def)
qed

lemma mkbootfs_main_eq:
  assumes "list_all entry_fits (concat (map (arg_entries fs) args))"
    and "args \<noteq> []" "list_all (arg_ok fs) args"
  shows "\<exists>st. mkbootfs_main fs args = Inr st \<and> boot_inv st
     \<and> out_bytes st = pad 256 (newc_stream 300000 (concat (map (arg_entries fs) args) @ [trailer]))"
proof -
  let ?es = "concat (map (arg_entries fs) args)"
  have inv: "boot_inv init_boot_state" by (simp add: boot_inv_def init_boot_state_def)
  have "archive_args fs args init_boot_state = Inr (fold emit ?es init_boot_state)"
    using archive_args_walks [OF inv assms(1)] assms(3) by (auto simp: walks_def split: sum.splits)
  moreover have "eject_trailer (fold emit ?es init_boot_state) =
      Inr (pad_out 0xff (fold emit (?es @ [trailer]) init_boot_state))"
    using inv by (simp add: eject_trailer_eq)
  ultimately have main: "mkbootfs_main fs args =
      Inr (pad_out 0xff (fold emit (?es @ [trailer]) init_boot_state))"
    using assms(2) by (simp add: mkbootfs_main_def)
  let ?out = "out_bytes (fold emit (?es @ [trailer]) init_boot_state)"
  have "4 dvd length ?out"
    by (simp add: emit_def trailer_def Let_def pad_length_dvd)
  then have "?out = pad 4 ?out"
    by (simp add: pad_def padlen_def)
  also have "\<dots> = newc_stream 300000 (?es @ [trailer])"
    using stream_fold_emit [of "?es @ [trailer]" init_boot_state]
    by (simp add: init_boot_state_def pad_def padlen_def)
  finally have out: "?out = newc_stream 300000 (?es @ [trailer])" .
  have "boot_inv (fold emit (?es @ [trailer]) init_boot_state)"
    using inv by (rule boot_inv_fold_emit)
  note pad_out_255 [OF this]
  then show ?thesis
    unfolding main out by (simp add: boot_inv_def)
qed

text \<open>The entries of all the directories named on the command line.\<close>

abbreviation packed :: "(string \<Rightarrow> (string \<times> fnode) list option) \<Rightarrow> string list \<Rightarrow> entry list" where
  "packed fs args \<equiv> concat (map (arg_entries fs) args)"

text \<open>
  C3. \<open>mkbootfs\<close> succeeds exactly when it is given a directory and everything below the given
  directories can be read and named within the path buffers; its output is then the \<open>newc\<close>
  stream of the tree's entries followed by the trailer, padded to a multiple of 256 bytes.
  Otherwise it dies, and never with the internal \<open>ACK!\<close> check: the \<open>olen\<close> that is passed along
  is always the length of the path.
\<close>

theorem mkbootfs_outcome:
  assumes "list_all entry_fits (packed fs args)"
  shows "if args \<noteq> [] \<and> list_all (arg_ok fs) args
    then \<exists>st. mkbootfs_main fs args = Inr st
       \<and> out_bytes st = pad 256 (newc_stream 300000 (packed fs args @ [trailer]))
    else \<exists>e. mkbootfs_main fs args = Inl e \<and> e \<noteq> Ack"
proof (cases "args \<noteq> [] \<and> list_all (arg_ok fs) args")
  case True
  then show ?thesis using mkbootfs_main_eq [OF assms] by auto
next
  case False
  have "boot_inv init_boot_state" by (simp add: boot_inv_def init_boot_state_def)
  from archive_args_walks [OF this assms] False show ?thesis
    by (auto simp: walks_def mkbootfs_main_def split: sum.splits)
qed

section \<open>The size counter over whole runs\<close>

lemma eject_inv:
  assumes "eject s p n d ds st = Inr st'" "boot_inv st" "unat ds \<le> length d"
  shows "boot_inv st'"
proof -
  let ?st = "(pad_out 3 st)\<lparr>out_bytes := out_bytes (pad_out 3 st)
      @ newc_header (next_inode (pad_out 3 st)) (st_mode s) ds n @ p @ [NUL],
      next_inode := next_inode (pad_out 3 st) + 1,
      total_size := total_size (pad_out 3 st) + (6 + 8 * 13 + of_nat n + 1)\<rparr>"
  have n: "length p = n" using assms(1) by (auto simp: eject_def Let_def split: if_splits)
  have "boot_inv ?st" using assms(2) n by (simp add: pad_out_3 boot_inv_def)
  then have "boot_inv (pad_out 3 ?st)" by (simp add: pad_out_3) (simp add: boot_inv_def)
  then show ?thesis
    using assms(1,3) n by (auto simp: eject_def Let_def boot_inv_def split: if_splits)
qed

lemma unat_of_nat_le: "unat (of_nat n :: u32) \<le> n"
  by (simp add: unat_of_nat take_bit_eq_mod)

lemma walk_inv:
  "archive1 x inp out ilen olen st = Inr st' \<Longrightarrow> boot_inv st \<Longrightarrow> boot_inv st'"
  "archive_dir ents inp out ilen olen st = Inr st' \<Longrightarrow> boot_inv st \<Longrightarrow> boot_inv st'"
  "archive_loop es inp out ilen olen st = Inr st' \<Longrightarrow> boot_inv st \<Longrightarrow> boot_inv st'"
proof (induction x inp out ilen olen st and ents inp out ilen olen st and es inp out ilen olen st
    arbitrary: st' and st' and st' rule: archive1_archive_dir_archive_loop.induct)
  case (2 s data lnk ents inp out ilen olen st)
  consider (reg) "S_ISREG (st_mode s)" | (dir) "\<not> S_ISREG (st_mode s)" "S_ISDIR (st_mode s)"
    | (other) "\<not> S_ISREG (st_mode s)" "\<not> S_ISDIR (st_mode s)"
    by blast
  then show ?case
  proof cases
    case reg
    with "2.prems" obtain d where "length (take (st_size s) d) = st_size s"
      "eject s out olen (take (st_size s) d) (of_nat (st_size s)) st = Inr st'"
      by (auto split: option.splits if_splits)
    then show ?thesis
      using eject_inv "2.prems"(2) unat_of_nat_le [of "st_size s"] by fastforce
  next
    case dir
    then show ?thesis using 2 eject_inv [of s out olen "[]" 0 st] by auto
  next
    case other
    then show ?thesis
      using "2.prems" unat_of_nat_le eject_inv by (fastforce simp: Let_def split: option.splits if_splits)
  qed
next
  case (6 name x es inp out ilen olen st)
  then show ?case by (auto simp: Let_def split: if_splits)
qed auto

lemma archive_args_inv:
  "archive_args fs args st = Inr st' \<Longrightarrow> boot_inv st \<Longrightarrow> boot_inv st'"
proof (induction args arbitrary: st)
  case (Cons a as)
  obtain d p where "split_arg a = (d, p)" by (cases "split_arg a")
  with Cons show ?case
    by (auto simp: archive_def split: if_splits dest: walk_inv(2))
qed simp

text \<open>
  C5. Whenever \<open>mkbootfs\<close> finishes, even on files too large for the 32-bit size field, the
  counter \<open>total_size\<close> equals the number of bytes written modulo \<open>2 ^ 32\<close> and the archive's
  length is a multiple of 256.
\<close>

theorem mkbootfs_size_counter:
  assumes "mkbootfs_main fs args = Inr st"
  shows "total_size st = of_nat (length (out_bytes st)) \<and> 256 dvd length (out_bytes st)"
proof -
  have inv0: "boot_inv init_boot_state" by (simp add: boot_inv_def init_boot_state_def)
  from assms obtain st1 where "archive_args fs args init_boot_state = Inr st1" "eject_trailer st1 = Inr st"
    by (auto simp: mkbootfs_main_def split: if_splits)
  then have "st = pad_out 0xff (emit trailer st1)"
    using archive_args_inv inv0 eject_trailer_eq by fastforce
  then show ?thesis
    by (simp add: pad_out_255 pad_length_dvd)
qed

section \<open>Which files are packed\<close>

text \<open>The entries of a node that is packed as a directory.\<close>

definition subdir :: "fnode \<Rightarrow> (string \<times> fnode) list option" where
  "subdir x = (case x of NoEnt \<Rightarrow> None
     | Inode s data lnk ents \<Rightarrow>
         if \<not> S_ISREG (st_mode s) \<and> S_ISDIR (st_mode s) then ents else None)"

text \<open>\<open>reaches es ns x\<close>: the names \<open>ns\<close> lead from a directory with entries \<open>es\<close> to the node \<open>x\<close>.\<close>

inductive reaches :: "(string \<times> fnode) list \<Rightarrow> string list \<Rightarrow> fnode \<Rightarrow> bool" where
  here: "(n, x) \<in> set es \<Longrightarrow> take 1 n \<noteq> ''.'' \<Longrightarrow> n \<noteq> ''root'' \<Longrightarrow> reaches es [n] x"
| below: "(n, y) \<in> set es \<Longrightarrow> take 1 n \<noteq> ''.'' \<Longrightarrow> n \<noteq> ''root'' \<Longrightarrow> subdir y = Some es' \<Longrightarrow> reaches es' ns x \<Longrightarrow>
    reaches es (n # ns) x"

text \<open>The mode and content under which a node itself is packed.\<close>

definition own_entry :: "fnode \<Rightarrow> (u32 \<times> bytes) option" where
  "own_entry x = (case x of NoEnt \<Rightarrow> None
     | Inode s data lnk ents \<Rightarrow>
         if S_ISREG (st_mode s) then map_option (\<lambda>d. (st_mode s, take (st_size s) d)) data
         else if S_ISDIR (st_mode s) then Some (st_mode s, [])
         else if S_ISLNK (st_mode s) then map_option (\<lambda>t. (st_mode s, take 1024 t)) lnk
         else None)"

lemma set_read_names [simp]: "set (read_names es) = {e \<in> set es. keep_name (fst e)}"
  by (auto simp: read_names_def)

lemma loop_entries_mem:
  "e \<in> set (loop_entries p es) \<longleftrightarrow> (\<exists>y \<in> set es. e \<in> set (node_entries (join_path p (fst y)) (snd y)))"
  by (induction es) auto

lemma node_entries_own:
  "node_entries p x = (case own_entry x of None \<Rightarrow> [] | Some (m, c) \<Rightarrow> [(p, m, c)])
     @ (case subdir x of None \<Rightarrow> [] | Some es \<Rightarrow> loop_entries p (read_names es))"
  by (cases x) (auto simp: own_entry_def subdir_def split: option.splits)

lemma node_entries_split:
  "(q, m, c) \<in> set (node_entries p x) \<longleftrightarrow> (q = p \<and> own_entry x = Some (m, c))
   \<or> (\<exists>es. subdir x = Some es \<and> (q, m, c) \<in> set (loop_entries p (read_names es)))"
  unfolding node_entries_own by (cases "own_entry x"; cases "subdir x") auto

lemma size_subdir:
  "subdir x = Some es \<Longrightarrow> size_list (size_prod (\<lambda>_. 0) size) es < size x"
  by (cases x) (auto simp: subdir_def split: if_splits)

lemma size_mem: "(n, y) \<in> set es \<Longrightarrow> size y < size_list (size_prod (\<lambda>_. 0) size) es"
  by (induction es) auto

lemma entries_reached:
  "(q, m, c) \<in> set (loop_entries p (read_names es)) \<Longrightarrow>
     \<exists>ns y. reaches es ns y \<and> q = foldl join_path p ns \<and> own_entry y = Some (m, c)"
proof (induction "size_list (size_prod (\<lambda>_. 0) size) es" arbitrary: p es rule: less_induct)
  case less
  then obtain n x where x: "(n, x) \<in> set es" "keep_name n"
      "(q, m, c) \<in> set (node_entries (join_path p n) x)"
    by (auto simp: loop_entries_mem simp del: node_entries.simps)
  from x(3) consider "q = join_path p n" "own_entry x = Some (m, c)"
    | es' where "subdir x = Some es'" "(q, m, c) \<in> set (loop_entries (join_path p n) (read_names es'))"
    unfolding node_entries_split by blast
  then show ?case
  proof cases
    case 1
    then show ?thesis
      using x by (intro exI [of _ "[n]"] exI [of _ x]) (auto intro: reaches.here simp: keep_name_def)
  next
    case 2
    have "size_list (size_prod (\<lambda>_. 0) size) es' < size_list (size_prod (\<lambda>_. 0) size) es"
      using size_subdir [OF 2(1)] size_mem [OF x(1)] by simp
    from less.hyps [OF this 2(2)] obtain ns y where "reaches es' ns y"
      "q = foldl join_path (join_path p n) ns" "own_entry y = Some (m, c)" by blast
    then show ?thesis
      using x 2(1) by (intro exI [of _ "n # ns"] exI [of _ y]) (auto intro: reaches.below simp: keep_name_def)
  qed
qed

lemma reached_entries:
  "reaches es ns y \<Longrightarrow> own_entry y = Some (m, c) \<Longrightarrow>
     (foldl join_path p ns, m, c) \<in> set (loop_entries p (read_names es))"
proof (induction arbitrary: p rule: reaches.induct)
  case (here n x es)
  then have "(join_path p n, m, c) \<in> set (node_entries (join_path p n) x)"
    by (simp add: node_entries_split del: node_entries.simps)
  with here.hyps show ?case by (force simp: loop_entries_mem keep_name_def simp del: node_entries.simps)
next
  case (below n y es es' ns x)
  then have "(foldl join_path (join_path p n) ns, m, c) \<in> set (node_entries (join_path p n) y)"
    by (auto simp: node_entries_split simp del: node_entries.simps)
  with below.hyps show ?case by (force simp: loop_entries_mem keep_name_def simp del: node_entries.simps)
qed


section \<open>A small tree\<close>

definition demo_file :: fnode where
  "demo_file = Inode \<lparr>st_mode = 0x81ed, st_uid = 0, st_gid = 0, st_size = 5\<rparr> (Some ''hello'') None None"

definition demo_link :: fnode where
  "demo_link = Inode \<lparr>st_mode = 0xa1ff, st_uid = 0, st_gid = 0, st_size = 0\<rparr> None (Some ''busybox'') None"

definition demo_dir :: fnode where
  "demo_dir = Inode \<lparr>st_mode = 0x41ed, st_uid = 0, st_gid = 0, st_size = 0\<rparr> None None
     (Some [(''sh'', demo_link)])"

definition demo_fs :: "string \<Rightarrow> (string \<times> fnode) list option" where
  "demo_fs d = (if d = ''root''
     then Some [(''.keep'', NoEnt), (''init'', demo_file), (''bin'', demo_dir)] else None)"

lemma demo_names:
  "read_names [(''.keep'', NoEnt), (''init'', demo_file), (''bin'', demo_dir)] =
     [(''bin'', demo_dir), (''init'', demo_file)]"
  "read_names [(''sh'', demo_link)] = [(''sh'', demo_link)]"
  by (simp_all add: read_names_def keep_name_def)

lemma demo_packed: "packed demo_fs [''root''] =
   [(''bin'', 0x41ed, []), (''bin/sh'', 0xa1ff, ''busybox''), (''init'', 0x81ed, ''hello'')]"
  by code_simp

lemma demo_nodes: "node_ok i n demo_file" "node_ok i n demo_link"
  by (simp_all add: demo_file_def demo_link_def S_ISREG_def S_ISDIR_def S_ISLNK_def)

lemma demo_dir_ok: "i + 4 \<le> PATH_BUF \<Longrightarrow> n + 4 \<le> PATH_BUF \<Longrightarrow> node_ok i n demo_dir"
  by (simp add: demo_dir_def S_ISREG_def S_ISDIR_def demo_names demo_nodes)

lemma demo_ok: "list_all (arg_ok demo_fs) [''root'']"
  by (simp add: arg_ok_def split_arg_def demo_fs_def dir_ok_def demo_names demo_nodes
      demo_dir_ok PATH_BUF_def)

lemma demo_fits: "list_all entry_fits (packed demo_fs [''root''])"
  unfolding demo_packed by (simp add: entry_fits_def)

theorem mkbootfs_outcome_witness:
  "\<exists>st. mkbootfs_main demo_fs [''root''] = Inr st \<and> out_bytes st = pad 256 (newc_stream 300000
     [(''bin'', 0x41ed, []), (''bin/sh'', 0xa1ff, ''busybox''), (''init'', 0x81ed, ''hello''), trailer])"
  using mkbootfs_outcome [OF demo_fits] demo_ok unfolding demo_packed by simp

theorem mkbootfs_size_counter_witness:
  "\<exists>st. mkbootfs_main demo_fs [''root''] = Inr st \<and> 256 dvd length (out_bytes st)"
proof -
  obtain st where st: "mkbootfs_main demo_fs [''root''] = Inr st"
    using mkbootfs_main_eq [OF demo_fits _ demo_ok] by auto
  with mkbootfs_size_counter [OF st] show ?thesis by blast
qed

end
