(* ===== verification/Cpio.thy ===== *)
theory Cpio
  imports Fdio Mkbootfs
begin

text \<open>
  The \<open>newc\<close> reader of the archive library, \<open>archival/libunarchive/get_header_cpio.c\<close>, with
  the helpers it calls (\<open>data_align.c\<close>, \<open>data_skip.c\<close>, \<open>seek_by_jump.c\<close>, \<open>seek_by_read.c\<close>,
  \<open>filter_accept_all.c\<close>, \<open>header_list.c\<close>, \<open>header_skip.c\<close>, \<open>data_extract_to_stdout.c\<close>) and the
  list and extract loop of \<open>archival/cpio.c\<close>. The handle's function pointers are a record of
  hooks; what the hooks act on (standard output) is the type parameter of the handle.
\<close>

section \<open>The archive handle\<close>

record file_header =
  fh_name :: "string option"
  fh_link_target :: "string option"
  fh_size :: nat
  fh_uid :: u32
  fh_gid :: u32
  fh_mode :: u32
  fh_mtime :: u32
  fh_device :: "u32 \<times> u32"

record hardlinks =
  hl_inode :: u32
  hl_mode :: u32
  hl_mtime :: u32
  hl_uid :: u32
  hl_gid :: u32
  hl_name :: string

text \<open>\<open>ah_seekable\<close>: whether \<open>lseek\<close> works on the source or fails with \<open>ESPIPE\<close>.\<close>

record 'w archive_handle =
  ah_src :: fd
  ah_seekable :: bool
  ah_offset :: nat
  ah_file_header :: file_header
  ah_blocks :: "nat option"
  ah_hardlinks_to_create :: "hardlinks list"
  ah_created_hardlinks :: "hardlinks list"
  ah_world :: 'w

datatype cpio_error = CpioIo io_error | UnsupportedFormat | DamagedFile

record 'w archive_hooks =
  hk_filter :: "'w archive_handle \<Rightarrow> bool"
  hk_action_header :: "file_header \<Rightarrow> 'w \<Rightarrow> 'w"
  hk_action_data :: "'w archive_handle \<Rightarrow> cpio_error + 'w archive_handle"

definition zero_header :: file_header where
  "zero_header = \<lparr>fh_name = None, fh_link_target = None, fh_size = 0, fh_uid = 0, fh_gid = 0,
     fh_mode = 0, fh_mtime = 0, fh_device = (0, 0)\<rparr>"

definition io :: "io_error + 'a \<Rightarrow> cpio_error + 'a" where
  "io r = (case r of Inl e \<Rightarrow> Inl (CpioIo e) | Inr x \<Rightarrow> Inr x)"

lemma io_simps [simp]: "io (Inl e) = Inl (CpioIo e)" "io (Inr x) = Inr x"
  by (simp_all add: io_def)

text \<open>The copy buffer of \<open>copyfd.c\<close> in its default size.\<close>

definition COPYBUF :: nat where
  "COPYBUF = 4096"

section \<open>Moving in the source\<close>

definition seek_by_read :: "nat \<Rightarrow> fd \<Rightarrow> io_error + fd" where
  "seek_by_read amount f =
     (if amount \<noteq> 0
      then and_then (bb_copyfd_exact_size COPYBUF f None (int amount)) (\<lambda>(f', _). Inr f')
      else Inr f)"

definition seek_by_jump :: "bool \<Rightarrow> nat \<Rightarrow> fd \<Rightarrow> io_error + fd" where
  "seek_by_jump seekable amount f =
     (if amount = 0 then Inr f
      else if seekable then Inr (f\<lparr>fd_data := drop amount (fd_data f)\<rparr>)
      else seek_by_read amount f)"

definition ah_seek :: "nat \<Rightarrow> 'w archive_handle \<Rightarrow> cpio_error + 'w archive_handle" where
  "ah_seek amount h =
     and_then (io (seek_by_jump (ah_seekable h) amount (ah_src h))) (\<lambda>f. Inr (h\<lparr>ah_src := f\<rparr>))"

definition data_align :: "nat \<Rightarrow> 'w archive_handle \<Rightarrow> cpio_error + 'w archive_handle" where
  "data_align boundary h =
     (let skip_amount = (boundary - (ah_offset h mod boundary)) mod boundary
      in and_then (ah_seek skip_amount h) (\<lambda>h'. Inr (h'\<lparr>ah_offset := ah_offset h' + skip_amount\<rparr>)))"

definition data_skip :: "'w archive_handle \<Rightarrow> cpio_error + 'w archive_handle" where
  "data_skip h = ah_seek (fh_size (ah_file_header h)) h"

section \<open>Hooks\<close>

definition filter_accept_all :: "'w archive_handle \<Rightarrow> bool" where
  "filter_accept_all h \<longleftrightarrow> fh_name (ah_file_header h) \<noteq> None"

definition header_skip :: "file_header \<Rightarrow> 'w \<Rightarrow> 'w" where
  "header_skip fh w = w"

text \<open>\<open>puts(file_header->name)\<close>\<close>

definition header_list :: "file_header \<Rightarrow> string \<Rightarrow> string" where
  "header_list fh w = w @ (case fh_name fh of None \<Rightarrow> [] | Some n \<Rightarrow> n) @ [CHR 0x0A]"

definition data_extract_to_stdout :: "sink archive_handle \<Rightarrow> cpio_error + sink archive_handle" where
  "data_extract_to_stdout h =
     and_then (io (bb_copyfd_exact_size COPYBUF (ah_src h) (Some (ah_world h))
                     (int (fh_size (ah_file_header h)))))
       (\<lambda>(f, dst). Inr (h\<lparr>ah_src := f,
           ah_world := (case dst of None \<Rightarrow> ah_world h | Some s \<Rightarrow> s)\<rparr>))"

section \<open>Reading one member\<close>

text \<open>The fields that \<open>sscanf\<close> stores, in the order of its arguments.\<close>

record cpio_fields =
  cf_inode :: u32
  cf_mode :: u32
  cf_uid :: u32
  cf_gid :: u32
  cf_nlink :: u32
  cf_mtime :: u32
  cf_size :: u32
  cf_major :: u32
  cf_minor :: u32
  cf_namesize :: u32

fun scan_fields :: "nat \<Rightarrow> string \<Rightarrow> (u32 list \<times> string) option" where
  "scan_fields 0 s = Some ([], s)"
| "scan_fields (Suc k) s =
     (case scan_hex8 s of
        None \<Rightarrow> None
      | Some (v, r) \<Rightarrow> map_option (\<lambda>(vs, r'). (v # vs, r')) (scan_fields k r))"

text \<open>
  \<open>sscanf(cpio_header + 6, "%8x" (seven times) "%*16c" "%8x" (three times), ...) != 10\<close>. The
  string \<open>sscanf\<close> sees ends at a NUL byte.
\<close>

definition sscanf_cpio :: "string \<Rightarrow> cpio_fields option" where
  "sscanf_cpio s =
     (case scan_fields 7 (c_str s) of
        Some ([inode, m, u, g, nlink, mtime, sz], r) \<Rightarrow>
          if length r < 16 then None
          else (case scan_fields 3 (drop 16 r) of
             Some ([major, minor, namesize], _) \<Rightarrow>
               Some \<lparr>cf_inode = inode, cf_mode = m, cf_uid = u, cf_gid = g, cf_nlink = nlink,
                     cf_mtime = mtime, cf_size = sz, cf_major = major, cf_minor = minor,
                     cf_namesize = namesize\<rparr>
           | _ \<Rightarrow> None)
      | _ \<Rightarrow> None)"

definition parse_cpio_header :: "bytes \<Rightarrow> cpio_error + cpio_fields" where
  "parse_cpio_header hdr =
     (if strncmp hdr ''07070'' 5 \<noteq> 0 \<or> (hdr ! 5 \<noteq> CHR ''1'' \<and> hdr ! 5 \<noteq> CHR ''2'')
      then Inl UnsupportedFormat
      else case sscanf_cpio (drop 6 hdr) of None \<Rightarrow> Inl DamagedFile | Some f \<Rightarrow> Inr f)"

definition run_action :: "'w archive_hooks \<Rightarrow> 'w archive_handle \<Rightarrow> cpio_error + 'w archive_handle" where
  "run_action hk h = (if hk_filter hk h then hk_action_data hk h else Inr h)"

text \<open>The loop at label \<open>create_hardlinks\<close>: \<open>ls\<close> is \<open>cpio__hardlinks_to_create\<close>.\<close>

fun create_hardlinks :: "'w archive_hooks \<Rightarrow> hardlinks list \<Rightarrow> 'w archive_handle
    \<Rightarrow> cpio_error + 'w archive_handle" where
  "create_hardlinks hk [] h = Inr h"
| "create_hardlinks hk (make_me # ls) h =
     (let fh = zero_header\<lparr>fh_mtime := hl_mtime make_me, fh_name := Some (hl_name make_me),
                 fh_mode := hl_mode make_me, fh_uid := hl_uid make_me, fh_gid := hl_gid make_me\<rparr>;
          h1 = h\<lparr>ah_hardlinks_to_create := ls\<rparr>
      in case find (\<lambda>cur. hl_inode cur = hl_inode make_me) (ah_created_hardlinks h) of
           Some cur \<Rightarrow>
             and_then (run_action hk (h1\<lparr>ah_file_header := fh\<lparr>fh_link_target := Some (hl_name cur)\<rparr>\<rparr>))
               (create_hardlinks hk ls)
         | None \<Rightarrow>
             and_then (run_action hk (h1\<lparr>ah_file_header := fh\<rparr>))
               (\<lambda>h2. create_hardlinks hk ls
                  (h2\<lparr>ah_created_hardlinks := make_me # ah_created_hardlinks h2\<rparr>)))"

definition finish_cpio :: "'w archive_hooks \<Rightarrow> 'w archive_handle
    \<Rightarrow> cpio_error + (bool \<times> 'w archive_handle)" where
  "finish_cpio hk h =
     and_then (create_hardlinks hk (ah_hardlinks_to_create h) h)
       (\<lambda>h'. Inr (False, h'\<lparr>ah_created_hardlinks := []\<rparr>))"

text \<open>
  From the name on: read it (at most 8191 bytes), drop leading slashes, align, stop at the
  trailer, read a symbolic link's target, remember hard links, run the hooks.
\<close>

definition mask13 :: "u32 \<Rightarrow> nat" where
  "mask13 w = unat (w AND 0x1fff)"

definition cpio_member :: "'w archive_hooks \<Rightarrow> cpio_fields \<Rightarrow> string \<Rightarrow> 'w archive_handle
    \<Rightarrow> cpio_error + (bool \<times> 'w archive_handle)" where
  "cpio_member hk cf name h =
     (let new = \<lparr>hl_inode = cf_inode cf, hl_mode = cf_mode cf, hl_mtime = cf_mtime cf,
                 hl_uid = cf_uid cf, hl_gid = cf_gid cf, hl_name = name\<rparr>;
          hard = (1 <s cf_nlink cf \<and> S_ISREG (cf_mode cf))
      in if hard \<and> cf_size cf = 0
         then Inr (True, h\<lparr>ah_hardlinks_to_create := new # ah_hardlinks_to_create h\<rparr>)
         else
           let h1 = (if hard then h\<lparr>ah_created_hardlinks := new # ah_created_hardlinks h\<rparr> else h);
               h2 = h1\<lparr>ah_file_header := (ah_file_header h1)\<lparr>fh_device := (cf_major cf, cf_minor cf)\<rparr>\<rparr>
           in and_then
                (if hk_filter hk h2
                 then and_then (hk_action_data hk h2)
                        (\<lambda>h3. Inr (h3\<lparr>ah_world := hk_action_header hk (ah_file_header h3) (ah_world h3)\<rparr>))
                 else data_skip h2)
                (\<lambda>h4. Inr (True, h4\<lparr>ah_offset := ah_offset h4 + fh_size (ah_file_header h4),
                       ah_file_header := (ah_file_header h4)\<lparr>fh_link_target := None, fh_name := None\<rparr>\<rparr>)))"

definition cpio_link_target :: "'w archive_handle \<Rightarrow> cpio_error + 'w archive_handle" where
  "cpio_link_target h =
     (let fh = (ah_file_header h)\<lparr>fh_link_target := None\<rparr>
      in if S_ISLNK (fh_mode fh) then
           let n = mask13 (of_nat (fh_size fh))
           in and_then (io (xread n (ah_src h)))
                (\<lambda>(b, f). Inr (h\<lparr>ah_src := f, ah_offset := ah_offset h + n,
                     ah_file_header := fh\<lparr>fh_link_target := Some (c_str b), fh_size := 0\<rparr>\<rparr>))
         else Inr (h\<lparr>ah_file_header := fh\<rparr>))"

definition strip_slashes :: "string \<Rightarrow> string" where
  "strip_slashes n = dropWhile (\<lambda>c. c = CHR ''/'') n"

definition cpio_body :: "'w archive_hooks \<Rightarrow> cpio_fields \<Rightarrow> 'w archive_handle
    \<Rightarrow> cpio_error + (bool \<times> 'w archive_handle)" where
  "cpio_body hk cf h =
     (let namesize = mask13 (cf_namesize cf)
      in and_then (io (xread namesize (ah_src h))) (\<lambda>(nb, f).
         let name = strip_slashes (c_str nb);
             fh = (ah_file_header h)\<lparr>fh_mode := cf_mode cf, fh_uid := cf_uid cf, fh_gid := cf_gid cf,
                    fh_mtime := cf_mtime cf, fh_size := unat (cf_size cf), fh_name := Some name\<rparr>
         in and_then (data_align 4 (h\<lparr>ah_src := f, ah_file_header := fh,
                        ah_offset := ah_offset h + namesize\<rparr>)) (\<lambda>h1.
            if strcmp name ''TRAILER!!!'' = 0
            then finish_cpio hk (h1\<lparr>ah_blocks := Some ((ah_offset h1 + 511) div 512)\<rparr>)
            else and_then (cpio_link_target h1) (cpio_member hk cf name))))"

text \<open>\<open>get_header_cpio\<close>; \<open>True\<close> is \<open>EXIT_SUCCESS\<close>, \<open>False\<close> "no more files to process".\<close>

definition get_header_cpio :: "'w archive_hooks \<Rightarrow> 'w archive_handle
    \<Rightarrow> cpio_error + (bool \<times> 'w archive_handle)" where
  "get_header_cpio hk h =
     and_then (data_align 4 h) (\<lambda>h1.
       case full_read 110 (ah_src h1) of
         (None, f) \<Rightarrow> Inl (CpioIo ShortRead)
       | (Some hdr, f) \<Rightarrow>
           let h2 = h1\<lparr>ah_src := f\<rparr> in
           if hdr = [] then finish_cpio hk h2
           else if length hdr \<noteq> 110 then Inl (CpioIo ShortRead)
           else and_then (parse_cpio_header hdr)
                  (\<lambda>cf. cpio_body hk cf (h2\<lparr>ah_offset := ah_offset h2 + 110\<rparr>)))"

text \<open>
  \<open>while (get_header_cpio(archive_handle) == EXIT_SUCCESS) continue;\<close> with fuel for the number
  of members; \<open>None\<close> is fuel run out.
\<close>

fun cpio_loop :: "nat \<Rightarrow> 'w archive_hooks \<Rightarrow> 'w archive_handle
    \<Rightarrow> (cpio_error + 'w archive_handle) option" where
  "cpio_loop 0 hk h = None"
| "cpio_loop (Suc fuel) hk h =
     (case get_header_cpio hk h of
        Inl e \<Rightarrow> Some (Inl e)
      | Inr (True, h') \<Rightarrow> cpio_loop fuel hk h'
      | Inr (False, h') \<Rightarrow> Some (Inr h'))"

definition init_handle :: "bool \<Rightarrow> fd \<Rightarrow> 'w \<Rightarrow> 'w archive_handle" where
  "init_handle seekable f w = \<lparr>ah_src = f, ah_seekable = seekable, ah_offset = 0,
     ah_file_header = zero_header, ah_blocks = None, ah_hardlinks_to_create = [],
     ah_created_hardlinks = [], ah_world = w\<rparr>"

definition cpio_t_hooks :: "string archive_hooks" where
  "cpio_t_hooks = \<lparr>hk_filter = filter_accept_all, hk_action_header = header_list,
     hk_action_data = data_skip\<rparr>"

definition cpio_to_stdout_hooks :: "sink archive_hooks" where
  "cpio_to_stdout_hooks = \<lparr>hk_filter = filter_accept_all, hk_action_header = header_skip,
     hk_action_data = data_extract_to_stdout\<rparr>"

section \<open>Reading back what mkbootfs writes\<close>

lemma unat_less_16_8: "unat (w :: u32) < 16 ^ 8"
  using unsigned_less [of w] by simp

lemma hex8_value: "of_nat (hex_value (hex8 w)) = (w :: u32)"
  using unat_less_16_8 [of w] by (simp add: hex8_def hex_value_hex_pad)

lemma hex_pad_all_hex: "list_all is_hex (hex_pad k n)"
  by (auto simp: list_all_iff is_hex_def dest!: set_hex_pad)

lemma hex8_all_hex: "list_all is_hex (hex8 w)"
  by (simp add: hex8_def hex_pad_all_hex)

lemma is_hex_char:
  assumes "is_hex c"
  shows "\<not> isspace c" "c \<noteq> CHR ''-''" "c \<noteq> CHR ''+''" "c \<noteq> CHR ''x''" "c \<noteq> CHR ''X''" "c \<noteq> NUL"
  using assms by (auto simp: is_hex_def hex_val_def isspace_def Let_def split: if_splits)

lemma length_hex8 [simp]: "length (hex8 w) = 8"
  by (simp add: hex8_def)

lemma scan_hex8_hex8: "scan_hex8 (hex8 w @ r) = Some (w, r)"
proof -
  obtain a b xs where h: "hex8 w = a # b # xs"
    using length_hex8 [of w] by (cases "hex8 w"; cases "tl (hex8 w)") auto
  have a: "is_hex a" and b: "is_hex b" and xs: "list_all is_hex xs"
    using hex8_all_hex [of w] by (auto simp: h)
  have tw: "takeWhile is_hex xs = xs"
    using xs by (simp add: takeWhile_eq_all_conv list_all_iff)
  have l: "length (a # b # xs) = 8" using length_hex8 [of w] by (simp add: h)
  show ?thesis
    using is_hex_char [OF a] is_hex_char [OF b] a b l hex8_value [of w]
    by (simp add: scan_hex8_def h Let_def numeral_2_eq_2 tw)
qed

lemma newc_no_NUL: "NUL \<notin> set (drop 6 (newc_header i m d n))"
proof -
  have "NUL \<notin> set (hex8 w)" for w
    using hex8_all_hex [of w] is_hex_char(6) by (auto simp: list_all_iff)
  then show ?thesis by (simp add: newc_header_def)
qed

lemma hex_magic: "hex_pad 6 0x070701 = ''070701''"
  by (simp add: hex_pad_numeral hex_digit_def hex_digits_def)

lemma scan_fields_append:
  "length ws = k \<Longrightarrow> scan_fields k (concat (map hex8 ws) @ r) = Some (ws, r)"
  by (induction ws arbitrary: k) (auto simp: scan_hex8_hex8)

lemma parse_newc_header:
  assumes "n + 1 < 2 ^ 32"
  shows "parse_cpio_header (newc_header i m d n) =
     Inr \<lparr>cf_inode = i, cf_mode = m, cf_uid = 0, cf_gid = 0, cf_nlink = 1, cf_mtime = 0,
          cf_size = d, cf_major = 0, cf_minor = 0, cf_namesize = of_nat (n + 1)\<rparr>"
proof -
  let ?r2 = "hex8 0 @ hex8 0 @ hex8 (of_nat (n + 1)) @ hex8 0"
  have d: "drop 6 (newc_header i m d n) =
      concat (map hex8 [i, m, 0, 0, 1, 0, d]) @ hex8 0 @ hex8 0 @ ?r2"
    by (simp add: newc_header_def)
  have 1: "scan_fields 7 (drop 6 (newc_header i m d n)) = Some ([i, m, 0, 0, 1, 0, d], hex8 0 @ hex8 0 @ ?r2)"
    unfolding d by (rule scan_fields_append) simp
  have 2: "scan_fields 3 ?r2 = Some ([0, 0, of_nat (n + 1)], hex8 0)"
    using scan_fields_append [of "[0, 0, of_nat (n + 1)]" 3 "hex8 0"] by simp
  have "sscanf_cpio (drop 6 (newc_header i m d n)) =
      Some \<lparr>cf_inode = i, cf_mode = m, cf_uid = 0, cf_gid = 0, cf_nlink = 1, cf_mtime = 0,
          cf_size = d, cf_major = 0, cf_minor = 0, cf_namesize = of_nat (n + 1)\<rparr>"
    using 1 2 by (simp add: sscanf_cpio_def c_str_no_NUL [OF newc_no_NUL])
  moreover have "take 6 (newc_header i m d n) = ''070701''"
    by (simp add: newc_header_def hex_magic)
  then have "take 5 (newc_header i m d n) = ''07070''" "newc_header i m d n ! 5 = CHR ''1''"
    by (simp_all add: newc_header_def hex_magic nth_append)
  ultimately show ?thesis
    by (simp add: parse_cpio_header_def strncmp_def)
qed

section \<open>Moving over the bytes of the stream\<close>

lemma ah_seek_ok:
  assumes "feeds (ah_src h) (a @ b)" "length a = n"
  shows "\<exists>f'. ah_seek n h = Inr (h\<lparr>ah_src := f'\<rparr>) \<and> feeds f' b"
proof (cases "n = 0")
  case True
  with assms show ?thesis by (intro exI [of _ "ah_src h"]) (auto simp: ah_seek_def seek_by_jump_def)
next
  case False
  show ?thesis
  proof (cases "ah_seekable h")
    case True
    with False assms show ?thesis by (auto simp: ah_seek_def seek_by_jump_def feeds_def)
  next
    case ns: False
    obtain f' dst' where "bb_copyfd_exact_size COPYBUF (ah_src h) None (int n) = Inr (f', dst')"
      "feeds f' (drop n (a @ b))"
      using copyfd_exact_ok [OF assms(1), of None COPYBUF n] assms(2)
      by (auto simp: accepts_def COPYBUF_def)
    with False ns assms(2) show ?thesis
      by (auto simp: ah_seek_def seek_by_jump_def seek_by_read_def)
  qed
qed

lemma data_align_ok:
  assumes "feeds (ah_src h) (a @ b)" "length a = padlen 4 (ah_offset h)"
  shows "\<exists>f'. data_align 4 h = Inr (h\<lparr>ah_src := f', ah_offset := ah_offset h + length a\<rparr>) \<and> feeds f' b"
  using ah_seek_ok [OF assms] assms(2) by (auto simp: data_align_def padlen_def)

lemma full_read_exact:
  assumes "feeds f (a @ b)" "length a = n"
  shows "\<exists>f'. full_read n f = (Some a, f') \<and> feeds f' b"
  using full_read_ok [of f n] assms by (auto simp: feeds_def)

lemma mask13_small: "n < 0x2000 \<Longrightarrow> mask13 (of_nat n) = n"
  using and_mask_mod [of "of_nat n :: u32" 13]
  by (simp add: mask13_def mask_eq_exp_minus_1)

section \<open>The interface of an archive client\<close>

text \<open>
  What the reader asks of its hooks: the filter lets named members through, and the data
  action consumes exactly the member's data. \<open>obs\<close> is what can be seen of the client's state
  and \<open>eff\<close> what one member does to it.
\<close>

locale cpio_client =
  fixes hk :: "'w archive_hooks" and winv :: "'w \<Rightarrow> bool"
    and obs :: "'w \<Rightarrow> 'o" and eff :: "file_header \<Rightarrow> bytes \<Rightarrow> 'o \<Rightarrow> 'o"
  assumes filter_named: "fh_name (ah_file_header h) \<noteq> None \<Longrightarrow> hk_filter hk h"
    and action: "winv (ah_world h) \<Longrightarrow> feeds (ah_src h) (d @ r) \<Longrightarrow>
      length d = fh_size (ah_file_header h) \<Longrightarrow>
      \<exists>f' w'. hk_action_data hk h = Inr (h\<lparr>ah_src := f', ah_world := w'\<rparr>) \<and> feeds f' r
        \<and> winv (hk_action_header hk (ah_file_header h) w')
        \<and> obs (hk_action_header hk (ah_file_header h) w') = eff (ah_file_header h) d (obs (ah_world h))"

text \<open>The header and the data a client sees for an entry of the archive.\<close>

definition entry_header :: "entry \<Rightarrow> file_header" where
  "entry_header e = (case e of (p, m, d) \<Rightarrow>
     \<lparr>fh_name = Some p, fh_link_target = (if S_ISLNK m then Some (c_str d) else None),
      fh_size = (if S_ISLNK m then 0 else length d), fh_uid = 0, fh_gid = 0, fh_mode = m,
      fh_mtime = 0, fh_device = (0, 0)\<rparr>)"

definition entry_data :: "entry \<Rightarrow> bytes" where
  "entry_data e = (case e of (p, m, d) \<Rightarrow> if S_ISLNK m then [] else d)"

text \<open>An entry whose name and sizes the reader takes over unchanged.\<close>

definition wf_path :: "string \<Rightarrow> bool" where
  "wf_path p \<longleftrightarrow> NUL \<notin> set p \<and> take 1 p \<noteq> ''/'' \<and> length p < 0x1fff"

definition wf_entry :: "entry \<Rightarrow> bool" where
  "wf_entry e \<longleftrightarrow> (case e of (p, m, d) \<Rightarrow> wf_path p \<and> p \<noteq> ''TRAILER!!!'' \<and> length d < 2 ^ 32
     \<and> \<not> (S_ISLNK m \<and> 0x2000 \<le> length d))"

text \<open>The position between two members: the padding that is left, then the rest.\<close>

definition at_stream :: "'w archive_handle \<Rightarrow> bytes \<Rightarrow> bool" where
  "at_stream h s \<longleftrightarrow> (\<exists>a. feeds (ah_src h) (a @ s) \<and> length a = padlen 4 (ah_offset h))"

lemma strip_slashes_wf: "wf_path p \<Longrightarrow> strip_slashes p = p"
  by (cases p) (auto simp: wf_path_def strip_slashes_def)

definition newc_fields :: "u32 \<Rightarrow> entry \<Rightarrow> cpio_fields" where
  "newc_fields i e = (case e of (p, m, d) \<Rightarrow>
     \<lparr>cf_inode = i, cf_mode = m, cf_uid = 0, cf_gid = 0, cf_nlink = 1, cf_mtime = 0,
      cf_size = of_nat (length d), cf_major = 0, cf_minor = 0, cf_namesize = of_nat (length p + 1)\<rparr>)"

lemma read_header:
  assumes "at_stream h (newc_entry i (p, m, d) @ s)" "wf_path p"
  shows "\<exists>f' off. get_header_cpio hk h =
       cpio_body hk (newc_fields i (p, m, d)) (h\<lparr>ah_src := f', ah_offset := off\<rparr>)
     \<and> feeds f' ((p @ [NUL]) @ replicate (padlen 4 (off + (length p + 1))) NUL @ pad 4 d @ s)
     \<and> off mod 4 = 2"
proof -
  let ?H = "newc_header i m (of_nat (length d)) (length p)"
  let ?n = "length p + 1"
  obtain a where a: "feeds (ah_src h) (a @ newc_entry i (p, m, d) @ s)" "length a = padlen 4 (ah_offset h)"
    using assms(1) by (auto simp: at_stream_def)
  obtain f1 where f1: "data_align 4 h = Inr (h\<lparr>ah_src := f1, ah_offset := ah_offset h + length a\<rparr>)"
    "feeds f1 (newc_entry i (p, m, d) @ s)"
    using data_align_ok [OF a] by blast
  define off where "off = ah_offset h + length a + 110"
  have off4: "off mod 4 = 2"
    using add_padlen_mod [of 4 "ah_offset h"] a(2) unfolding off_def by presburger
  have "(off + ?n) mod 4 = length (?H @ p @ [NUL]) mod 4"
    using off4 by (simp add: mod_simps) presburger
  then have padeq: "padlen 4 (length (?H @ p @ [NUL])) = padlen 4 (off + ?n)"
    by (metis padlen_mod)
  have e: "newc_entry i (p, m, d) @ s =
      ?H @ (p @ [NUL]) @ replicate (padlen 4 (off + ?n)) NUL @ pad 4 d @ s"
    by (simp add: newc_entry_def pad_def [of 4 "?H @ p @ [NUL]"] padeq [simplified])
  obtain f2 where f2: "full_read 110 f1 = (Some ?H, f2)"
    "feeds f2 ((p @ [NUL]) @ replicate (padlen 4 (off + ?n)) NUL @ pad 4 d @ s)"
    using full_read_exact [of f1 ?H _ 110] f1(2) unfolding e by auto
  have small: "?n < 0x2000" using assms(2) by (simp add: wf_path_def)
  then have hdr: "parse_cpio_header ?H = Inr (newc_fields i (p, m, d))"
    using parse_newc_header [of "length p"] by (simp add: newc_fields_def)
  have "?H \<noteq> []"
    by (metis length_newc_header list.size(3) zero_neq_numeral)
  then show ?thesis
    using f1(1) f2 hdr off4 unfolding off_def
    by (intro exI [of _ f2] exI [of _ "ah_offset h + length a + 110"]) (simp add: get_header_cpio_def)
qed

text \<open>After the name: the handle at the member's data, its header filled in.\<close>

lemma read_name:
  assumes "feeds (ah_src h) ((p @ [NUL]) @ replicate (padlen 4 (ah_offset h + (length p + 1))) NUL @ s)"
    and "wf_path p" "length d < 2 ^ 32"
  shows "\<exists>f'. (let h1 = h\<lparr>ah_file_header := (ah_file_header h)\<lparr>fh_mode := m, fh_uid := 0,
           fh_gid := 0, fh_mtime := 0, fh_size := length d, fh_name := Some p\<rparr>, ah_src := f',
         ah_offset := ah_offset h + (length p + 1) + padlen 4 (ah_offset h + (length p + 1))\<rparr>
     in cpio_body hk (newc_fields i (p, m, d)) h =
        (if p = ''TRAILER!!!''
         then finish_cpio hk (h1\<lparr>ah_blocks := Some ((ah_offset h1 + 511) div 512)\<rparr>)
         else and_then (cpio_link_target h1) (cpio_member hk (newc_fields i (p, m, d)) p)))
     \<and> feeds f' s"
proof -
  let ?n = "length p + 1"
  have "?n < 0x2000" using assms(2) by (simp add: wf_path_def)
  note n = mask13_small [OF this]
  obtain f1 where f1: "xread ?n (ah_src h) = Inr (p @ [NUL], f1)"
    "feeds f1 (replicate (padlen 4 (ah_offset h + ?n)) NUL @ s)"
    using fd_source.rd_exact [OF assms(1), of ?n] by auto
  have nul: "NUL \<notin> set p" using assms(2) by (simp add: wf_path_def)
  have name: "strip_slashes (c_str (p @ [NUL])) = p"
    using strip_slashes_wf [OF assms(2)] c_str_append_NUL [OF nul, of "[]"] by simp
  let ?h = "h\<lparr>ah_src := f1, ah_file_header := (ah_file_header h)\<lparr>fh_mode := m, fh_uid := 0,
      fh_gid := 0, fh_mtime := 0, fh_size := length d, fh_name := Some p\<rparr>,
      ah_offset := ah_offset h + ?n\<rparr>"
  obtain f2 where "data_align 4 ?h = Inr (?h\<lparr>ah_src := f2,
      ah_offset := ah_offset h + ?n + padlen 4 (ah_offset h + ?n)\<rparr>)" "feeds f2 s"
    using data_align_ok [of ?h "replicate (padlen 4 (ah_offset h + ?n)) NUL" s] f1(2) by auto
  then show ?thesis
    using n f1(1) name assms(3)
    by (intro exI [of _ f2]) (simp add: cpio_body_def newc_fields_def Let_def)
qed

lemma header_full:
  "fh\<lparr>fh_mode := m, fh_uid := u, fh_gid := g, fh_mtime := t, fh_size := n, fh_name := nm,
      fh_link_target := l, fh_device := dv\<rparr> =
   \<lparr>fh_name = nm, fh_link_target = l, fh_size = n, fh_uid = u, fh_gid = g, fh_mode = m,
    fh_mtime = t, fh_device = dv\<rparr>"
  by (cases fh) simp

text \<open>A symbolic link's target is read here; for other members nothing is consumed.\<close>

lemma link_target_ok:
  assumes "feeds (ah_src h) (d @ r)" "fh_size (ah_file_header h) = length d"
    and "fh_mode (ah_file_header h) = m" "\<not> (S_ISLNK m \<and> 0x2000 \<le> length d)"
  shows "\<exists>f'. cpio_link_target h = Inr (h\<lparr>ah_src := f',
        ah_offset := ah_offset h + (if S_ISLNK m then length d else 0),
        ah_file_header := (ah_file_header h)\<lparr>fh_size := (if S_ISLNK m then 0 else length d),
          fh_link_target := (if S_ISLNK m then Some (c_str d) else None)\<rparr>\<rparr>)
     \<and> feeds f' ((if S_ISLNK m then [] else d) @ r)"
proof (cases "S_ISLNK m")
  case True
  then have "length d < 0x2000" using assms(4) by simp
  note n = mask13_small [OF this]
  obtain f' where "xread (length d) (ah_src h) = Inr (d, f')" "feeds f' r"
    using fd_source.rd_exact [OF assms(1) refl] by blast
  then show ?thesis
    using True n assms(2,3) by (intro exI [of _ f']) (simp add: cpio_link_target_def Let_def)
next
  case False
  have "h\<lparr>ah_file_header := (ah_file_header h)\<lparr>fh_link_target := None\<rparr>\<rparr> =
      h\<lparr>ah_src := ah_src h, ah_offset := ah_offset h,
        ah_file_header := (ah_file_header h)\<lparr>fh_size := length d, fh_link_target := None\<rparr>\<rparr>"
    using assms(2) by (cases h; cases "ah_file_header h") simp
  then show ?thesis
    using False assms(1,3) by (intro exI [of _ "ah_src h"]) (simp add: cpio_link_target_def Let_def)
qed

context cpio_client
begin

lemma member_ok:
  assumes "feeds (ah_src h) (b @ r)" "length b = fh_size (ah_file_header h)" "winv (ah_world h)"
    and "fh_name (ah_file_header h) \<noteq> None" "cf_nlink cf = 1"
  shows "\<exists>h'. cpio_member hk cf name h = Inr (True, h') \<and> feeds (ah_src h') r
     \<and> ah_offset h' = ah_offset h + length b \<and> winv (ah_world h')
     \<and> obs (ah_world h') = eff ((ah_file_header h)\<lparr>fh_device := (cf_major cf, cf_minor cf)\<rparr>) b (obs (ah_world h))
     \<and> ah_hardlinks_to_create h' = ah_hardlinks_to_create h"
proof -
  let ?h = "h\<lparr>ah_file_header := (ah_file_header h)\<lparr>fh_device := (cf_major cf, cf_minor cf)\<rparr>\<rparr>"
  have "hk_filter hk ?h" using assms(4) by (intro filter_named) simp
  moreover obtain f' w' where "hk_action_data hk ?h = Inr (?h\<lparr>ah_src := f', ah_world := w'\<rparr>)" "feeds f' r"
    "winv (hk_action_header hk (ah_file_header ?h) w')"
    "obs (hk_action_header hk (ah_file_header ?h) w') = eff (ah_file_header ?h) b (obs (ah_world h))"
    using action [of ?h b r] assms(1-3) by auto
  ultimately show ?thesis
    using assms(2,5) by (simp add: cpio_member_def Let_def)
qed

lemma get_member:
  assumes "wf_entry e" "at_stream h (newc_entry i e @ s)" "winv (ah_world h)"
  shows "\<exists>h'. get_header_cpio hk h = Inr (True, h') \<and> at_stream h' s \<and> winv (ah_world h')
     \<and> obs (ah_world h') = eff (entry_header e) (entry_data e) (obs (ah_world h))
     \<and> ah_hardlinks_to_create h' = ah_hardlinks_to_create h"
proof -
  obtain p m d where e: "e = (p, m, d)" by (cases e)
  let ?n = "length p + 1" and ?cf = "newc_fields i (p, m, d)"
  have wf: "wf_path p" "p \<noteq> ''TRAILER!!!''" "length d < 2 ^ 32" "\<not> (S_ISLNK m \<and> 0x2000 \<le> length d)"
    using assms(1) by (auto simp: e wf_entry_def)
  obtain f1 off where 1: "get_header_cpio hk h = cpio_body hk ?cf (h\<lparr>ah_src := f1, ah_offset := off\<rparr>)"
    "feeds f1 ((p @ [NUL]) @ replicate (padlen 4 (off + ?n)) NUL @ pad 4 d @ s)" "off mod 4 = 2"
    using read_header [OF assms(2) [unfolded e] wf(1)] by blast
  obtain f2 where 2: "get_header_cpio hk h = and_then (cpio_link_target (h\<lparr>ah_file_header :=
        (ah_file_header h)\<lparr>fh_mode := m, fh_uid := 0, fh_gid := 0, fh_mtime := 0,
           fh_size := length d, fh_name := Some p\<rparr>, ah_src := f2,
        ah_offset := off + ?n + padlen 4 (off + ?n)\<rparr>)) (cpio_member hk ?cf p)" "feeds f2 (pad 4 d @ s)"
    using read_name [of "h\<lparr>ah_src := f1, ah_offset := off\<rparr>" p "pad 4 d @ s" d m hk i] 1 wf
    by (auto simp: Let_def)
  define h1 where "h1 = h\<lparr>ah_file_header :=
        (ah_file_header h)\<lparr>fh_mode := m, fh_uid := 0, fh_gid := 0, fh_mtime := 0,
           fh_size := length d, fh_name := Some p\<rparr>, ah_src := f2,
        ah_offset := off + ?n + padlen 4 (off + ?n)\<rparr>"
  let ?z = "replicate (padlen 4 (length d)) NUL @ s"
  obtain f3 where 3: "cpio_link_target h1 = Inr (h1\<lparr>ah_src := f3,
        ah_offset := ah_offset h1 + (if S_ISLNK m then length d else 0),
        ah_file_header := (ah_file_header h1)\<lparr>fh_size := (if S_ISLNK m then 0 else length d),
          fh_link_target := (if S_ISLNK m then Some (c_str d) else None)\<rparr>\<rparr>)"
     "feeds f3 (entry_data e @ ?z)"
    using link_target_ok [of h1 d ?z m] 2(2) wf(4) by (auto simp: h1_def pad_def e entry_data_def)
  define h2 where "h2 = h1\<lparr>ah_src := f3,
        ah_offset := ah_offset h1 + (if S_ISLNK m then length d else 0),
        ah_file_header := (ah_file_header h1)\<lparr>fh_size := (if S_ISLNK m then 0 else length d),
          fh_link_target := (if S_ISLNK m then Some (c_str d) else None)\<rparr>\<rparr>"
  have fh: "(ah_file_header h2)\<lparr>fh_device := (cf_major ?cf, cf_minor ?cf)\<rparr> = entry_header e"
    by (simp add: h2_def h1_def e entry_header_def newc_fields_def header_full)
  have len: "length (entry_data e) = fh_size (ah_file_header h2)"
    by (simp add: h2_def e entry_data_def)
  have h2: "ah_src h2 = f3" "ah_world h2 = ah_world h" "fh_name (ah_file_header h2) \<noteq> None"
    "ah_hardlinks_to_create h2 = ah_hardlinks_to_create h"
    by (simp_all add: h2_def h1_def)
  have "cf_nlink ?cf = 1" by (simp add: newc_fields_def)
  from member_ok [OF _ len _ h2(3) this, of ?z p] 3(2) assms(3)
  obtain h' where 4: "cpio_member hk ?cf p h2 = Inr (True, h')" "feeds (ah_src h') ?z"
     "ah_offset h' = ah_offset h2 + length (entry_data e)" "winv (ah_world h')"
     "obs (ah_world h') = eff (entry_header e) (entry_data e) (obs (ah_world h))"
     "ah_hardlinks_to_create h' = ah_hardlinks_to_create h"
    unfolding h2 fh by auto
  have "ah_offset h' = off + ?n + padlen 4 (off + ?n) + length d"
    using 4(3) by (auto simp: h2_def h1_def e entry_data_def)
  then have "padlen 4 (ah_offset h') = padlen 4 (length d)"
    using padlen_add_aligned [OF add_padlen_mod [of 4 "off + ?n"], of "length d"] by simp
  then have "at_stream h' s"
    using 4(2) unfolding at_stream_def by (intro exI [of _ "replicate (padlen 4 (length d)) NUL"]) simp
  moreover have "get_header_cpio hk h = Inr (True, h')"
    using 2(1) [folded h1_def] 3(1) [folded h2_def] 4(1) by simp
  ultimately show ?thesis using 4 by blast
qed

lemma get_trailer:
  assumes "at_stream h (newc_entry i trailer @ s)" "ah_hardlinks_to_create h = []"
  shows "\<exists>h'. get_header_cpio hk h = Inr (False, h') \<and> ah_world h' = ah_world h"
proof -
  have wf: "wf_path ''TRAILER!!!''" by (simp add: wf_path_def)
  obtain f1 off where 1: "get_header_cpio hk h =
      cpio_body hk (newc_fields i (''TRAILER!!!'', 0, [])) (h\<lparr>ah_src := f1, ah_offset := off\<rparr>)"
    "feeds f1 ((''TRAILER!!!'' @ [NUL]) @ replicate (padlen 4 (off + (length ''TRAILER!!!'' + 1))) NUL
       @ pad 4 [] @ s)"
    using read_header [OF assms(1) [unfolded trailer_def] wf] by blast
  have len: "length ([] :: bytes) < 2 ^ 32" by simp
  have "\<exists>h2. get_header_cpio hk h = finish_cpio hk h2 \<and> ah_world h2 = ah_world h
      \<and> ah_hardlinks_to_create h2 = []"
    using read_name [OF _ wf len, of "h\<lparr>ah_src := f1, ah_offset := off\<rparr>" "pad 4 [] @ s" 0 hk i]
      1 assms(2) by (auto simp: Let_def simp del: list.size)
  then show ?thesis by (auto simp: finish_cpio_def)
qed

text \<open>The loop visits the members in order and stops at the trailer.\<close>

lemma cpio_loop_stream:
  assumes "list_all wf_entry es" "at_stream h (newc_stream i (es @ [trailer]) @ s)"
    and "winv (ah_world h)" "ah_hardlinks_to_create h = []" "length es < fuel"
  shows "\<exists>h'. cpio_loop fuel hk h = Some (Inr h')
     \<and> obs (ah_world h') = fold (\<lambda>e. eff (entry_header e) (entry_data e)) es (obs (ah_world h))"
  using assms
proof (induction es arbitrary: h i fuel)
  case Nil
  then obtain h' where "get_header_cpio hk h = Inr (False, h')" "ah_world h' = ah_world h"
    using get_trailer [of h i s] by auto
  then show ?case using Nil.prems(5) by (cases fuel) auto
next
  case (Cons e es)
  then obtain k where k: "fuel = Suc k" "length es < k" by (cases fuel) auto
  obtain h1 where h1: "get_header_cpio hk h = Inr (True, h1)"
    "at_stream h1 (newc_stream (i + 1) (es @ [trailer]) @ s)" "winv (ah_world h1)"
    "obs (ah_world h1) = eff (entry_header e) (entry_data e) (obs (ah_world h))"
    "ah_hardlinks_to_create h1 = []"
    using get_member [of e h i "newc_stream (i + 1) (es @ [trailer]) @ s"] Cons.prems by auto
  show ?case
    using Cons.IH [OF _ h1(2,3,5) k(2)] Cons.prems(1) h1(1,4) k(1) by auto
qed

end

section \<open>The clients of cpio.c\<close>

lemma handle_same_world: "h\<lparr>ah_src := f\<rparr> = h\<lparr>ah_src := f, ah_world := ah_world h\<rparr>"
  by (cases h) simp

text \<open>\<open>cpio -t\<close>: skip the data, print the name.\<close>

interpretation cpio_t: cpio_client cpio_t_hooks "\<lambda>_. True" "\<lambda>w. w" "\<lambda>fh d w. header_list fh w"
proof
  show "fh_name (ah_file_header h) \<noteq> None \<Longrightarrow> hk_filter cpio_t_hooks h" for h :: "string archive_handle"
    by (simp add: cpio_t_hooks_def filter_accept_all_def)
next
  fix h :: "string archive_handle" and d r :: bytes
  assume a: "feeds (ah_src h) (d @ r)" "length d = fh_size (ah_file_header h)"
  obtain f' where "data_skip h = Inr (h\<lparr>ah_src := f', ah_world := ah_world h\<rparr>)" "feeds f' r"
    using ah_seek_ok [OF a] handle_same_world [where h = h] by (auto simp: data_skip_def)
  then show "\<exists>f' w'. hk_action_data cpio_t_hooks h = Inr (h\<lparr>ah_src := f', ah_world := w'\<rparr>) \<and> feeds f' r
      \<and> True \<and> hk_action_header cpio_t_hooks (ah_file_header h) w' = header_list (ah_file_header h) (ah_world h)"
    by (intro exI [of _ f'] exI [of _ "ah_world h"]) (simp add: cpio_t_hooks_def)
qed

text \<open>\<open>cpio -i --to-stdout\<close>: copy the data to standard output.\<close>

interpretation cpio_cat: cpio_client cpio_to_stdout_hooks "\<lambda>s. accepts (Some s)" sk_data "\<lambda>fh d w. w @ d"
proof
  show "fh_name (ah_file_header h) \<noteq> None \<Longrightarrow> hk_filter cpio_to_stdout_hooks h" for h :: "sink archive_handle"
    by (simp add: cpio_to_stdout_hooks_def filter_accept_all_def)
next
  fix h :: "sink archive_handle" and d r :: bytes
  assume a: "accepts (Some (ah_world h))" "feeds (ah_src h) (d @ r)" "length d = fh_size (ah_file_header h)"
  obtain f' dst' where c: "bb_copyfd_exact_size COPYBUF (ah_src h) (Some (ah_world h))
      (int (length d)) = Inr (f', dst')" "feeds f' r" "accepts dst'"
      "written dst' = Some (sk_data (ah_world h) @ d)"
    using copyfd_exact_ok [OF a(2,1), of COPYBUF "length d"] by (auto simp: COPYBUF_def written_def)
  then obtain s where "dst' = Some s" "sk_data s = sk_data (ah_world h) @ d"
    by (auto simp: written_def)
  with c a(3) show "\<exists>f' w'. hk_action_data cpio_to_stdout_hooks h = Inr (h\<lparr>ah_src := f', ah_world := w'\<rparr>)
      \<and> feeds f' r \<and> accepts (Some (hk_action_header cpio_to_stdout_hooks (ah_file_header h) w'))
      \<and> sk_data (hk_action_header cpio_to_stdout_hooks (ah_file_header h) w') = sk_data (ah_world h) @ d"
    by (auto simp: cpio_to_stdout_hooks_def data_extract_to_stdout_def header_skip_def)
qed

lemma fold_header_list:
  "fold (\<lambda>e. header_list (entry_header e)) es w = w @ concat (map (\<lambda>(p, m, d). p @ [CHR 0x0A]) es)"
  by (induction es arbitrary: w) (auto simp: header_list_def entry_header_def)

lemma fold_entry_data:
  "fold (\<lambda>e w. w @ entry_data e) es w = w @ concat (map entry_data es)"
  by (induction es arbitrary: w) auto

lemma at_stream_init: "feeds f s \<Longrightarrow> at_stream (init_handle sk f w) s"
  by (auto simp: at_stream_def init_handle_def padlen_def)

lemma wf_entry_fits: "list_all wf_entry es \<Longrightarrow> list_all entry_fits es"
  by (auto simp: list_all_iff wf_entry_def entry_fits_def)

end
