(* ===== verification/Ui.thy ===== *)
theory Ui
  imports Prelude
begin

text \<open>
  The message display of the flash card: \<open>src/ui/ui_client.c\<close> sends one datagram per message,
  \<open>src/ui/ui_server.c\<close> draws the messages and an activity mark behind an unfinished line. The
  drawing calls of \<open>minui\<close> are recorded in order as \<open>gr_call\<close>s; only the size of the frame
  buffer, which the code asks \<open>minui\<close> for, is an argument. The coordinates are C \<open>int\<close>s whose
  overflow is undefined; they are modelled as \<^typ>\<open>int\<close>. The static variables of the server are
  the record \<open>ui\<close>, the progress thread and the socket queue are added in \<open>ui_sys\<close>.
\<close>

section \<open>The server's state and drawing\<close>

definition CHAR_WIDTH :: int where "CHAR_WIDTH = 10"
definition CHAR_HEIGHT :: int where "CHAR_HEIGHT = 18"
definition RED :: u32 where "RED = 0xff0000ff"
definition GREEN :: u32 where "GREEN = 0x00ff00ff"
definition BLUE :: u32 where "BLUE = 0x0000ffff"

lemmas ui_consts = CHAR_WIDTH_def CHAR_HEIGHT_def

datatype gr_call =
    GrInit
  | GrColor u32 u32 u32 u32
  | GrFill int int int int
  | GrText int int string
  | GrFlip

record Text =
  t_x :: int
  t_y :: int
  t_color :: u32
  t_msg :: string

record ui =
  width :: int
  height :: int
  rows :: int
  top_y :: int
  cur_y :: int
  cur_x :: int
  ui_text :: "Text list"
  prog_enable :: bool
  prog_x :: int
  prog_y :: int
  prog_step :: nat
  gr :: "gr_call list"

definition ui_zero :: ui where
  "ui_zero = \<lparr>width = 0, height = 0, rows = 0, top_y = 0, cur_y = 0, cur_x = 0, ui_text = [],
     prog_enable = False, prog_x = 0, prog_y = 0, prog_step = 0, gr = []\<rparr>"

definition draw :: "gr_call list \<Rightarrow> ui \<Rightarrow> ui" where
  "draw cs u = u\<lparr>gr := gr u @ cs\<rparr>"

definition clear :: "ui \<Rightarrow> ui" where
  "clear u = draw [GrColor 0 0 0 255, GrFill 0 0 (width u) (height u)] u"

definition ui_init :: "int \<Rightarrow> int \<Rightarrow> ui \<Rightarrow> ui" where
  "ui_init fb_width fb_height u =
     (let u1 = (draw [GrInit] u)\<lparr>width := fb_width, height := fb_height,
                  rows := fb_height div CHAR_HEIGHT, top_y := 0, cur_y := CHAR_HEIGHT, cur_x := 0\<rparr>
      in draw [GrFlip] (clear u1))"

definition set_color :: "u32 \<Rightarrow> gr_call" where
  "set_color c = GrColor (drop_bit 24 c AND 0xff) (drop_bit 16 c AND 0xff) (drop_bit 8 c AND 0xff) (c AND 0xff)"

text \<open>The loop of \<open>draw_message\<close> over the list of texts, newest first.\<close>

fun draw_texts :: "int \<Rightarrow> int \<Rightarrow> Text list \<Rightarrow> gr_call list" where
  "draw_texts h y0 [] = []"
| "draw_texts h y0 (t # ts) =
     (let y = t_y t - y0 in
      if y > h then draw_texts h y0 ts
      else if y < CHAR_HEIGHT then []
      else set_color (t_color t) # GrText (t_x t) y (t_msg t) # draw_texts h y0 ts)"

definition draw_message :: "ui \<Rightarrow> ui" where
  "draw_message u = draw (draw_texts (height u) (top_y u) (ui_text u)) (clear u)"

definition prog_strs :: "string list" where
  "prog_strs = [''-'', [CHR 0x5C], ''/'']"

definition start_progress :: "int \<Rightarrow> int \<Rightarrow> ui \<Rightarrow> ui" where
  "start_progress x y u = u\<lparr>prog_enable := True, prog_x := x, prog_y := y\<rparr>"

definition stop_progress :: "ui \<Rightarrow> ui" where
  "stop_progress u = u\<lparr>prog_enable := False\<rparr>"

definition erase_progress :: "ui \<Rightarrow> ui" where
  "erase_progress u =
     draw [GrColor 0 0 0 255, GrFill (prog_x u) (prog_y u - CHAR_HEIGHT) (prog_x u + CHAR_WIDTH) (prog_y u)] u"

definition scroll :: "ui \<Rightarrow> ui" where
  "scroll u =
     (if cur_y u > height u then
        let u1 = draw_message (u\<lparr>top_y := top_y u + CHAR_HEIGHT\<rparr>)
        in u1\<lparr>cur_y := cur_y u1 - CHAR_HEIGHT\<rparr>
      else u)"

definition show_message :: "string \<Rightarrow> bool \<Rightarrow> ui \<Rightarrow> ui" where
  "show_message msg nl u =
     (let u1 = scroll u;
          color = (if cur_x u1 \<noteq> 0 then (if strcmp msg ''FAIL'' = 0 then RED else GREEN) else BLUE);
          u2 = (if cur_x u1 \<noteq> 0 then erase_progress (stop_progress u1) else u1);
          u3 = draw [set_color color, GrText (cur_x u2) (cur_y u2) msg, GrFlip] u2;
          t = \<lparr>t_x = cur_x u3, t_y = cur_y u3 + top_y u3, t_color = color, t_msg = msg\<rparr>;
          u4 = u3\<lparr>ui_text := t # ui_text u3\<rparr>
      in if nl then u4\<lparr>cur_y := cur_y u4 + CHAR_HEIGHT, cur_x := 0\<rparr>
         else let u5 = u4\<lparr>cur_x := cur_x u4 + CHAR_WIDTH * (int (length msg) + 3)\<rparr>
              in start_progress (cur_x u5) (cur_y u5) u5)"

text \<open>The \<open>'C'\<close> message: the next activity mark.\<close>

definition progress_tick :: "ui \<Rightarrow> ui" where
  "progress_tick u =
     (if prog_enable u then
        let u1 = u\<lparr>prog_step := (prog_step u + 1) mod length prog_strs\<rparr>
        in draw [set_color BLUE, GrText (prog_x u1) (prog_y u1) (prog_strs ! prog_step u1), GrFlip]
             (erase_progress u1)
      else u)"

section \<open>The server's loop\<close>

text \<open>
  The receive buffer has 1024 bytes; \<open>stale\<close> is what the uninitialised buffer held before, so
  the bytes behind a short datagram are arbitrary. A message without a NUL inside the buffer makes
  \<open>show_message\<close> read behind it: \<open>Overread\<close>.
\<close>

datatype ui_error = Overread | NoSocket | NoBind

datatype recv = RecvErr int | Recv bytes bytes

definition recv_buf :: "bytes \<Rightarrow> bytes \<Rightarrow> bytes" where
  "recv_buf d stale = take 1024 (take 1024 d @ drop (length (take 1024 d)) stale)"

definition c_string_at :: "bytes \<Rightarrow> ui_error + string" where
  "c_string_at b = (if NUL \<in> set b then Inr (c_str b) else Inl Overread)"

definition snprintf :: "nat \<Rightarrow> string \<Rightarrow> string" where
  "snprintf n s = take (n - 1) s"

definition handle_buf :: "bytes \<Rightarrow> ui \<Rightarrow> ui_error + ui" where
  "handle_buf buf u =
     (if buf ! 0 = CHR ''A'' then and_then (c_string_at (drop 1 buf)) (\<lambda>m. Inr (show_message m True u))
      else if buf ! 0 = CHR ''B'' then and_then (c_string_at (drop 1 buf)) (\<lambda>m. Inr (show_message m False u))
      else if buf ! 0 = CHR ''C'' then Inr (progress_tick u)
      else Inr u)"

definition server_step :: "recv \<Rightarrow> ui \<Rightarrow> ui_error + ui" where
  "server_step r u =
     (case r of
        RecvErr e \<Rightarrow> Inr (show_message (snprintf 128 (''ERROR: recvfrom failed: errno = '' @ dec_int e)) True u)
      | Recv d stale \<Rightarrow> handle_buf (recv_buf d stale) u)"

fun server_loop :: "recv list \<Rightarrow> ui \<Rightarrow> ui_error + ui" where
  "server_loop [] u = Inr u"
| "server_loop (r # rs) u = and_then (server_step r u) (server_loop rs)"

text \<open>
  \<open>main\<close>: the arguments are the frame buffer's size, the \<open>errno\<close> of a failing \<open>socket\<close> and
  \<open>bind\<close>, and what \<open>recvfrom\<close> returns, one entry per call.
\<close>

definition ui_server_main :: "int \<Rightarrow> int \<Rightarrow> int option \<Rightarrow> int option \<Rightarrow> recv list \<Rightarrow> (ui_error \<times> ui) + (ui_error + ui)" where
  "ui_server_main fbw fbh sock bnd rs =
     (let u = ui_init fbw fbh ui_zero in
      case sock of
        Some e \<Rightarrow> Inl (NoSocket, show_message (snprintf 128 (''ERROR: create socket failed, errno = '' @ dec_int e)) True u)
      | None \<Rightarrow> (case bnd of
          Some e \<Rightarrow> Inl (NoBind, show_message (snprintf 128 (''ERROR: bind failed: errno = '' @ dec_int e)) True u)
        | None \<Rightarrow> Inr (server_loop rs u)))"

section \<open>The client\<close>

datatype client_error = ClientSocket | Usage | SendFailed

definition ui_client_main :: "bool \<Rightarrow> bool \<Rightarrow> string list \<Rightarrow> client_error + bytes" where
  "ui_client_main socket_ok send_ok argv =
     (if \<not> socket_ok then Inl ClientSocket
      else
        let parsed =
          (if length argv = 2 then Some (False, argv ! 1)
           else if length argv = 3 \<and> strcmp (argv ! 1) ''-n'' = 0 then Some (True, argv ! 2)
           else None)
        in case parsed of
             None \<Rightarrow> Inl Usage
           | Some (nl, msg) \<Rightarrow>
               let buf = (if nl then CHR ''B'' else CHR ''A'') # msg @ [NUL]
               in if send_ok then Inr buf else Inl SendFailed)"

section \<open>The progress thread and the socket\<close>

text \<open>
  \<open>progress_thread\<close> waits on the condition variable, then sends a \<open>'C'\<close> datagram every 300 ms
  while \<open>prog_enable\<close> is set; a failing \<open>sendto\<close> ends it. The server's handling of one datagram
  is one step: the thread reads nothing but \<open>prog_enable\<close>.
\<close>

datatype thread_pc = Waiting | Polling | Sleeping | Dead

record ui_sys =
  srv :: ui
  queue :: "bytes list"
  pc :: thread_pc

inductive sys_step :: "ui_sys \<Rightarrow> ui_sys \<Rightarrow> bool" where
  client: "ui_client_main True True argv = Inr d \<Longrightarrow> sys_step s (s\<lparr>queue := queue s @ [d]\<rparr>)"
| receive: "queue s = d # q \<Longrightarrow> length stale = 1024 \<Longrightarrow> server_step (Recv d stale) (srv s) = Inr u \<Longrightarrow>
     sys_step s (s\<lparr>srv := u, queue := q\<rparr>)"
| receive_error: "server_step (RecvErr e) (srv s) = Inr u \<Longrightarrow> sys_step s (s\<lparr>srv := u\<rparr>)"
| wake: "pc s = Waiting \<Longrightarrow> prog_enable (srv s) \<Longrightarrow> sys_step s (s\<lparr>pc := Polling\<rparr>)"
| tick: "pc s = Polling \<Longrightarrow> prog_enable (srv s) \<Longrightarrow>
     sys_step s (s\<lparr>queue := queue s @ [''C''], pc := Sleeping\<rparr>)"
| tick_failed: "pc s = Polling \<Longrightarrow> prog_enable (srv s) \<Longrightarrow> sys_step s (s\<lparr>pc := Dead\<rparr>)"
| slept: "pc s = Sleeping \<Longrightarrow> sys_step s (s\<lparr>pc := Polling\<rparr>)"
| idle: "pc s = Polling \<Longrightarrow> \<not> prog_enable (srv s) \<Longrightarrow> sys_step s (s\<lparr>pc := Waiting\<rparr>)"

inductive sys_reach :: "int \<Rightarrow> int \<Rightarrow> ui_sys \<Rightarrow> bool" for w h where
  start: "sys_reach w h \<lparr>srv = ui_init w h ui_zero, queue = [], pc = Waiting\<rparr>"
| next_step: "sys_reach w h s \<Longrightarrow> sys_step s s' \<Longrightarrow> sys_reach w h s'"

inductive_cases sys_step_cases: "sys_step s s'"

section \<open>What the display should hold\<close>

text \<open>
  The specification: messages are placed one after the other, a message without \<open>-n\<close> ends its
  line, the next message of an unfinished line stands three columns behind it. The first message
  of a line is blue, a later one red when it is \<open>FAIL\<close> and green otherwise.
\<close>

definition line_color :: "int \<Rightarrow> string \<Rightarrow> u32" where
  "line_color x msg = (if x = 0 then BLUE else if msg = ''FAIL'' then RED else GREEN)"

definition next_pos :: "string \<times> bool \<Rightarrow> int \<times> int \<Rightarrow> int \<times> int" where
  "next_pos m p = (if snd m then (0, snd p + 18) else (fst p + 10 * (int (length (fst m)) + 3), snd p))"

fun place :: "int \<times> int \<Rightarrow> (string \<times> bool) list \<Rightarrow> Text list" where
  "place p [] = []"
| "place p (m # ms) =
     \<lparr>t_x = fst p, t_y = snd p, t_color = line_color (fst p) (fst m), t_msg = fst m\<rparr>
     # place (next_pos m p) ms"

definition pos_after :: "(string \<times> bool) list \<Rightarrow> int \<times> int" where
  "pos_after ms = fold next_pos ms (0, 18)"

lemma pos_after_simps [simp]:
  "pos_after [] = (0, 18)" "pos_after (ms @ [m]) = next_pos m (pos_after ms)"
  by (simp_all add: pos_after_def)

lemma place_snoc: "place (0, 18) (ms @ [m]) = place (0, 18) ms @ place (pos_after ms) [m]"
proof -
  have "place p (ms @ [m]) = place p ms @ place (fold next_pos ms p) [m]" for p
    by (induction ms arbitrary: p) auto
  then show ?thesis by (simp add: pos_after_def)
qed

definition ui_ok :: "int \<Rightarrow> int \<Rightarrow> (string \<times> bool) list \<Rightarrow> ui \<Rightarrow> bool" where
  "ui_ok w h ms u \<longleftrightarrow>
     width u = w \<and> height u = h \<and> rows u = h div 18
     \<and> 0 \<le> top_y u \<and> 18 dvd top_y u \<and> 18 \<le> cur_y u \<and> 18 dvd cur_y u
     \<and> cur_y u \<le> h + 18 \<and> (cur_x u \<noteq> 0 \<longrightarrow> cur_y u \<le> h)
     \<and> (cur_x u, cur_y u + top_y u) = pos_after ms
     \<and> ui_text u = rev (place (0, 18) ms)
     \<and> (prog_enable u \<longleftrightarrow> cur_x u \<noteq> 0) \<and> 0 \<le> cur_x u
     \<and> (prog_enable u \<longrightarrow> prog_x u = cur_x u \<and> prog_y u = cur_y u)
     \<and> prog_step u < 3"

lemmas ui_ops = show_message_def scroll_def draw_message_def clear_def draw_def erase_progress_def
  stop_progress_def start_progress_def ui_init_def progress_tick_def Let_def ui_consts

lemma ui_ok_init: "18 \<le> h \<Longrightarrow> ui_ok w h [] (ui_init w h ui_zero)"
  by (simp add: ui_ok_def ui_ops ui_zero_def)

lemma ui_ok_scroll:
  assumes "ui_ok w h ms u" "18 \<le> h"
  shows "ui_ok w h ms (scroll u) \<and> cur_y (scroll u) \<le> h"
proof (cases "cur_y u > h")
  case True
  then have "18 dvd cur_y u" "cur_y u > 18" using assms by (auto simp: ui_ok_def)
  then have "cur_y u \<ge> 36" by (auto simp: dvd_def)
  with True assms show ?thesis by (auto simp: ui_ok_def ui_ops)
qed (use assms in \<open>auto simp: ui_ok_def scroll_def\<close>)

lemma show_message_scrolled: "\<not> cur_y u > height u \<Longrightarrow> scroll u = u"
  by (simp add: scroll_def)

lemma ui_ok_show_message:
  assumes "ui_ok w h ms u" "18 \<le> h"
  shows "ui_ok w h (ms @ [(msg, nl)]) (show_message msg nl u)"
proof -
  let ?v = "scroll u"
  have v: "ui_ok w h ms ?v" "cur_y ?v \<le> h" using ui_ok_scroll [OF assms] by auto
  have p: "pos_after ms = (cur_x ?v, cur_y ?v + top_y ?v)"
    using v by (simp add: ui_ok_def)
  show ?thesis
    using v assms(2) unfolding show_message_def Let_def
    by (auto simp: ui_ok_def draw_def erase_progress_def stop_progress_def start_progress_def
        ui_consts place_snoc p line_color_def next_pos_def)
qed

lemma ui_ok_tick: "ui_ok w h ms u \<Longrightarrow> ui_ok w h ms (progress_tick u)"
  by (auto simp: ui_ok_def progress_tick_def erase_progress_def draw_def Let_def prog_strs_def)

section \<open>What is on the screen\<close>

text \<open>The texts drawn since the screen was last cleared as a whole.\<close>

fun shown :: "int \<Rightarrow> int \<Rightarrow> (int \<times> int \<times> string) set \<Rightarrow> gr_call list \<Rightarrow> (int \<times> int \<times> string) set" where
  "shown w h a [] = a"
| "shown w h a (GrFill x y x' y' # cs) =
     shown w h (if (x, y, x', y') = (0, 0, w, h) then {} else a) cs"
| "shown w h a (GrText x y m # cs) = shown w h (insert (x, y, m) a) cs"
| "shown w h a (_ # cs) = shown w h a cs"

lemma shown_append [simp]: "shown w h a (cs @ ds) = shown w h (shown w h a cs) ds"
  by (induction w h a cs rule: shown.induct) auto

definition in_window :: "int \<Rightarrow> int \<Rightarrow> Text \<Rightarrow> bool" where
  "in_window h y0 t \<longleftrightarrow> 18 \<le> t_y t - y0 \<and> t_y t - y0 \<le> h"

definition window :: "int \<Rightarrow> int \<Rightarrow> Text list \<Rightarrow> (int \<times> int \<times> string) set" where
  "window h y0 ts = set (map (\<lambda>t. (t_x t, t_y t - y0, t_msg t)) (filter (in_window h y0) ts))"

text \<open>
  \<open>draw_message\<close> stops at the first text above the screen; as the list is sorted by line this
  misses nothing.
\<close>

lemma window_Cons:
  "window h y0 (t # ts) =
     (if in_window h y0 t then insert (t_x t, t_y t - y0, t_msg t) (window h y0 ts) else window h y0 ts)"
  by (simp add: window_def)

lemma window_above:
  "sorted_wrt (\<lambda>a b. t_y b \<le> t_y a) (t # ts) \<Longrightarrow> t_y t - y0 < 18 \<Longrightarrow> window h y0 (t # ts) = {}"
  by (force simp: window_def in_window_def)

lemma draw_texts_window:
  "sorted_wrt (\<lambda>a b. t_y b \<le> t_y a) ts \<Longrightarrow> shown w h a (draw_texts h y0 ts) = a \<union> window h y0 ts"
proof (induction ts arbitrary: a)
  case Nil
  then show ?case by (simp add: window_def)
next
  case (Cons t ts)
  show ?case
  proof (cases "t_y t - y0 < 18")
    case True
    with Cons.prems have "window h y0 (t # ts) = {}" by (rule window_above)
    then have "window h y0 ts = {}" by (simp add: window_Cons split: if_splits)
    with True Cons show ?thesis
      by (auto simp: window_Cons in_window_def ui_consts Let_def)
  next
    case False
    with Cons show ?thesis
      by (auto simp: window_Cons in_window_def ui_consts Let_def set_color_def)
  qed
qed

lemma place_y_ge: "t \<in> set (place p ms) \<Longrightarrow> snd p \<le> t_y t"
  by (induction p ms rule: place.induct) (auto simp: next_pos_def split: if_splits)

lemma place_sorted: "sorted_wrt (\<lambda>a b. t_y a \<le> t_y b) (place p ms)"
proof (induction p ms rule: place.induct)
  case (2 p m ms)
  have "snd p \<le> t_y t" if "t \<in> set (place (next_pos m p) ms)" for t
    using place_y_ge [OF that] by (auto simp: next_pos_def split: if_splits)
  with 2 show ?case by simp
qed simp

definition screen_ok :: "ui \<Rightarrow> bool" where
  "screen_ok u \<longleftrightarrow> shown (width u) (height u) {} (gr u) = window (height u) (top_y u) (ui_text u)"

lemma screen_ok_init: "screen_ok (ui_init w h ui_zero)"
  by (simp add: screen_ok_def ui_ops ui_zero_def window_def)

lemma screen_ok_scroll:
  assumes "ui_ok w h ms u" "screen_ok u"
  shows "screen_ok (scroll u)"
proof -
  have "sorted_wrt (\<lambda>a b. t_y b \<le> t_y a) (ui_text u)"
    using assms(1) place_sorted [of "(0, 18)" ms] by (simp add: ui_ok_def sorted_wrt_rev)
  with assms(2) show ?thesis by (simp add: screen_ok_def ui_ops draw_texts_window)
qed

lemma screen_ok_show_message:
  assumes "ui_ok w h ms u" "18 \<le> h" "screen_ok u"
  shows "screen_ok (show_message msg nl u)"
proof -
  let ?v = "scroll u"
  have v: "ui_ok w h ms ?v" "cur_y ?v \<le> h" "screen_ok ?v"
    using ui_ok_scroll [OF assms(1,2)] screen_ok_scroll [OF assms(1,3)] by auto
  have win: "window h' y0 (\<lparr>t_x = x, t_y = y + y0, t_color = c, t_msg = m\<rparr> # ts) = insert (x, y, m) (window h' y0 ts)"
    if "18 \<le> y" "y \<le> h'" for h' y0 x y c m ts
    using that by (simp add: window_Cons in_window_def)
  have "18 \<le> cur_y ?v" "cur_y ?v \<le> height ?v" using v by (auto simp: ui_ok_def)
  note win' = win [OF this]
  have scr: "shown (width ?v) (height ?v) {} (gr ?v) = window (height ?v) (top_y ?v) (ui_text ?v)"
    using v(3) by (simp add: screen_ok_def)
  have "cur_x ?v \<noteq> 0 \<Longrightarrow> prog_x ?v \<noteq> 0" using v(1) by (auto simp: ui_ok_def)
  then show ?thesis
    unfolding show_message_def Let_def
    by (simp add: screen_ok_def draw_def erase_progress_def stop_progress_def
        start_progress_def set_color_def win' scr)
qed

definition show_all :: "(string \<times> bool) list \<Rightarrow> ui \<Rightarrow> ui" where
  "show_all ms u = fold (\<lambda>(m, nl). show_message m nl) ms u"

lemma show_all_ok:
  assumes "18 \<le> h"
  shows "ui_ok w h ms (show_all ms (ui_init w h ui_zero)) \<and> screen_ok (show_all ms (ui_init w h ui_zero))"
proof (induction ms rule: rev_induct)
  case Nil
  then show ?case using assms by (simp add: show_all_def ui_ok_init screen_ok_init)
next
  case (snoc m ms)
  then show ?case
    using ui_ok_show_message [OF _ assms] screen_ok_show_message [OF _ assms]
    by (cases m) (auto simp: show_all_def)
qed

section \<open>Properties of the display\<close>

lemma ui_ok_handle_buf:
  assumes "handle_buf b u = Inr u'" "ui_ok w h ms u" "18 \<le> h"
  shows "\<exists>ms'. ui_ok w h ms' u'"
  using assms ui_ok_show_message [OF assms(2,3)] ui_ok_tick [OF assms(2)]
  by (auto simp: handle_buf_def split: if_splits)

lemma ui_ok_server_step:
  assumes "server_step r u = Inr u'" "ui_ok w h ms u" "18 \<le> h"
  shows "\<exists>ms'. ui_ok w h ms' u'"
proof (cases r)
  case (RecvErr e)
  with assms(1) obtain m where "u' = show_message m True u" by (simp add: server_step_def) metis
  then show ?thesis using ui_ok_show_message [OF assms(2,3)] by blast
next
  case (Recv d stale)
  with assms show ?thesis using ui_ok_handle_buf by (simp add: server_step_def)
qed

lemma ui_ok_sys_step:
  "sys_step s s' \<Longrightarrow> ui_ok w h ms (srv s) \<Longrightarrow> 18 \<le> h \<Longrightarrow> \<exists>ms'. ui_ok w h ms' (srv s')"
  by (erule sys_step_cases) (auto intro: ui_ok_server_step)

text \<open>
  C10. In every state the server, the progress thread and any clients can reach, in any
  interleaving: the recorded texts are the placement of a sequence of messages, the cursor stands
  behind the last of them on a whole line of the screen or just below it, the screen is never
  scrolled in the middle of a line, and the activity mark is enabled exactly while a line is
  unfinished and then stands behind it, with an index into the three marks.
\<close>

theorem ui_reachable_ok:
  assumes "sys_reach w h s" "18 \<le> h"
  shows "\<exists>ms. ui_ok w h ms (srv s)"
  using assms
proof (induction rule: sys_reach.induct)
  case start
  then show ?case using ui_ok_init by auto
next
  case (next_step s s')
  then show ?case using ui_ok_sys_step by blast
qed

theorem ui_reachable_ok_witness:
  "\<exists>s. sys_reach 320 240 s \<and> queue s = [''Bflash'' @ [NUL]] \<and> (\<exists>ms. ui_ok 320 240 ms (srv s))"
proof -
  let ?s0 = "\<lparr>srv = ui_init 320 240 ui_zero, queue = [], pc = Waiting\<rparr>"
  let ?s1 = "?s0\<lparr>queue := queue ?s0 @ [''Bflash'' @ [NUL]]\<rparr>"
  have "sys_step ?s0 ?s1"
    by (rule sys_step.client [of "[''ui_client'', ''-n'', ''flash'']"])
      (simp add: ui_client_main_def)
  then have r: "sys_reach 320 240 ?s1" using sys_reach.start sys_reach.next_step by blast
  show ?thesis using ui_reachable_ok [OF r] r by (intro exI [of _ ?s1]) simp
qed

text \<open>
  C11. After any sequence of messages, the screen shows exactly the messages whose lines lie in
  the window of the lines that fit, at their place relative to the window and with nothing left
  of older lines, although \<open>draw_message\<close> stops at the first line above the window.
\<close>

theorem ui_screen_is_window:
  assumes "18 \<le> h"
  shows "let u = show_all ms (ui_init w h ui_zero) in
    shown w h {} (gr u) = window h (top_y u) (rev (place (0, 18) ms))
    \<and> snd (pos_after ms) - 18 \<le> top_y u + h"
proof -
  let ?u = "show_all ms (ui_init w h ui_zero)"
  have "ui_ok w h ms ?u" "screen_ok ?u" using show_all_ok [OF assms] by auto
  then show ?thesis
    by (cases "pos_after ms") (simp add: screen_ok_def ui_ok_def Let_def)
qed

theorem ui_screen_is_window_witness:
  "let u = show_all [(''boot'', False), (''OK'', True), (''root'', True)] (ui_init 200 36 ui_zero) in
    shown 200 36 {} (gr u) = {(0, 18, ''boot''), (70, 18, ''OK''), (0, 36, ''root'')}"
  using ui_screen_is_window [of 36 "[(''boot'', False), (''OK'', True), (''root'', True)]" 200]
  by (simp add: Let_def show_all_def ui_ops ui_zero_def window_def in_window_def next_pos_def insert_commute)

lemma client_datagram:
  "ui_client_main True True (if cont then [prog, ''-n'', msg] else [prog, msg])
     = Inr ((if cont then CHR ''B'' else CHR ''A'') # msg @ [NUL])"
  by (simp add: ui_client_main_def)

lemma c_string_at_NUL: "NUL \<notin> set m \<Longrightarrow> c_string_at (m @ NUL # r) = Inr m"
  by (simp add: c_string_at_def)

lemma recv_buf_short:
  assumes "length d \<le> 1024"
  shows "recv_buf d stale = d @ take (1024 - length d) (drop (length d) stale)"
  using assms by (simp add: recv_buf_def)

lemma recv_buf_long:
  assumes "1024 \<le> length d" "length stale = 1024"
  shows "recv_buf d stale = take 1024 d"
  using assms by (simp add: recv_buf_def min_def)

text \<open>
  C12. A message given to \<open>ui_client\<close> is shown by \<open>ui_server\<close> unchanged, and ends its line
  exactly when \<open>-n\<close> was not given, whatever the receive buffer held before. This holds for
  messages of up to 1022 bytes; a longer one leaves the server's buffer without a terminating NUL
  and \<open>show_message\<close> reads behind it.
\<close>

theorem ui_client_server:
  assumes "NUL \<notin> set msg" "length stale = 1024"
  shows "\<exists>d. ui_client_main True True (if cont then [prog, ''-n'', msg] else [prog, msg]) = Inr d
    \<and> server_step (Recv d stale) u =
        (if length msg \<le> 1022 then Inr (show_message msg (\<not> cont) u) else Inl Overread)"
proof (cases "length msg \<le> 1022")
  case True
  then show ?thesis
    using assms by (auto simp: client_datagram server_step_def recv_buf_short handle_buf_def c_string_at_NUL)
next
  case False
  then have "NUL \<notin> set (take 1023 msg)" using assms by (auto dest: in_set_takeD)
  moreover have "take 1024 (c # msg @ [NUL]) = c # take 1023 msg" for c
    using False by (simp add: take_Cons')
  ultimately show ?thesis
    using False assms by (auto simp: client_datagram server_step_def recv_buf_long handle_buf_def c_string_at_def)
qed

theorem ui_client_server_witness:
  "\<exists>d. ui_client_main True True [''ui_client'', ''-n'', ''Flash boot''] = Inr d
    \<and> server_step (Recv d (replicate 1024 (CHR ''x''))) (ui_init 320 240 ui_zero)
        = Inr (show_message ''Flash boot'' False (ui_init 320 240 ui_zero))"
  using ui_client_server [of "''Flash boot''" "replicate 1024 (CHR ''x'')" True "''ui_client''" "ui_init 320 240 ui_zero"]
  by simp

end
