(* ===== verification/ShellMath.thy ===== *)
theory ShellMath
  imports Prelude "HOL-Library.Signed_Division"
begin

text \<open>
  Shell arithmetic, \<open>$((...))\<close>: the two-stack evaluator of \<open>shell/math.c\<close>, on which every
  size and partition boundary of \<open>flash.sh\<close> rests. \<open>arith_t\<close> is \<open>long long\<close>
  (\<open>SH_MATH_SUPPORT_64\<close>, the default), a 64-bit word read as signed; sums, differences and
  products wrap. The shell's variables are a map from names to texts, with the \<open>endofname\<close> hook
  of \<open>shell/ash.c\<close>. Where C leaves the behaviour open (a shift count outside 0..63, the quotient
  of the least number and -1) the model has the error \<open>E_undefined\<close>; a write behind the end of the
  number stack or the operator stack is \<open>E_numstack\<close> or \<open>E_opstack\<close>. The other errors are the codes
  -1, -2, -3 and -5 of the source. The number stack and the operator stack are lists with the top first.
\<close>

type_synonym arith_t = "64 word"
type_synonym operator = nat
type_synonym env = "string \<rightharpoonup> string"

datatype arith_err = E_syntax | E_div0 | E_exp | E_loop | E_numstack | E_opstack | E_undefined

section \<open>Operators\<close>

definition tok_decl :: "nat \<Rightarrow> nat \<Rightarrow> operator" where "tok_decl prec n = (n * 32 + prec) mod 256"
definition PREC :: "operator \<Rightarrow> nat" where "PREC op = op mod 32"

definition TOK_LPAREN :: operator where "TOK_LPAREN = tok_decl 0 0"
definition TOK_COMMA :: operator where "TOK_COMMA = tok_decl 1 0"
definition TOK_ASSIGN :: operator where "TOK_ASSIGN = tok_decl 2 0"
definition TOK_AND_ASSIGN :: operator where "TOK_AND_ASSIGN = tok_decl 2 1"
definition TOK_OR_ASSIGN :: operator where "TOK_OR_ASSIGN = tok_decl 2 2"
definition TOK_XOR_ASSIGN :: operator where "TOK_XOR_ASSIGN = tok_decl 2 3"
definition TOK_PLUS_ASSIGN :: operator where "TOK_PLUS_ASSIGN = tok_decl 2 4"
definition TOK_MINUS_ASSIGN :: operator where "TOK_MINUS_ASSIGN = tok_decl 2 5"
definition TOK_LSHIFT_ASSIGN :: operator where "TOK_LSHIFT_ASSIGN = tok_decl 2 6"
definition TOK_RSHIFT_ASSIGN :: operator where "TOK_RSHIFT_ASSIGN = tok_decl 2 7"
definition TOK_MUL_ASSIGN :: operator where "TOK_MUL_ASSIGN = tok_decl 3 0"
definition TOK_DIV_ASSIGN :: operator where "TOK_DIV_ASSIGN = tok_decl 3 1"
definition TOK_REM_ASSIGN :: operator where "TOK_REM_ASSIGN = tok_decl 3 2"
definition TOK_CONDITIONAL :: operator where "TOK_CONDITIONAL = tok_decl 4 0"
definition TOK_CONDITIONAL_SEP :: operator where "TOK_CONDITIONAL_SEP = tok_decl 4 1"
definition TOK_OR :: operator where "TOK_OR = tok_decl 5 0"
definition TOK_AND :: operator where "TOK_AND = tok_decl 6 0"
definition TOK_BOR :: operator where "TOK_BOR = tok_decl 7 0"
definition TOK_BXOR :: operator where "TOK_BXOR = tok_decl 8 0"
definition TOK_BAND :: operator where "TOK_BAND = tok_decl 9 0"
definition TOK_EQ :: operator where "TOK_EQ = tok_decl 10 0"
definition TOK_NE :: operator where "TOK_NE = tok_decl 10 1"
definition TOK_LT :: operator where "TOK_LT = tok_decl 11 0"
definition TOK_GT :: operator where "TOK_GT = tok_decl 11 1"
definition TOK_GE :: operator where "TOK_GE = tok_decl 11 2"
definition TOK_LE :: operator where "TOK_LE = tok_decl 11 3"
definition TOK_LSHIFT :: operator where "TOK_LSHIFT = tok_decl 12 0"
definition TOK_RSHIFT :: operator where "TOK_RSHIFT = tok_decl 12 1"
definition TOK_ADD :: operator where "TOK_ADD = tok_decl 13 0"
definition TOK_SUB :: operator where "TOK_SUB = tok_decl 13 1"
definition TOK_MUL :: operator where "TOK_MUL = tok_decl 14 0"
definition TOK_DIV :: operator where "TOK_DIV = tok_decl 14 1"
definition TOK_REM :: operator where "TOK_REM = tok_decl 14 2"
definition TOK_EXPONENT :: operator where "TOK_EXPONENT = tok_decl 15 1"
definition UNARYPREC :: operator where "UNARYPREC = 16"
definition TOK_BNOT :: operator where "TOK_BNOT = tok_decl UNARYPREC 0"
definition TOK_NOT :: operator where "TOK_NOT = tok_decl UNARYPREC 1"
definition TOK_UMINUS :: operator where "TOK_UMINUS = tok_decl (UNARYPREC + 1) 0"
definition TOK_UPLUS :: operator where "TOK_UPLUS = tok_decl (UNARYPREC + 1) 1"
definition PREC_PRE :: operator where "PREC_PRE = UNARYPREC + 2"
definition TOK_PRE_INC :: operator where "TOK_PRE_INC = tok_decl PREC_PRE 0"
definition TOK_PRE_DEC :: operator where "TOK_PRE_DEC = tok_decl PREC_PRE 1"
definition PREC_POST :: operator where "PREC_POST = UNARYPREC + 3"
definition TOK_POST_INC :: operator where "TOK_POST_INC = tok_decl PREC_POST 0"
definition TOK_POST_DEC :: operator where "TOK_POST_DEC = tok_decl PREC_POST 1"
definition SPEC_PREC :: operator where "SPEC_PREC = UNARYPREC + 4"
definition TOK_NUM :: operator where "TOK_NUM = tok_decl SPEC_PREC 0"
definition TOK_RPAREN :: operator where "TOK_RPAREN = tok_decl SPEC_PREC 1"

lemmas tok_defs = tok_decl_def TOK_LPAREN_def TOK_COMMA_def TOK_ASSIGN_def TOK_AND_ASSIGN_def
  TOK_OR_ASSIGN_def TOK_XOR_ASSIGN_def TOK_PLUS_ASSIGN_def TOK_MINUS_ASSIGN_def
  TOK_LSHIFT_ASSIGN_def TOK_RSHIFT_ASSIGN_def TOK_MUL_ASSIGN_def TOK_DIV_ASSIGN_def
  TOK_REM_ASSIGN_def TOK_CONDITIONAL_def TOK_CONDITIONAL_SEP_def TOK_OR_def TOK_AND_def
  TOK_BOR_def TOK_BXOR_def TOK_BAND_def TOK_EQ_def TOK_NE_def TOK_LT_def TOK_GT_def TOK_GE_def
  TOK_LE_def TOK_LSHIFT_def TOK_RSHIFT_def TOK_ADD_def TOK_SUB_def TOK_MUL_def TOK_DIV_def
  TOK_REM_def TOK_EXPONENT_def UNARYPREC_def TOK_BNOT_def TOK_NOT_def TOK_UMINUS_def
  TOK_UPLUS_def PREC_PRE_def TOK_PRE_INC_def TOK_PRE_DEC_def PREC_POST_def TOK_POST_INC_def
  TOK_POST_DEC_def SPEC_PREC_def TOK_NUM_def TOK_RPAREN_def PREC_def

definition convert_prec_is_assing :: "nat \<Rightarrow> nat" where
  "convert_prec_is_assing prec = (if prec = 3 then 2 else prec)"

definition tok_have_assign :: "operator \<Rightarrow> bool" where
  "tok_have_assign op =
     (let prec = convert_prec_is_assing (PREC op)
      in prec = PREC TOK_ASSIGN \<or> prec = PREC_PRE \<or> prec = PREC_POST)"

definition is_right_associativity :: "nat \<Rightarrow> bool" where
  "is_right_associativity prec =
     (prec = PREC TOK_ASSIGN \<or> prec = PREC TOK_EXPONENT \<or> prec = PREC TOK_CONDITIONAL)"

text \<open>The table of operators, longest first; the code scans it for the first one that matches.\<close>

definition op_tokens :: "(string \<times> operator) list" where
  "op_tokens = [
     (''<<='', TOK_LSHIFT_ASSIGN), (''>>='', TOK_RSHIFT_ASSIGN),
     (''<<'', TOK_LSHIFT), (''>>'', TOK_RSHIFT), (''||'', TOK_OR), (''&&'', TOK_AND),
     (''!='', TOK_NE), (''<='', TOK_LE), (''>='', TOK_GE), (''=='', TOK_EQ),
     (''|='', TOK_OR_ASSIGN), (''&='', TOK_AND_ASSIGN), (''*='', TOK_MUL_ASSIGN),
     (''/='', TOK_DIV_ASSIGN), (''%='', TOK_REM_ASSIGN), (''+='', TOK_PLUS_ASSIGN),
     (''-='', TOK_MINUS_ASSIGN), (''--'', TOK_POST_DEC), (''^='', TOK_XOR_ASSIGN),
     (''++'', TOK_POST_INC), (''**'', TOK_EXPONENT),
     (''!'', TOK_NOT), (''<'', TOK_LT), (''>'', TOK_GT), (''='', TOK_ASSIGN), (''|'', TOK_BOR),
     (''&'', TOK_BAND), (''*'', TOK_MUL), (''/'', TOK_DIV), (''%'', TOK_REM), (''+'', TOK_ADD),
     (''-'', TOK_SUB), (''^'', TOK_BXOR),
     (''~'', TOK_BNOT), ('','', TOK_COMMA), (''?'', TOK_CONDITIONAL),
     ('':'', TOK_CONDITIONAL_SEP), ('')'', TOK_RPAREN), (''('', TOK_LPAREN)]"

fun scan_op :: "(string \<times> operator) list \<Rightarrow> string \<Rightarrow> (operator \<times> string) option" where
  "scan_op [] s = None"
| "scan_op ((t, op) # ts) s =
     (if take (length t) s = t then Some (op, drop (length t) s) else scan_op ts s)"

section \<open>Numbers and names\<close>

definition arith_isspace :: "char \<Rightarrow> bool" where
  "arith_isspace c = (c = CHR '' '' \<or> c = CHR 0x0A \<or> c = CHR 0x09)"

definition is_name :: "char \<Rightarrow> bool" where
  "is_name c = (let n = (of_char c :: nat) in (65 \<le> n \<and> n \<le> 90) \<or> (97 \<le> n \<and> n \<le> 122) \<or> n = 95)"

definition is_in_name :: "char \<Rightarrow> bool" where
  "is_in_name c = (is_name c \<or> isdigit c)"

text \<open>\<open>endofname\<close> splits a text behind the name it starts with.\<close>

definition endofname :: "string \<Rightarrow> string \<times> string" where
  "endofname s =
     (case s of
        [] \<Rightarrow> ([], [])
      | c # r \<Rightarrow> if \<not> is_name c then ([], s)
                else (c # takeWhile is_in_name r, dropWhile is_in_name r))"

text \<open>
  \<open>strtoull(s, &s, 0)\<close> on a text that starts with a digit; \<open>None\<close> is \<open>ERANGE\<close>, for which the
  caller uses 0.
\<close>

definition strtoull0 :: "string \<Rightarrow> arith_t option \<times> string" where
  "strtoull0 s =
     (let (b, s1) =
        (if (take 2 s = ''0x'' \<or> take 2 s = ''0X'') \<and> length s > 2 \<and> is_digit_of 16 (s ! 2) then (16, drop 2 s)
         else if take 1 s = ''0'' then (8, s) else (10, s));
          digs = takeWhile (is_digit_of b) s1;
          v = digits_value b digs
      in (if v < 2 ^ 64 then Some (of_nat v) else None, drop (length digs) s1))"

section \<open>The number stack\<close>

text \<open>
  \<open>second\<close> is \<open>contidional_second_val\<close> when \<open>contidional_second_val_initialized\<close> is set.
\<close>

record v_n_t =
  val :: arith_t
  second :: "arith_t option"
  var :: "string option"

abbreviation num :: "arith_t \<Rightarrow> v_n_t" where
  "num v \<equiv> \<lparr>val = v, second = None, var = None\<rparr>"

text \<open>
  Results: \<open>None\<close> when the depth of nested variable lookups exceeds the fuel, otherwise an
  error code or a value, together with the variables. \<open>lookup\<close> below is the recursive call of
  \<open>arith\<close>, with the names being looked up (\<open>prev_chk_var_recursive\<close>).
\<close>

type_synonym 'a act = "((arith_err + 'a) \<times> env) option"
type_synonym arith_fun = "string list \<Rightarrow> env \<Rightarrow> string \<Rightarrow> arith_t act"

definition abind :: "'a act \<Rightarrow> ('a \<Rightarrow> env \<Rightarrow> 'b act) \<Rightarrow> 'b act" where
  "abind m f = (case m of None \<Rightarrow> None | Some (Inl e, env) \<Rightarrow> Some (Inl e, env) | Some (Inr x, env) \<Rightarrow> f x env)"

lemma abind_simps [simp]:
  "abind None f = None"
  "abind (Some (Inl e, env)) f = Some (Inl e, env)"
  "abind (Some (Inr x, env)) f = f x env"
  by (simp_all add: abind_def)

abbreviation ret :: "'a \<Rightarrow> env \<Rightarrow> 'a act" where "ret x env \<equiv> Some (Inr x, env)"
abbreviation err :: "arith_err \<Rightarrow> env \<Rightarrow> 'a act" where "err e env \<equiv> Some (Inl e, env)"

definition arith_lookup_val :: "arith_fun \<Rightarrow> string list \<Rightarrow> v_n_t \<Rightarrow> env \<Rightarrow> v_n_t act" where
  "arith_lookup_val arith chk t env =
     (case var t of
        None \<Rightarrow> ret t env
      | Some x \<Rightarrow>
          (case env x of
             None \<Rightarrow> ret (t\<lparr>val := 0\<rparr>) env
           | Some p \<Rightarrow>
               if x \<in> set chk then err E_loop env
               else abind (arith (x # chk) env p) (\<lambda>v. ret (t\<lparr>val := v\<rparr>))))"

section \<open>Applying an operator\<close>

definition of_bool_t :: "bool \<Rightarrow> arith_t" where "of_bool_t b = (if b then 1 else 0)"

definition unary_op :: "operator \<Rightarrow> arith_t \<Rightarrow> arith_t option" where
  "unary_op op rez =
     (if op = TOK_UMINUS then Some (rez * -1)
      else if op = TOK_NOT then Some (of_bool_t (rez = 0))
      else if op = TOK_BNOT then Some (NOT rez)
      else if op = TOK_POST_INC \<or> op = TOK_PRE_INC then Some (rez + 1)
      else if op = TOK_POST_DEC \<or> op = TOK_PRE_DEC then Some (rez - 1)
      else if op = TOK_UPLUS then Some rez
      else None)"

definition shift_ok :: "arith_t \<Rightarrow> bool" where "shift_ok n = (0 \<le> sint n \<and> sint n < 64)"

text \<open>The binary operators other than \<open>?\<close> and \<open>:\<close>; \<open>rez\<close> is the left operand.\<close>

definition binary_op :: "operator \<Rightarrow> arith_t \<Rightarrow> arith_t \<Rightarrow> arith_err + arith_t" where
  "binary_op op rez n =
     (if op = TOK_BOR \<or> op = TOK_OR_ASSIGN then Inr (rez OR n)
      else if op = TOK_OR then Inr (of_bool_t (n \<noteq> 0 \<or> rez \<noteq> 0))
      else if op = TOK_BAND \<or> op = TOK_AND_ASSIGN then Inr (rez AND n)
      else if op = TOK_BXOR \<or> op = TOK_XOR_ASSIGN then Inr (rez XOR n)
      else if op = TOK_AND then Inr (of_bool_t (rez \<noteq> 0 \<and> n \<noteq> 0))
      else if op = TOK_EQ then Inr (of_bool_t (rez = n))
      else if op = TOK_NE then Inr (of_bool_t (rez \<noteq> n))
      else if op = TOK_GE then Inr (of_bool_t (sint rez \<ge> sint n))
      else if op = TOK_RSHIFT \<or> op = TOK_RSHIFT_ASSIGN then
        (if shift_ok n then Inr (signed_drop_bit (unat n) rez) else Inl E_undefined)
      else if op = TOK_LSHIFT \<or> op = TOK_LSHIFT_ASSIGN then
        (if shift_ok n then Inr (push_bit (unat n) rez) else Inl E_undefined)
      else if op = TOK_GT then Inr (of_bool_t (sint rez > sint n))
      else if op = TOK_LT then Inr (of_bool_t (sint rez < sint n))
      else if op = TOK_LE then Inr (of_bool_t (sint rez \<le> sint n))
      else if op = TOK_MUL \<or> op = TOK_MUL_ASSIGN then Inr (rez * n)
      else if op = TOK_ADD \<or> op = TOK_PLUS_ASSIGN then Inr (rez + n)
      else if op = TOK_SUB \<or> op = TOK_MINUS_ASSIGN then Inr (rez - n)
      else if op = TOK_ASSIGN \<or> op = TOK_COMMA then Inr n
      else if op = TOK_EXPONENT then
        (if sint n < 0 then Inl E_exp else Inr (rez ^ unat n))
      else if n = 0 then Inl E_div0
      else if op = TOK_DIV \<or> op = TOK_DIV_ASSIGN then
        (if sint rez = - (2 ^ 63) \<and> sint n = -1 then Inl E_undefined
         else Inr (word_of_int (sint rez sdiv sint n)))
      else if op = TOK_REM \<or> op = TOK_REM_ASSIGN then
        (if sint rez = - (2 ^ 63) \<and> sint n = -1 then Inl E_undefined
         else Inr (word_of_int (sint rez smod sint n)))
      else Inr rez)"

text \<open>The end of \<open>arith_apply\<close>: an assigning operator stores its result in the variable.\<close>

definition arith_store :: "operator \<Rightarrow> arith_t \<Rightarrow> v_n_t \<Rightarrow> v_n_t list \<Rightarrow> env \<Rightarrow> v_n_t list act" where
  "arith_store op rez t below env =
     (if tok_have_assign op then
        (case var t of
           None \<Rightarrow> err E_syntax env
         | Some x \<Rightarrow>
             let env' = env(x \<mapsto> dec_int (sint rez));
                 rez' = (if op = TOK_POST_INC then rez - 1 else if op = TOK_POST_DEC then rez + 1 else rez)
             in ret (t\<lparr>val := rez', var := None\<rparr> # below) env')
      else ret (t\<lparr>val := rez, var := None\<rparr> # below) env)"

definition arith_apply :: "arith_fun \<Rightarrow> string list \<Rightarrow> operator \<Rightarrow> v_n_t list \<Rightarrow> env \<Rightarrow> v_n_t list act" where
  "arith_apply arith chk op nums env =
     (case nums of
        [] \<Rightarrow> err E_syntax env
      | t0 # below \<Rightarrow>
          abind (arith_lookup_val arith chk t0 env) (\<lambda>t env.
          case unary_op op (val t) of
            Some rez \<Rightarrow> arith_store op rez t below env
          | None \<Rightarrow>
              (case below of
                 [] \<Rightarrow> err E_syntax env
               | u0 # below' \<Rightarrow>
                   if op = TOK_CONDITIONAL \<and> second t = None then err E_syntax env
                   else if op \<noteq> TOK_CONDITIONAL \<and> second t \<noteq> None then err E_syntax env
                   else
                     abind (if op \<noteq> TOK_ASSIGN then arith_lookup_val arith chk u0 env else ret u0 env) (\<lambda>u env.
                     if op = TOK_CONDITIONAL_SEP then
                       (if below' = [] then err E_syntax env
                        else arith_store op (val u) (u\<lparr>second := Some (val t)\<rparr>) below' env)
                     else if op = TOK_CONDITIONAL then
                       (let u' = u\<lparr>second := map_option (\<lambda>_. the (second t)) (second u)\<rparr>
                        in arith_store op (if val u \<noteq> 0 then val t else the (second t)) u' below' env)
                     else
                       (case binary_op op (val u) (val t) of
                          Inl e \<Rightarrow> err e env
                        | Inr rez \<Rightarrow> arith_store op rez u below' env)))))"

section \<open>The main loop\<close>

text \<open>
  The inner loop: apply the operators on the stack that bind at least as tightly as the new one.
  The result says whether the new operator was the parenthesis that closes the topmost open one.
\<close>

fun apply_ops :: "arith_fun \<Rightarrow> string list \<Rightarrow> operator \<Rightarrow> operator list \<Rightarrow> v_n_t list \<Rightarrow> env
    \<Rightarrow> (bool \<times> operator list \<times> v_n_t list) act" where
  "apply_ops arith chk op [] nums env =
     (if op = TOK_RPAREN then err E_syntax env else ret (False, [], nums) env)"
| "apply_ops arith chk op (s # stack) nums env =
     (let prec = convert_prec_is_assing (PREC op); prev_prec = convert_prec_is_assing (PREC s) in
      if op = TOK_RPAREN \<and> s = TOK_LPAREN then ret (True, stack, nums) env
      else if op \<noteq> TOK_RPAREN \<and> prev_prec < prec then ret (False, s # stack, nums) env
      else if op \<noteq> TOK_RPAREN \<and> prev_prec = prec \<and> is_right_associativity prec then ret (False, s # stack, nums) env
      else abind (arith_apply arith chk s nums env) (\<lambda>nums'. apply_ops arith chk op stack nums'))"

definition fix_op :: "operator \<Rightarrow> operator \<Rightarrow> operator" where
  "fix_op lasttok op =
     (if lasttok \<noteq> TOK_NUM then
        (if op = TOK_ADD then TOK_UPLUS
         else if op = TOK_SUB then TOK_UMINUS
         else if op = TOK_POST_INC then TOK_PRE_INC
         else if op = TOK_POST_DEC then TOK_PRE_DEC
         else op)
      else op)"

lemma scan_op_shorter: "scan_op ts s = Some (op, r) \<Longrightarrow> \<forall>t \<in> fst ` set ts. t \<noteq> [] \<Longrightarrow> length r < length s"
proof (induction ts s rule: scan_op.induct)
  case (2 t op' ts s)
  then show ?case by (cases s) (auto split: if_splits)
qed simp

lemma op_tokens_nonempty: "\<forall>t \<in> fst ` set op_tokens. t \<noteq> []"
  by (simp add: op_tokens_def)

lemma endofname_shorter: "endofname s = (n, r) \<Longrightarrow> n \<noteq> [] \<Longrightarrow> length r < length s"
  by (auto simp: endofname_def split: list.splits if_splits intro: le_imp_less_Suc length_dropWhile_le)

lemma takeWhile_digits: "is_digit_of b c \<Longrightarrow> takeWhile (is_digit_of b) (c # s) \<noteq> []"
  by simp

lemma strtoull0_shorter:
  assumes "strtoull0 (c # s) = (v, r)" "isdigit c"
  shows "length r < length (c # s)"
proof -
  have dig: "is_digit_of 10 c" "c = CHR ''0'' \<Longrightarrow> is_digit_of 8 c"
    using assms(2) by (auto simp: isdigit_def is_digit_of_def hex_val_def Let_def)
  then show ?thesis
    using assms(1)
    by (auto simp: strtoull0_def Let_def split: if_splits)
qed

lemma scan_op_tokens_shorter: "scan_op op_tokens s = Some (op, r) \<Longrightarrow> length r < length s"
  using scan_op_shorter [OF _ op_tokens_nonempty] .

function arith_loop :: "arith_fun \<Rightarrow> string list \<Rightarrow> nat \<Rightarrow> bool \<Rightarrow> bool \<Rightarrow> string \<Rightarrow> operator
    \<Rightarrow> operator list \<Rightarrow> v_n_t list \<Rightarrow> env \<Rightarrow> arith_t act" where
  "arith_loop arith chk datasizes fin fresh expr lasttok stack nums env =
     (case expr of
        [] \<Rightarrow>
          if fresh then ret 0 env
          else if \<not> fin then arith_loop arith chk datasizes True fresh '')'' lasttok stack nums env
          else (case nums of
            [t] \<Rightarrow> abind (arith_lookup_val arith chk t env) (\<lambda>t. ret (val t))
          | _ \<Rightarrow> err E_syntax env)
      | c # r \<Rightarrow>
          if arith_isspace c then arith_loop arith chk datasizes fin fresh r lasttok stack nums env
          else
            let (name, p) = endofname expr in
            if name \<noteq> [] then
              (if length nums \<ge> datasizes div 2 then err E_numstack env
               else arith_loop arith chk datasizes fin False p TOK_NUM stack
                 (\<lparr>val = 0, second = None, var = Some name\<rparr> # nums) env)
            else if isdigit c then
              (let (v, p) = strtoull0 expr in
               if length nums \<ge> datasizes div 2 then err E_numstack env
               else arith_loop arith chk datasizes fin False p TOK_NUM stack
                 (num (case v of None \<Rightarrow> 0 | Some w \<Rightarrow> w) # nums) env)
            else
              (case scan_op op_tokens expr of
                 None \<Rightarrow> err E_syntax env
               | Some (op0, p) \<Rightarrow>
                   let lasttok1 = (if lasttok = TOK_POST_INC \<or> lasttok = TOK_POST_DEC then TOK_NUM else lasttok);
                       op = fix_op lasttok1 op0;
                       prec = PREC op
                   in if (0 < prec \<and> prec < UNARYPREC) \<or> prec = SPEC_PREC then
                        (if lasttok1 \<noteq> TOK_NUM then err E_syntax env
                         else abind (apply_ops arith chk op stack nums env) (\<lambda>(closed, stack', nums') env'.
                           if closed then arith_loop arith chk datasizes fin False p TOK_NUM stack' nums' env'
                           else if length stack' \<ge> datasizes then err E_opstack env'
                           else arith_loop arith chk datasizes fin False p op (op # stack') nums' env'))
                      else if length stack \<ge> datasizes then err E_opstack env
                      else arith_loop arith chk datasizes fin False p op (op # stack) nums env))"
  by pat_completeness auto

termination
  by (relation "measure (\<lambda>(arith, chk, datasizes, fin, fresh, expr, lasttok, stack, nums, env).
       length expr + (if fin then 0 else 2))")
    (auto dest: scan_op_tokens_shorter endofname_shorter [OF sym] strtoull0_shorter [OF sym])

declare arith_loop.simps [simp del]

text \<open>
  \<open>arith\<close>; the fuel bounds the depth of nested variable lookups.
\<close>

fun arith :: "nat \<Rightarrow> arith_fun" where
  "arith 0 chk env expr = None"
| "arith (Suc k) chk env expr =
     arith_loop (arith k) chk (length expr + 2) False True expr TOK_LPAREN [TOK_LPAREN] [] env"

section \<open>Steps of the main loop\<close>

lemma abind_assoc: "abind (abind m f) g = abind m (\<lambda>x env. abind (f x env) g)"
  by (auto simp: abind_def split: option.splits sum.splits prod.splits)

lemma abind_case: "abind (case r of Inl e \<Rightarrow> err e env | Inr v \<Rightarrow> ret v env) f = (case r of Inl e \<Rightarrow> err e env | Inr v \<Rightarrow> f v env)"
  by (simp split: sum.splits)

definition blanks :: "string \<Rightarrow> bool" where
  "blanks ws = list_all arith_isspace ws"

definition op_char :: "char \<Rightarrow> bool" where
  "op_char c \<longleftrightarrow> \<not> arith_isspace c \<and> \<not> is_name c \<and> \<not> isdigit c"

definition stops :: "string \<Rightarrow> bool" where
  "stops r \<longleftrightarrow> (case r of [] \<Rightarrow> True | c # _ \<Rightarrow> \<not> is_in_name c)"

lemma loop_space:
  "arith_isspace c \<Longrightarrow> arith_loop A chk ds fin fr (c # s) lt st ns env = arith_loop A chk ds fin fr s lt st ns env"
  by (subst arith_loop.simps) simp

lemma loop_blanks:
  "blanks ws \<Longrightarrow> arith_loop A chk ds fin fr (ws @ s) lt st ns env = arith_loop A chk ds fin fr s lt st ns env"
  by (induction ws) (simp_all add: blanks_def loop_space)

lemma takeWhile_stops: "list_all P n \<Longrightarrow> (\<And>c. P c \<Longrightarrow> is_in_name c) \<Longrightarrow> stops r \<Longrightarrow> takeWhile P (n @ r) = n"
  by (cases r) (auto simp: stops_def list_all_iff takeWhile_eq_Nil_iff)

definition name_ok :: "string \<Rightarrow> bool" where
  "name_ok n = (case n of [] \<Rightarrow> False | c # r \<Rightarrow> is_name c \<and> list_all is_in_name r)"

abbreviation vitem :: "string \<Rightarrow> v_n_t" where
  "vitem x \<equiv> \<lparr>val = 0, second = None, var = Some x\<rparr>"

lemma char_classes:
  "is_name c \<Longrightarrow> \<not> arith_isspace c" "isdigit c \<Longrightarrow> \<not> arith_isspace c" "isdigit c \<Longrightarrow> \<not> is_name c"
  by (auto simp: is_name_def isdigit_def arith_isspace_def Let_def)

lemma endofname_name:
  assumes "name_ok n" "stops r"
  shows "endofname (n @ r) = (n, r)"
proof -
  obtain c m where n: "n = c # m" "is_name c" "list_all is_in_name m"
    using assms(1) by (cases n) (auto simp: name_ok_def)
  have "takeWhile is_in_name (m @ r) = m" using takeWhile_stops [OF n(3) _ assms(2)] by simp
  moreover have "dropWhile is_in_name (m @ r) = r"
    using calculation by (metis append_same_eq takeWhile_dropWhile_id same_append_eq)
  ultimately show ?thesis using n by (simp add: endofname_def)
qed

lemma loop_name:
  assumes "name_ok n" "stops r" "length ns < ds div 2"
  shows "arith_loop A chk ds fin fr (n @ r) lt st ns env = arith_loop A chk ds fin False r TOK_NUM st (vitem n # ns) env"
proof -
  obtain c m where n: "n = c # m" "is_name c" using assms(1) by (cases n) (auto simp: name_ok_def)
  then show ?thesis
    using assms(3) endofname_name [OF assms(1,2)] char_classes(1) [of c]
    by (subst arith_loop.simps) simp
qed

section \<open>Decimal numbers\<close>

lemma digit_in_name: "is_digit_of 10 c \<Longrightarrow> is_in_name c" "is_digit_of 10 c \<longleftrightarrow> isdigit c"
  by (auto simp: is_digit_of_def hex_val_def is_in_name_def isdigit_def Let_def split: if_splits)

lemma strtoull0_dec:
  assumes "stops r"
  shows "strtoull0 (dec_nat n @ r) = (if n < 2 ^ 64 then Some (of_nat n) else None, r)"
proof (cases "n = 0")
  case True
  have "\<not> is_digit_of 8 c" if "\<not> is_in_name c" for c
    using that by (auto simp: is_digit_of_def hex_val_def is_in_name_def isdigit_def Let_def split: if_splits)
  moreover have "\<not> is_in_name (CHR ''x'') \<Longrightarrow> False" "\<not> is_in_name (CHR ''X'') \<Longrightarrow> False"
    by (auto simp: is_in_name_def is_name_def)
  ultimately show ?thesis
    using assms True
    by (cases r) (auto simp: stops_def dec_nat_0 strtoull0_def Let_def is_digit_of_def hex_val_def digits_value_def)
next
  case False
  then obtain c m where d: "dec_nat n = c # m" "c \<noteq> CHR ''0''"
    using dec_nat_nonzero [of n] by (cases "dec_nat n") auto
  have "takeWhile (is_digit_of 10) (dec_nat n @ r) = dec_nat n"
    using takeWhile_stops [OF dec_nat_digits digit_in_name(1) assms] by simp
  then show ?thesis
    using d digits_value_dec_nat [of n] by (simp add: strtoull0_def Let_def)
qed

lemma loop_num:
  assumes "stops r" "length ns < ds div 2"
  shows "arith_loop A chk ds fin fr (dec_nat n @ r) lt st ns env
    = arith_loop A chk ds fin False r TOK_NUM st (num (if n < 2 ^ 64 then of_nat n else 0) # ns) env"
proof -
  obtain c m where d: "dec_nat n = c # m" "isdigit c"
    using dec_nat_digits [of n] dec_nat_nonempty [of n]
    by (cases "dec_nat n") (auto simp: digit_in_name)
  then have "endofname (dec_nat n @ r) = ([], dec_nat n @ r)"
    using char_classes(3) [of c] by (simp add: endofname_def)
  then show ?thesis
    using d assms(2) strtoull0_dec [OF assms(1), of n] char_classes(2) [of c]
    by (subst arith_loop.simps) simp
qed

section \<open>Reading an operator\<close>

text \<open>\<open>lexes t op c\<close>: the operator text \<open>t\<close> in front of the character \<open>c\<close> is read as \<open>op\<close>.\<close>

definition lexes :: "string \<Rightarrow> operator \<Rightarrow> char \<Rightarrow> bool" where
  "lexes t op c \<longleftrightarrow> scan_op op_tokens t = Some (op, [])
     \<and> list_all (\<lambda>(t', _). take (Suc (length t)) t' \<noteq> t @ [c]) op_tokens"

lemma scan_op_lexes:
  assumes "scan_op ts t = Some (op, [])" "list_all (\<lambda>(t', _). take (Suc (length t)) t' \<noteq> t @ [c]) ts"
  shows "scan_op ts (t @ c # r) = Some (op, c # r)"
  using assms
proof (induction ts)
  case (Cons x ts)
  obtain t' op' where x: "x = (t', op')" by (cases x)
  show ?case
  proof (cases "length t' \<le> length t")
    case True
    then show ?thesis using Cons x by (auto split: if_splits)
  next
    case False
    then have "take (Suc (length t)) (take (length t') (t @ c # r)) = t @ [c]"
      by (simp add: min_def)
    moreover have "take (Suc (length t)) t' \<noteq> t @ [c]" using Cons.prems(2) x by simp
    ultimately have "take (length t') (t @ c # r) \<noteq> t'" by metis
    moreover have "take (length t') t \<noteq> t'" using False by auto
    ultimately show ?thesis using Cons x by simp
  qed
qed simp

lemma op_tokens_op_char: "list_all (\<lambda>(t, _). t \<noteq> [] \<and> op_char (hd t)) op_tokens"
  by (simp add: op_tokens_def op_char_def arith_isspace_def is_name_def isdigit_def)

lemma scan_op_char:
  "scan_op ts t = Some (op, r) \<Longrightarrow> list_all (\<lambda>(t, _). t \<noteq> [] \<and> op_char (hd t)) ts \<Longrightarrow> t \<noteq> [] \<and> op_char (hd t)"
proof (induction ts t rule: scan_op.induct)
  case (2 t op' ts s)
  then show ?case by (cases t; cases s) (auto split: if_splits)
qed simp

lemma lexes_op_char: "lexes t op c \<Longrightarrow> \<exists>d t'. t = d # t' \<and> op_char d"
  using scan_op_char [OF _ op_tokens_op_char, of t op "[]"] by (cases t) (auto simp: lexes_def)

text \<open>What the loop does with an operator once it is read.\<close>

definition push_op :: "arith_fun \<Rightarrow> string list \<Rightarrow> nat \<Rightarrow> bool \<Rightarrow> string \<Rightarrow> operator \<Rightarrow> operator
    \<Rightarrow> operator list \<Rightarrow> v_n_t list \<Rightarrow> env \<Rightarrow> arith_t act" where
  "push_op A chk ds fin p lt op0 st ns env =
     (let lt1 = (if lt = TOK_POST_INC \<or> lt = TOK_POST_DEC then TOK_NUM else lt); op = fix_op lt1 op0 in
      if (0 < PREC op \<and> PREC op < UNARYPREC) \<or> PREC op = SPEC_PREC then
        (if lt1 \<noteq> TOK_NUM then err E_syntax env
         else abind (apply_ops A chk op st ns env) (\<lambda>(closed, st', ns') env'.
           if closed then arith_loop A chk ds fin False p TOK_NUM st' ns' env'
           else if length st' \<ge> ds then err E_opstack env'
           else arith_loop A chk ds fin False p op (op # st') ns' env'))
      else if length st \<ge> ds then err E_opstack env
      else arith_loop A chk ds fin False p op (op # st) ns env)"

lemma loop_Cons:
  "arith_loop A chk ds fin fr (c # r) lt st ns env =
     (if arith_isspace c then arith_loop A chk ds fin fr r lt st ns env
      else case endofname (c # r) of (name, p) \<Rightarrow>
        if name \<noteq> [] then
          (if length ns \<ge> ds div 2 then err E_numstack env
           else arith_loop A chk ds fin False p TOK_NUM st (vitem name # ns) env)
        else if isdigit c then
          (case strtoull0 (c # r) of (v, p) \<Rightarrow>
           if length ns \<ge> ds div 2 then err E_numstack env
           else arith_loop A chk ds fin False p TOK_NUM st (num (case v of None \<Rightarrow> 0 | Some w \<Rightarrow> w) # ns) env)
        else (case scan_op op_tokens (c # r) of
                None \<Rightarrow> err E_syntax env
              | Some (op0, p) \<Rightarrow> push_op A chk ds fin p lt op0 st ns env))"
  by (subst arith_loop.simps) (simp only: list.case Let_def push_op_def)

lemma loop_op:
  assumes "scan_op op_tokens (d # s) = Some (op0, p)" "op_char d"
  shows "arith_loop A chk ds fin fr (d # s) lt st ns env = push_op A chk ds fin p lt op0 st ns env"
  using assms by (subst arith_loop.simps) (simp add: push_op_def op_char_def endofname_def Let_def)

lemma loop_lexes:
  assumes "lexes t op0 c"
  shows "arith_loop A chk ds fin fr (t @ c # r) lt st ns env = push_op A chk ds fin (c # r) lt op0 st ns env"
proof -
  obtain d t' where t: "t = d # t'" "op_char d" using lexes_op_char [OF assms] by blast
  have "scan_op op_tokens (t @ c # r) = Some (op0, c # r)"
    using assms scan_op_lexes unfolding lexes_def by blast
  with t show ?thesis using loop_op [of d "t' @ c # r"] by simp
qed

lemma scan_rparen: "scan_op op_tokens (CHR '')'' # r) = Some (TOK_RPAREN, r)"
  by (simp add: op_tokens_def)

lemma scan_lparen: "scan_op op_tokens (CHR ''('' # r) = Some (TOK_LPAREN, r)"
  by (simp add: op_tokens_def)

section \<open>The grammar of arithmetic expressions and its meaning\<close>

text \<open>
  Concrete syntax trees: an operator carries its text and the blanks around it. \<open>expr_text\<close>
  prints a tree, \<open>eval\<close> gives its meaning and \<open>wf_expr\<close> says that the tree is the one the
  usual rules of precedence and associativity give its text. In \<open>a ? b : c\<close> the part \<open>b\<close> may not
  be an unparenthesised conditional.
\<close>

datatype expr =
    Num nat
  | Var string
  | Par string expr string
  | Unary string operator string expr
  | Binary expr string string operator string expr
  | Cond expr string string expr string string expr

fun expr_text :: "expr \<Rightarrow> string" where
  "expr_text (Num n) = dec_nat n"
| "expr_text (Var x) = x"
| "expr_text (Par w1 e w2) = ''('' @ w1 @ expr_text e @ w2 @ '')''"
| "expr_text (Unary t op w e) = t @ w @ expr_text e"
| "expr_text (Binary a w1 t op w2 b) = expr_text a @ w1 @ t @ w2 @ expr_text b"
| "expr_text (Cond a w1 w2 b w3 w4 c) =
     expr_text a @ w1 @ ''?'' @ w2 @ expr_text b @ w3 @ '':'' @ w4 @ expr_text c"

fun eval :: "(string \<Rightarrow> arith_t) \<Rightarrow> expr \<Rightarrow> arith_err + arith_t" where
  "eval \<rho> (Num n) = Inr (if n < 2 ^ 64 then of_nat n else 0)"
| "eval \<rho> (Var x) = Inr (\<rho> x)"
| "eval \<rho> (Par w1 e w2) = eval \<rho> e"
| "eval \<rho> (Unary t op w e) = and_then (eval \<rho> e) (\<lambda>v. Inr (the (unary_op op v)))"
| "eval \<rho> (Binary a w1 t op w2 b) = and_then (eval \<rho> a) (\<lambda>x. and_then (eval \<rho> b) (\<lambda>y. binary_op op x y))"
| "eval \<rho> (Cond a w1 w2 b w3 w4 c) =
     and_then (eval \<rho> a) (\<lambda>x. and_then (eval \<rho> b) (\<lambda>y. and_then (eval \<rho> c) (\<lambda>z. Inr (if x \<noteq> 0 then y else z))))"

fun lvl :: "expr \<Rightarrow> nat" where
  "lvl (Unary t op w e) = 16"
| "lvl (Binary a w1 t op w2 b) = PREC op"
| "lvl (Cond a w1 w2 b w3 w4 c) = 4"
| "lvl e = 20"

definition is_binop :: "operator \<Rightarrow> bool" where
  "is_binop op \<longleftrightarrow> op \<in> {TOK_COMMA, TOK_OR, TOK_AND, TOK_BOR, TOK_BXOR, TOK_BAND, TOK_EQ, TOK_NE, TOK_LT, TOK_GT,
     TOK_GE, TOK_LE, TOK_LSHIFT, TOK_RSHIFT, TOK_ADD, TOK_SUB, TOK_MUL, TOK_DIV, TOK_REM, TOK_EXPONENT}"

definition is_unop :: "operator \<Rightarrow> bool" where
  "is_unop op \<longleftrightarrow> op \<in> {TOK_UMINUS, TOK_UPLUS, TOK_NOT, TOK_BNOT}"

fun wf_expr :: "expr \<Rightarrow> bool" where
  "wf_expr (Num n) = True"
| "wf_expr (Var x) = name_ok x"
| "wf_expr (Par w1 e w2) = (blanks w1 \<and> blanks w2 \<and> wf_expr e)"
| "wf_expr (Unary t op w e) =
     (blanks w \<and> wf_expr e \<and> 16 \<le> lvl e \<and> is_unop op
      \<and> (\<exists>op0 \<in> {op, TOK_SUB, TOK_ADD}. fix_op TOK_LPAREN op0 = op \<and> lexes t op0 (hd (w @ expr_text e))))"
| "wf_expr (Binary a w1 t op w2 b) =
     (blanks w1 \<and> blanks w2 \<and> wf_expr a \<and> wf_expr b \<and> is_binop op \<and> lexes t op (hd (w2 @ expr_text b))
      \<and> (if is_right_associativity (PREC op) then PREC op < lvl a \<and> PREC op \<le> lvl b
         else PREC op \<le> lvl a \<and> PREC op < lvl b))"
| "wf_expr (Cond a w1 w2 b w3 w4 c) =
     (blanks w1 \<and> blanks w2 \<and> blanks w3 \<and> blanks w4 \<and> wf_expr a \<and> wf_expr b \<and> wf_expr c
      \<and> 4 < lvl a \<and> 4 < lvl b \<and> 4 \<le> lvl c)"

fun vars :: "expr \<Rightarrow> string list" where
  "vars (Num n) = []"
| "vars (Var x) = [x]"
| "vars (Par w1 e w2) = vars e"
| "vars (Unary t op w e) = vars e"
| "vars (Binary a w1 t op w2 b) = vars a @ vars b"
| "vars (Cond a w1 w2 b w3 w4 c) = vars a @ vars b @ vars c"

fun nums_of :: "expr \<Rightarrow> nat" where
  "nums_of (Num n) = 1"
| "nums_of (Var x) = 1"
| "nums_of (Par w1 e w2) = nums_of e"
| "nums_of (Unary t op w e) = nums_of e"
| "nums_of (Binary a w1 t op w2 b) = nums_of a + nums_of b"
| "nums_of (Cond a w1 w2 b w3 w4 c) = nums_of a + nums_of b + nums_of c"

text \<open>The entry an expression leaves on the number stack: a variable is looked up only when it is used.\<close>

fun item :: "(string \<Rightarrow> arith_t) \<Rightarrow> expr \<Rightarrow> v_n_t" where
  "item \<rho> (Var x) = vitem x"
| "item \<rho> (Par w1 e w2) = item \<rho> e"
| "item \<rho> e = (case eval \<rho> e of Inl _ \<Rightarrow> num 0 | Inr v \<Rightarrow> num v)"

definition looks_up :: "arith_fun \<Rightarrow> string list \<Rightarrow> env \<Rightarrow> (string \<Rightarrow> arith_t) \<Rightarrow> string \<Rightarrow> bool" where
  "looks_up A chk env \<rho> x \<longleftrightarrow> arith_lookup_val A chk (vitem x) env = ret ((vitem x)\<lparr>val := \<rho> x\<rparr>) env"

lemma lookup_item:
  assumes "eval \<rho> e = Inr v" "list_all (looks_up A chk env \<rho>) (vars e)"
  shows "arith_lookup_val A chk (item \<rho> e) env = ret ((item \<rho> e)\<lparr>val := v\<rparr>) env"
  using assms
  by (induction e) (auto simp: looks_up_def arith_lookup_val_def)

lemma item_second [simp]: "second (item \<rho> e) = None"
  by (induction e) (auto split: sum.splits)

lemma item_clear [simp]: "eval \<rho> e = Inr v \<Longrightarrow> (item \<rho> e)\<lparr>val := w, var := None\<rparr> = num w"
  by (induction e) (auto split: sum.splits)

lemma item_set_second: "(item \<rho> e)\<lparr>val := w, second := s, var := None\<rparr> = \<lparr>val = w, second = s, var = None\<rparr>"
  by (induction e) (auto split: sum.splits)

lemma is_binop_not: "is_binop op \<Longrightarrow> \<not> tok_have_assign op \<and> unary_op op v = None
    \<and> op \<noteq> TOK_CONDITIONAL \<and> op \<noteq> TOK_CONDITIONAL_SEP \<and> op \<noteq> TOK_ASSIGN \<and> op \<noteq> TOK_LPAREN \<and> op \<noteq> TOK_RPAREN"
  unfolding is_binop_def
  by (auto simp: tok_have_assign_def unary_op_def convert_prec_is_assing_def tok_defs Let_def)

lemma apply_bin:
  assumes "is_binop op" "eval \<rho> a = Inr x" "eval \<rho> b = Inr y"
    and "list_all (looks_up A chk env \<rho>) (vars a)" "list_all (looks_up A chk env \<rho>) (vars b)"
  shows "arith_apply A chk op (item \<rho> b # item \<rho> a # ns) env
    = (case binary_op op x y of Inl e \<Rightarrow> err e env | Inr v \<Rightarrow> ret (num v # ns) env)"
  using is_binop_not [OF assms(1)] lookup_item [OF assms(2,4)] lookup_item [OF assms(3,5)] assms(2,3)
  by (simp add: arith_apply_def arith_store_def split: sum.splits)

lemma apply_un:
  assumes "is_unop op" "eval \<rho> a = Inr x" "list_all (looks_up A chk env \<rho>) (vars a)"
  shows "arith_apply A chk op (item \<rho> a # ns) env = ret (num (the (unary_op op x)) # ns) env"
proof -
  have "\<not> tok_have_assign op" "unary_op op x \<noteq> None"
    using assms(1) unfolding is_unop_def
    by (auto simp: tok_have_assign_def unary_op_def convert_prec_is_assing_def tok_defs Let_def)
  then show ?thesis
    using lookup_item [OF assms(2,3)] assms(2) by (auto simp: arith_apply_def arith_store_def)
qed

section \<open>The evaluator follows the grammar\<close>

abbreviation prec_of :: "operator \<Rightarrow> nat" where
  "prec_of op \<equiv> convert_prec_is_assing (PREC op)"

text \<open>
  \<open>closes q r\<close>: with a number just read and \<open>r\<close> to come, the loop first applies every pending
  operator that binds at least as tightly as \<open>q\<close>.
\<close>

definition closes :: "arith_fun \<Rightarrow> string list \<Rightarrow> nat \<Rightarrow> bool \<Rightarrow> nat \<Rightarrow> string \<Rightarrow> bool" where
  "closes A chk ds fin q r \<longleftrightarrow> (\<forall>s st ns env. q \<le> prec_of s \<and> s \<noteq> TOK_LPAREN \<longrightarrow>
     arith_loop A chk ds fin False r TOK_NUM (s # st) ns env
     = abind (arith_apply A chk s ns env) (arith_loop A chk ds fin False r TOK_NUM st))"

lemma closes_mono: "closes A chk ds fin q r \<Longrightarrow> q \<le> q' \<Longrightarrow> closes A chk ds fin q' r"
  by (auto simp: closes_def)

lemma closes_blanks: "blanks w \<Longrightarrow> closes A chk ds fin q r \<Longrightarrow> closes A chk ds fin q (w @ r)"
proof -
  assume "blanks w" "closes A chk ds fin q r"
  moreover have "arith_loop A chk ds fin False (w @ r) = arith_loop A chk ds fin False r"
    using \<open>blanks w\<close> by (intro ext) (rule loop_blanks)
  ultimately show ?thesis unfolding closes_def by presburger
qed

lemma fix_op_num [simp]: "fix_op TOK_NUM op = op"
  by (simp add: fix_op_def)

lemma tok_num_not_post [simp]: "TOK_NUM \<noteq> TOK_POST_INC" "TOK_NUM \<noteq> TOK_POST_DEC"
  by (simp_all add: tok_defs)

lemma push_op_pops:
  assumes "(0 < PREC op \<and> PREC op < UNARYPREC) \<or> PREC op = SPEC_PREC"
    and "\<And>ns env. apply_ops A chk op (s # st) ns env = abind (arith_apply A chk s ns env) (apply_ops A chk op st)"
  shows "push_op A chk ds fin p TOK_NUM op (s # st) ns env
    = abind (arith_apply A chk s ns env) (push_op A chk ds fin p TOK_NUM op st)"
  using assms(1) unfolding push_op_def Let_def
  by (simp add: assms(2) abind_assoc del: apply_ops.simps)

lemma rparen_char: "op_char (CHR '')'')" "op_char (CHR ''('')" "op_char (CHR ''?'')" "op_char (CHR '':'')"
  by (simp_all add: op_char_def arith_isspace_def is_name_def isdigit_def)

lemma apply_ops_rparen:
  "s \<noteq> TOK_LPAREN \<Longrightarrow> apply_ops A chk TOK_RPAREN (s # st) ns env = abind (arith_apply A chk s ns env) (apply_ops A chk TOK_RPAREN st)"
  by (simp add: Let_def)

lemma closes_rparen: "closes A chk ds fin q (CHR '')'' # r)"
  unfolding closes_def loop_op [OF scan_rparen rparen_char(1)]
  by (intro allI impI, rule push_op_pops) (auto simp: tok_defs Let_def)

lemma closes_end: "closes A chk ds False q []"
proof -
  have "arith_loop A chk ds False False [] lt st ns env = arith_loop A chk ds True False '')'' lt st ns env" for lt st ns env
    by (subst arith_loop.simps) simp
  then have "arith_loop A chk ds False False [] = arith_loop A chk ds True False '')''" by (intro ext)
  then show ?thesis using closes_rparen [of A chk ds True q "[]"] unfolding closes_def by presburger
qed

lemma closes_op:
  assumes "lexes t op c" "0 < PREC op" "PREC op < 16"
    and "prec_of op < q \<or> (prec_of op = q \<and> \<not> is_right_associativity q)"
  shows "closes A chk ds fin q (t @ c # r)"
  unfolding closes_def loop_lexes [OF assms(1)]
proof (intro allI impI, rule push_op_pops)
  show "(0 < PREC op \<and> PREC op < UNARYPREC) \<or> PREC op = SPEC_PREC"
    using assms by (simp add: UNARYPREC_def)
  fix s st ns env ns' env'
  assume s: "q \<le> prec_of s \<and> s \<noteq> TOK_LPAREN"
  have "op \<noteq> TOK_RPAREN" using assms(3) by (auto simp: tok_defs)
  then show "apply_ops A chk op (s # st) ns' env' = abind (arith_apply A chk s ns' env') (apply_ops A chk op st)"
    using assms(4) s by (auto simp: Let_def)
qed

text \<open>An operator that binds more tightly than the one below it is pushed.\<close>

definition holds :: "operator list \<Rightarrow> nat \<Rightarrow> bool" where
  "holds st q \<longleftrightarrow> (case st of [] \<Rightarrow> True
     | s # _ \<Rightarrow> prec_of s < q \<or> (prec_of s = q \<and> is_right_associativity q))"

lemma push_binary:
  assumes "holds st (prec_of op)" "0 < PREC op" "PREC op < 16" "length st < ds"
  shows "push_op A chk ds fin p TOK_NUM op st ns env = arith_loop A chk ds fin False p op (op # st) ns env"
proof -
  have "op \<noteq> TOK_RPAREN" using assms(3) by (auto simp: tok_defs)
  then have "apply_ops A chk op st ns env = ret (False, st, ns) env"
    using assms(1) by (cases st) (auto simp: holds_def Let_def)
  then show ?thesis using assms by (simp add: push_op_def Let_def UNARYPREC_def)
qed

definition opens :: "operator \<Rightarrow> bool" where
  "opens lt \<longleftrightarrow> lt \<noteq> TOK_NUM \<and> lt \<noteq> TOK_POST_INC \<and> lt \<noteq> TOK_POST_DEC"

lemma push_prefix:
  assumes "opens lt" "fix_op TOK_LPAREN op0 = op" "PREC op = 0 \<or> PREC op = 16 \<or> PREC op = 17" "length st < ds"
  shows "push_op A chk ds fin p lt op0 st ns env = arith_loop A chk ds fin False p op (op # st) ns env"
proof -
  have "fix_op lt op0 = op" using assms(1,2) by (auto simp: fix_op_def opens_def tok_defs)
  then show ?thesis using assms by (auto simp: push_op_def Let_def UNARYPREC_def SPEC_PREC_def opens_def)
qed

lemma expr_text_nonempty: "wf_expr e \<Longrightarrow> expr_text e \<noteq> []"
  by (induction e) (auto simp: dec_nat_nonempty name_ok_def)

lemma is_binop_prec:
  assumes "is_binop op"
  shows "0 < PREC op" "PREC op < 16" "prec_of op = PREC op" "PREC op \<noteq> 4"
  using assms unfolding is_binop_def by (auto simp: tok_defs convert_prec_is_assing_def)

lemma is_unop_prec: "is_unop op \<Longrightarrow> PREC op = 16 \<or> PREC op = 17"
  unfolding is_unop_def by (auto simp: tok_defs)

lemma is_unop_opens: "is_unop op \<Longrightarrow> opens op \<and> 16 \<le> prec_of op \<and> op \<noteq> TOK_LPAREN"
  unfolding is_unop_def opens_def by (auto simp: tok_defs convert_prec_is_assing_def)

lemma is_binop_opens: "is_binop op \<Longrightarrow> opens op"
  unfolding is_binop_def opens_def by (auto simp: tok_defs)

lemma stops_blanks: "blanks w \<Longrightarrow> stops r \<Longrightarrow> stops (w @ r)"
  by (cases w) (auto simp: blanks_def stops_def arith_isspace_def is_in_name_def is_name_def isdigit_def Let_def)

lemma stops_op_char: "op_char c \<Longrightarrow> stops (c # r)"
  by (simp add: stops_def op_char_def is_in_name_def)

lemma stops_lexes: "lexes t op c \<Longrightarrow> stops (t @ r)"
  using lexes_op_char stops_op_char by fastforce

lemma hd_Cons: "xs \<noteq> [] \<Longrightarrow> xs @ r = hd xs # tl xs @ r"
  by (cases xs) auto

lemma lexes_hd:
  assumes "lexes t op (hd (w @ expr_text e))" "wf_expr e"
  shows "arith_loop A chk ds fin fr (t @ w @ expr_text e @ r) lt st ns env
    = push_op A chk ds fin (w @ expr_text e @ r) lt op st ns env"
    "0 < PREC op \<Longrightarrow> PREC op < 16 \<Longrightarrow> prec_of op < q \<or> (prec_of op = q \<and> \<not> is_right_associativity q)
      \<Longrightarrow> closes A chk ds fin q (t @ w @ expr_text e @ r)"
proof -
  have "w @ expr_text e @ r = hd (w @ expr_text e) # tl (w @ expr_text e) @ r"
    using hd_Cons [of "w @ expr_text e" r] expr_text_nonempty [OF assms(2)] by simp
  with loop_lexes [OF assms(1)] closes_op [OF assms(1)]
  show "arith_loop A chk ds fin fr (t @ w @ expr_text e @ r) lt st ns env
    = push_op A chk ds fin (w @ expr_text e @ r) lt op st ns env"
    "0 < PREC op \<Longrightarrow> PREC op < 16 \<Longrightarrow> prec_of op < q \<or> (prec_of op = q \<and> \<not> is_right_associativity q)
      \<Longrightarrow> closes A chk ds fin q (t @ w @ expr_text e @ r)" by metis+
qed

lemma holds_mono: "holds st q \<Longrightarrow> q < q' \<Longrightarrow> holds st q'"
  by (auto simp: holds_def split: list.splits)

definition evals :: "(string \<Rightarrow> arith_t) \<Rightarrow> expr \<Rightarrow> env \<Rightarrow> (arith_t \<Rightarrow> arith_t act) \<Rightarrow> arith_t act" where
  "evals \<rho> e env k = (case eval \<rho> e of Inl er \<Rightarrow> err er env | Inr v \<Rightarrow> k v)"

lemma evals_cong: "(\<And>v. eval \<rho> e = Inr v \<Longrightarrow> k v = k' v) \<Longrightarrow> evals \<rho> e env k = evals \<rho> e env k'"
  by (auto simp: evals_def split: sum.splits)

fun ops_of :: "expr \<Rightarrow> nat" where
  "ops_of (Num n) = 0"
| "ops_of (Var x) = 0"
| "ops_of (Par w1 e w2) = Suc (ops_of e)"
| "ops_of (Unary t op w e) = Suc (ops_of e)"
| "ops_of (Binary a w1 t op w2 b) = Suc (ops_of a + ops_of b)"
| "ops_of (Cond a w1 w2 b w3 w4 c) = Suc (Suc (ops_of a + ops_of b + ops_of c))"

lemma apply_cond:
  assumes "eval \<rho> a = Inr x" "eval \<rho> b = Inr y" "eval \<rho> c = Inr z"
    and "list_all (looks_up A chk env \<rho>) (vars a @ vars b @ vars c)"
  shows "abind (arith_apply A chk TOK_CONDITIONAL_SEP (item \<rho> c # item \<rho> b # item \<rho> a # ns) env)
      (arith_apply A chk TOK_CONDITIONAL) = ret (num (if x \<noteq> 0 then y else z) # ns) env"
proof -
  have toks: "\<not> tok_have_assign TOK_CONDITIONAL_SEP" "\<not> tok_have_assign TOK_CONDITIONAL"
    "TOK_CONDITIONAL_SEP \<noteq> TOK_CONDITIONAL" "TOK_CONDITIONAL_SEP \<noteq> TOK_ASSIGN" "TOK_CONDITIONAL \<noteq> TOK_ASSIGN"
    "TOK_CONDITIONAL \<noteq> TOK_CONDITIONAL_SEP"
    and un: "unary_op TOK_CONDITIONAL_SEP v = None" "unary_op TOK_CONDITIONAL v = None" for v
    by (simp_all add: tok_have_assign_def unary_op_def convert_prec_is_assing_def tok_defs Let_def)
  have l: "list_all (looks_up A chk env \<rho>) (vars a)" "list_all (looks_up A chk env \<rho>) (vars b)"
    "list_all (looks_up A chk env \<rho>) (vars c)" using assms(4) by auto
  have "(item \<rho> b)\<lparr>val := y, second := Some z, val := y, var := None\<rparr> = \<lparr>val = y, second = Some z, var = None\<rparr>"
    using item_set_second [where \<rho> = \<rho> and e = b and w = y and s = "Some z"] by simp
  moreover have "(item \<rho> a)\<lparr>val := x, second := None, val := w, var := None\<rparr> = num w" for w
    using item_set_second [where \<rho> = \<rho> and e = a and w = w and s = None] by simp
  ultimately show ?thesis
    using toks un lookup_item [OF assms(1) l(1)] lookup_item [OF assms(2) l(2)] lookup_item [OF assms(3) l(3)]
    by (simp add: arith_apply_def arith_store_def arith_lookup_val_def Let_def)
qed

text \<open>
  \<open>goes_on\<close>: reading the text of \<open>e\<close> in front of \<open>r\<close> evaluates \<open>e\<close> and leaves its value on the
  number stack and the operator stack as it was.
\<close>

definition goes_on :: "arith_fun \<Rightarrow> string list \<Rightarrow> nat \<Rightarrow> bool \<Rightarrow> env \<Rightarrow> (string \<Rightarrow> arith_t) \<Rightarrow> expr \<Rightarrow> bool" where
  "goes_on A chk ds fin env \<rho> e \<longleftrightarrow> (\<forall>fr lt st ns r.
     opens lt \<longrightarrow> 16 \<le> lvl e \<or> holds st (lvl e) \<longrightarrow> length ns + nums_of e \<le> ds div 2 \<longrightarrow>
     length st + ops_of e \<le> ds \<longrightarrow> closes A chk ds fin (lvl e) r \<longrightarrow> stops r \<longrightarrow>
     arith_loop A chk ds fin fr (expr_text e @ r) lt st ns env
     = evals \<rho> e env (\<lambda>_. arith_loop A chk ds fin False r TOK_NUM st (item \<rho> e # ns) env))"

lemma goes_onD:
  assumes "goes_on A chk ds fin env \<rho> e" "opens lt" "16 \<le> lvl e \<or> holds st (lvl e)"
    "length ns + nums_of e \<le> ds div 2" "length st + ops_of e \<le> ds" "closes A chk ds fin (lvl e) r" "stops r"
  shows "arith_loop A chk ds fin fr (expr_text e @ r) lt st ns env
     = evals \<rho> e env (\<lambda>_. arith_loop A chk ds fin False r TOK_NUM st (item \<rho> e # ns) env)"
  using assms unfolding goes_on_def by blast

lemma closesD:
  "closes A chk ds fin q r \<Longrightarrow> q \<le> prec_of s \<Longrightarrow> s \<noteq> TOK_LPAREN \<Longrightarrow>
    arith_loop A chk ds fin False r TOK_NUM (s # st)
     = (\<lambda>ns env. abind (arith_apply A chk s ns env) (arith_loop A chk ds fin False r TOK_NUM st))"
  by (intro ext) (simp add: closes_def)

lemma nums_pos: "0 < nums_of e"
  by (induction e) auto

lemma goes_on_atom:
  "goes_on A chk ds fin env \<rho> (Num n)" "name_ok x \<Longrightarrow> goes_on A chk ds fin env \<rho> (Var x)"
  unfolding goes_on_def by (auto simp: evals_def loop_num loop_name)

lemma push_rparen:
  "push_op A chk ds fin p TOK_NUM TOK_RPAREN (TOK_LPAREN # st) ns env = arith_loop A chk ds fin False p TOK_NUM st ns env"
proof -
  have "PREC TOK_RPAREN = SPEC_PREC" by (simp add: tok_defs)
  then show ?thesis by (simp add: push_op_def Let_def)
qed

lemma goes_on_par:
  assumes IH: "goes_on A chk ds fin env \<rho> e" and w: "blanks w1" "blanks w2" and wf: "wf_expr e"
  shows "goes_on A chk ds fin env \<rho> (Par w1 e w2)"
  unfolding goes_on_def
proof (intro allI impI)
  fix fr lt and st :: "operator list" and ns :: "v_n_t list" and r
  assume lt: "opens lt" and ns: "length ns + nums_of (Par w1 e w2) \<le> ds div 2"
    and st: "length st + ops_of (Par w1 e w2) \<le> ds"
  let ?r = "w2 @ CHR '')'' # r"
  have "closes A chk ds fin (lvl e) ?r" "stops ?r"
    using w closes_blanks closes_rparen stops_blanks stops_op_char rparen_char by auto
  moreover have "holds (TOK_LPAREN # st) (lvl e)"
    using wf is_binop_prec by (cases e) (auto simp: holds_def tok_defs convert_prec_is_assing_def)
  moreover have "opens TOK_LPAREN" by (simp add: opens_def tok_defs)
  ultimately have e: "arith_loop A chk ds fin False (expr_text e @ ?r) TOK_LPAREN (TOK_LPAREN # st) ns env
     = evals \<rho> e env (\<lambda>_. arith_loop A chk ds fin False ?r TOK_NUM (TOK_LPAREN # st) (item \<rho> e # ns) env)"
    using goes_onD [OF IH] ns st by auto
  have "arith_loop A chk ds fin fr (expr_text (Par w1 e w2) @ r) lt st ns env
    = push_op A chk ds fin (w1 @ expr_text e @ ?r) lt TOK_LPAREN st ns env"
    using loop_op [OF scan_lparen rparen_char(2)] by simp
  also have "\<dots> = arith_loop A chk ds fin False (expr_text e @ ?r) TOK_LPAREN (TOK_LPAREN # st) ns env"
    using push_prefix [OF lt, of TOK_LPAREN TOK_LPAREN st ds] st
    by (simp add: tok_defs fix_op_def loop_blanks [OF w(1)])
  also have "\<dots> = evals \<rho> e env (\<lambda>_. arith_loop A chk ds fin False r TOK_NUM st (item \<rho> e # ns) env)"
    unfolding e loop_blanks [OF w(2)] loop_op [OF scan_rparen rparen_char(1)]
    by (simp add: push_rparen)
  finally show "arith_loop A chk ds fin fr (expr_text (Par w1 e w2) @ r) lt st ns env
     = evals \<rho> (Par w1 e w2) env (\<lambda>_. arith_loop A chk ds fin False r TOK_NUM st (item \<rho> (Par w1 e w2) # ns) env)"
    by (simp add: evals_def)
qed

lemma goes_on_unary:
  assumes IH: "goes_on A chk ds fin env \<rho> e" and wf: "wf_expr (Unary t op w e)"
    and look: "list_all (looks_up A chk env \<rho>) (vars e)"
  shows "goes_on A chk ds fin env \<rho> (Unary t op w e)"
  unfolding goes_on_def
proof (intro allI impI)
  fix fr lt and st :: "operator list" and ns :: "v_n_t list" and r
  let ?k = "arith_loop A chk ds fin False r TOK_NUM"
  assume lt: "opens lt" and ns: "length ns + nums_of (Unary t op w e) \<le> ds div 2"
    and st: "length st + ops_of (Unary t op w e) \<le> ds"
    and cl: "closes A chk ds fin (lvl (Unary t op w e)) r" and r: "stops r"
  have op: "is_unop op" "16 \<le> lvl e" "blanks w" "wf_expr e" using wf by auto
  obtain op0 where op0: "fix_op TOK_LPAREN op0 = op" "lexes t op0 (hd (w @ expr_text e))"
    using wf by auto
  have cl': "closes A chk ds fin 16 r" using cl by simp
  have "arith_loop A chk ds fin fr (expr_text (Unary t op w e) @ r) lt st ns env
    = arith_loop A chk ds fin False (expr_text e @ r) op (op # st) ns env"
    using lexes_hd(1) [OF op0(2) op(4)] push_prefix [OF lt op0(1)] is_unop_prec [OF op(1)] st
    by (auto simp: loop_blanks [OF op(3)])
  also have "\<dots> = evals \<rho> e env (\<lambda>_. ?k (op # st) (item \<rho> e # ns) env)"
    using goes_onD [OF IH] is_unop_opens [OF op(1)] op(2) ns st r closes_mono [OF cl' op(2)] by auto
  also have "\<dots> = evals \<rho> e env (\<lambda>v. ?k st (num (the (unary_op op v)) # ns) env)"
    using is_unop_opens [OF op(1)] apply_un [OF op(1) _ look]
    by (intro evals_cong) (simp add: closesD [OF cl'])
  finally show "arith_loop A chk ds fin fr (expr_text (Unary t op w e) @ r) lt st ns env
     = evals \<rho> (Unary t op w e) env (\<lambda>_. ?k st (item \<rho> (Unary t op w e) # ns) env)"
    by (simp add: evals_def split: sum.splits)
qed

lemma goes_on_binary:
  assumes IHa: "goes_on A chk ds fin env \<rho> a" and IHb: "goes_on A chk ds fin env \<rho> b"
    and wf: "wf_expr (Binary a w1 t op w2 b)" and look: "list_all (looks_up A chk env \<rho>) (vars a @ vars b)"
  shows "goes_on A chk ds fin env \<rho> (Binary a w1 t op w2 b)" (is "goes_on _ _ _ _ _ _ ?e")
  unfolding goes_on_def
proof (intro allI impI)
  fix fr lt and st :: "operator list" and ns :: "v_n_t list" and r
  let ?k = "arith_loop A chk ds fin False r TOK_NUM"
  assume lt: "opens lt" and hold: "16 \<le> lvl ?e \<or> holds st (lvl ?e)" and ns: "length ns + nums_of ?e \<le> ds div 2"
    and st: "length st + ops_of ?e \<le> ds" and cl: "closes A chk ds fin (lvl ?e) r" and r: "stops r"
  have op: "is_binop op" "blanks w1" "blanks w2" "wf_expr b" "lexes t op (hd (w2 @ expr_text b))" using wf by auto
  note prec = is_binop_prec [OF op(1)]
  have cl': "closes A chk ds fin (PREC op) r" using cl by simp
  have hold': "holds st (PREC op)" using hold prec by simp
  have la: "PREC op < lvl a \<or> (PREC op = lvl a \<and> \<not> is_right_associativity (lvl a))"
    and lb: "PREC op < lvl b \<or> (PREC op = lvl b \<and> is_right_associativity (lvl b))"
    using wf by (auto split: if_splits)
  let ?r = "w1 @ t @ w2 @ expr_text b @ r"
  have ra: "closes A chk ds fin (lvl a) ?r" "stops ?r"
    using closes_blanks [OF op(2) lexes_hd(2) [OF op(5,4) prec(1,2)]] la prec(3)
      stops_blanks [OF op(2) stops_lexes [OF op(5)]] by auto
  have ha: "16 \<le> lvl a \<or> holds st (lvl a)" using la hold' holds_mono by auto
  have hb: "holds (op # st) (lvl b)" using lb prec(3) by (auto simp: holds_def)
  have "arith_loop A chk ds fin fr (expr_text ?e @ r) lt st ns env
    = evals \<rho> a env (\<lambda>_. arith_loop A chk ds fin False ?r TOK_NUM st (item \<rho> a # ns) env)"
    using goes_onD [OF IHa lt ha _ _ ra] ns st by simp
  also have "arith_loop A chk ds fin False ?r TOK_NUM st (item \<rho> a # ns) env
    = arith_loop A chk ds fin False (expr_text b @ r) op (op # st) (item \<rho> a # ns) env"
    unfolding loop_blanks [OF op(2)] lexes_hd(1) [OF op(5,4)]
    using push_binary [of st op ds] hold' prec st by (simp add: loop_blanks [OF op(3)])
  also have "\<dots> = evals \<rho> b env (\<lambda>_. ?k (op # st) (item \<rho> b # item \<rho> a # ns) env)"
    using goes_onD [OF IHb is_binop_opens [OF op(1)] _ _ _ closes_mono [OF cl'] r] hb lb ns st nums_pos [of a] by auto
  also have "?k (op # st) (item \<rho> b # item \<rho> a # ns) env
    = abind (arith_apply A chk op (item \<rho> b # item \<rho> a # ns) env) (?k st)"
    using closesD [OF cl'] prec is_binop_not [OF op(1)] by simp
  also have "evals \<rho> a env (\<lambda>_. evals \<rho> b env (\<lambda>_. \<dots>)) = evals \<rho> ?e env (\<lambda>_. ?k st (item \<rho> ?e # ns) env)"
    using look apply_bin [OF op(1)] by (auto simp: evals_def split: sum.splits)
  finally show "arith_loop A chk ds fin fr (expr_text ?e @ r) lt st ns env
     = evals \<rho> ?e env (\<lambda>_. ?k st (item \<rho> ?e # ns) env)" .
qed

lemma lexes_quest: "lexes ''?'' TOK_CONDITIONAL c" "lexes '':'' TOK_CONDITIONAL_SEP c"
  by (simp_all add: lexes_def op_tokens_def)

lemma cond_prec:
  "PREC TOK_CONDITIONAL = 4" "PREC TOK_CONDITIONAL_SEP = 4" "prec_of TOK_CONDITIONAL = 4" "prec_of TOK_CONDITIONAL_SEP = 4"
  "opens TOK_CONDITIONAL" "opens TOK_CONDITIONAL_SEP" "is_right_associativity 4"
  "TOK_CONDITIONAL \<noteq> TOK_LPAREN" "TOK_CONDITIONAL_SEP \<noteq> TOK_LPAREN"
  by (simp_all add: tok_defs convert_prec_is_assing_def opens_def is_right_associativity_def)

lemma cond_step:
  assumes "lexes t op (hd (w @ expr_text e))" "wf_expr e" "PREC op = 4" "prec_of op = 4"
    and w: "blanks w'" "blanks w" and "holds st 4" "length st < ds"
  shows "arith_loop A chk ds fin False (w' @ t @ w @ expr_text e @ r) TOK_NUM st ns env
    = arith_loop A chk ds fin False (expr_text e @ r) op (op # st) ns env"
  unfolding loop_blanks [OF w(1)] lexes_hd(1) [OF assms(1,2)]
  using push_binary [of st op ds] assms by (simp add: loop_blanks [OF w(2)])

lemma goes_on_cond:
  assumes IH: "goes_on A chk ds fin env \<rho> a" "goes_on A chk ds fin env \<rho> b" "goes_on A chk ds fin env \<rho> c"
    and wf: "wf_expr (Cond a w1 w2 b w3 w4 c)" and look: "list_all (looks_up A chk env \<rho>) (vars a @ vars b @ vars c)"
  shows "goes_on A chk ds fin env \<rho> (Cond a w1 w2 b w3 w4 c)" (is "goes_on _ _ _ _ _ _ ?e")
  unfolding goes_on_def
proof (intro allI impI)
  fix fr lt and st :: "operator list" and ns :: "v_n_t list" and r
  let ?k = "arith_loop A chk ds fin False r TOK_NUM" and ?Q = TOK_CONDITIONAL and ?S = TOK_CONDITIONAL_SEP
  assume lt: "opens lt" and hold: "16 \<le> lvl ?e \<or> holds st (lvl ?e)" and ns: "length ns + nums_of ?e \<le> ds div 2"
    and st: "length st + ops_of ?e \<le> ds" and cl: "closes A chk ds fin (lvl ?e) r" and r: "stops r"
  have w: "blanks w1" "blanks w2" "blanks w3" "blanks w4" "wf_expr b" "wf_expr c" "4 < lvl a" "4 < lvl b" "4 \<le> lvl c"
    using wf by auto
  have h4: "holds st 4" "holds (?Q # st) 4" "holds (?S # ?Q # st) 4"
    using hold cond_prec by (auto simp: holds_def)
  have cl4: "closes A chk ds fin 4 r" using cl by simp
  let ?rc = "w3 @ '':'' @ w4 @ expr_text c @ r" and ?rb = "w1 @ ''?'' @ w2 @ expr_text b @ w3 @ '':'' @ w4 @ expr_text c @ r"
  have ra: "closes A chk ds fin (lvl a) ?rb" "stops ?rb"
    using closes_blanks [OF w(1) lexes_hd(2) [OF lexes_quest(1) w(5)]] w(7) cond_prec
      stops_blanks [OF w(1) stops_lexes [OF lexes_quest(1)]] by auto
  have rb: "closes A chk ds fin (lvl b) ?rc" "stops ?rc"
    using closes_blanks [OF w(3) lexes_hd(2) [OF lexes_quest(2) w(6)]] w(8) cond_prec
      stops_blanks [OF w(3) stops_lexes [OF lexes_quest(2)]] by auto
  have hc: "holds (?S # ?Q # st) (lvl c)" using h4(3) holds_mono w(9) by (cases "lvl c = 4") auto
  have "arith_loop A chk ds fin fr (expr_text ?e @ r) lt st ns env
    = evals \<rho> a env (\<lambda>_. arith_loop A chk ds fin False ?rb TOK_NUM st (item \<rho> a # ns) env)"
    using goes_onD [OF IH(1) lt _ _ _ ra] h4(1) holds_mono w(7) ns st by simp
  also have "arith_loop A chk ds fin False ?rb TOK_NUM st (item \<rho> a # ns) env
    = arith_loop A chk ds fin False (expr_text b @ ?rc) ?Q (?Q # st) (item \<rho> a # ns) env"
    using cond_step [OF lexes_quest(1) w(5) cond_prec(1,3) w(1,2) h4(1)] st by simp
  also have "\<dots> = evals \<rho> b env (\<lambda>_. arith_loop A chk ds fin False ?rc TOK_NUM (?Q # st) (item \<rho> b # item \<rho> a # ns) env)"
    using goes_onD [OF IH(2) cond_prec(5) _ _ _ rb] holds_mono [OF h4(2) w(8)] ns st nums_pos [of a] by simp
  also have "arith_loop A chk ds fin False ?rc TOK_NUM (?Q # st) (item \<rho> b # item \<rho> a # ns) env
    = arith_loop A chk ds fin False (expr_text c @ r) ?S (?S # ?Q # st) (item \<rho> b # item \<rho> a # ns) env"
    using cond_step [OF lexes_quest(2) w(6) cond_prec(2,4) w(3,4) h4(2)] st by simp
  also have "\<dots> = evals \<rho> c env (\<lambda>_. ?k (?S # ?Q # st) (item \<rho> c # item \<rho> b # item \<rho> a # ns) env)"
    using goes_onD [OF IH(3) cond_prec(6) _ _ _ closes_mono [OF cl4 w(9)] r] hc ns st nums_pos [of a] nums_pos [of b] by simp
  also have "?k (?S # ?Q # st) (item \<rho> c # item \<rho> b # item \<rho> a # ns) env
    = abind (abind (arith_apply A chk ?S (item \<rho> c # item \<rho> b # item \<rho> a # ns) env) (arith_apply A chk ?Q)) (?k st)"
    unfolding abind_assoc
    using closesD [OF cl4, of ?S] closesD [OF cl4, of ?Q] cond_prec by simp
  also have "evals \<rho> a env (\<lambda>_. evals \<rho> b env (\<lambda>_. evals \<rho> c env (\<lambda>_. \<dots>))) = evals \<rho> ?e env (\<lambda>_. ?k st (item \<rho> ?e # ns) env)"
    using apply_cond [OF _ _ _ look] by (auto simp: evals_def split: sum.splits)
  finally show "arith_loop A chk ds fin fr (expr_text ?e @ r) lt st ns env
     = evals \<rho> ?e env (\<lambda>_. ?k st (item \<rho> ?e # ns) env)" .
qed

lemma goes_on_expr:
  "wf_expr e \<Longrightarrow> list_all (looks_up A chk env \<rho>) (vars e) \<Longrightarrow> goes_on A chk ds fin env \<rho> e"
proof (induction e)
  case (Par w1 e w2)
  then show ?case using goes_on_par by auto
next
  case (Unary t op w e)
  then show ?case using goes_on_unary by auto
next
  case (Binary a w1 t op w2 b)
  then show ?case using goes_on_binary by auto
next
  case (Cond a w1 w2 b w3 w4 c)
  then show ?case using goes_on_cond by auto
qed (auto intro: goes_on_atom)

section \<open>Properties of the evaluator\<close>

lemma lexes_nonempty: "lexes t op c \<Longrightarrow> t \<noteq> []"
  using lexes_op_char by fastforce

lemma wf_sizes:
  "wf_expr e \<Longrightarrow> 2 * nums_of e \<le> Suc (length (expr_text e)) \<and> nums_of e + ops_of e \<le> length (expr_text e)"
proof (induction e)
  case (Num n)
  then show ?case using dec_nat_nonempty [of n] by (cases "dec_nat n") auto
next
  case (Var x)
  then show ?case by (cases x) (auto simp: name_ok_def)
next
  case (Unary t op w e)
  then have "t \<noteq> []" using lexes_nonempty by auto
  then show ?case using Unary by (cases t) auto
next
  case (Binary a w1 t op w2 b)
  then have "t \<noteq> []" using lexes_nonempty by auto
  then show ?case using Binary by (cases t) auto
qed auto

lemma loop_end:
  "arith_loop A chk ds False False [] TOK_NUM [TOK_LPAREN] [t] env = abind (arith_lookup_val A chk t env) (\<lambda>t. ret (val t))"
proof -
  have "arith_loop A chk ds False False [] TOK_NUM [TOK_LPAREN] [t] env
    = push_op A chk ds True [] TOK_NUM TOK_RPAREN [TOK_LPAREN] [t] env"
    using loop_op [OF scan_rparen rparen_char(1), of A chk ds True False "[]"]
    by (subst arith_loop.simps) simp
  also have "\<dots> = abind (arith_lookup_val A chk t env) (\<lambda>t. ret (val t))"
    unfolding push_rparen by (subst arith_loop.simps) simp
  finally show ?thesis .
qed

lemma arith_text:
  assumes wf: "wf_expr e" and w: "blanks w" "blanks w'" and look: "list_all (looks_up (arith k) chk env \<rho>) (vars e)"
  shows "arith (Suc k) chk env (w @ expr_text e @ w') = evals \<rho> e env (\<lambda>v. ret v env)"
proof -
  let ?ds = "length (w @ expr_text e @ w') + 2"
  have "closes (arith k) chk ?ds False (lvl e) w'" "stops w'"
    using closes_blanks [OF w(2) closes_end] stops_blanks [OF w(2), of "[]"] by (simp_all add: stops_def)
  moreover have "holds [TOK_LPAREN] (lvl e)"
    using wf is_binop_prec by (cases e) (auto simp: holds_def tok_defs convert_prec_is_assing_def)
  moreover have "opens TOK_LPAREN" by (simp add: opens_def tok_defs)
  moreover have "nums_of e \<le> ?ds div 2" "1 + ops_of e \<le> ?ds" using wf_sizes [OF wf] by auto
  ultimately have "arith (Suc k) chk env (w @ expr_text e @ w')
    = evals \<rho> e env (\<lambda>_. arith_loop (arith k) chk ?ds False False w' TOK_NUM [TOK_LPAREN] [item \<rho> e] env)"
    using goes_onD [OF goes_on_expr [OF wf look], of TOK_LPAREN "[TOK_LPAREN]" "[]" ?ds False w' True]
    by (simp add: loop_blanks [OF w(1)])
  also have "\<dots> = evals \<rho> e env (\<lambda>v. ret v env)"
    using loop_blanks [OF w(2), of "arith k" chk ?ds False False "[]"] lookup_item [OF _ look]
    by (intro evals_cong) (simp add: loop_end)
  finally show ?thesis .
qed

text \<open>The decimal text of a value evaluates to the value.\<close>

lemma arith_dec: "arith (Suc k) chk env (dec_int (sint v)) = ret v env"
proof (cases "sint v < 0")
  case True
  let ?n = "nat (- sint v)"
  have b: "- (2 ^ 63) \<le> sint v" using sint_ge [of v] by simp
  have "lexes ''-'' TOK_SUB (hd (dec_nat ?n))"
    using dec_nat_digits [of ?n] dec_nat_nonempty [of ?n]
    by (cases "dec_nat ?n") (auto simp: lexes_def op_tokens_def is_digit_of_def hex_val_def)
  then have wf: "wf_expr (Unary ''-'' TOK_UMINUS [] (Num ?n))"
    by (simp add: blanks_def is_unop_def fix_op_def tok_defs)
  have "(of_nat ?n :: arith_t) = - v"
  proof -
    have "(of_nat ?n :: arith_t) = word_of_int (- sint v)" using True by (simp add: of_nat_nat)
    then show ?thesis by simp
  qed
  moreover have "?n < 2 ^ 64" using b by (simp add: nat_less_iff)
  ultimately show ?thesis
    using arith_text [OF wf, of "[]" "[]" k chk env "\<lambda>_. 0"] True
    by (simp add: dec_int_def evals_def blanks_def unary_op_def)
next
  case False
  have "nat (sint v) < 2 ^ 64" using sint_lt [of v] by (simp add: nat_less_iff)
  moreover have "(of_nat (nat (sint v)) :: arith_t) = v" using False by simp
  ultimately show ?thesis
    using arith_text [of "Num (nat (sint v))" "[]" "[]" k chk env "\<lambda>_. 0"] False
    by (simp add: dec_int_def evals_def blanks_def)
qed

definition int_var :: "env \<Rightarrow> (string \<Rightarrow> arith_t) \<Rightarrow> string \<Rightarrow> bool" where
  "int_var env \<rho> x \<longleftrightarrow> env x = Some (dec_int (sint (\<rho> x))) \<or> (env x = None \<and> \<rho> x = 0)"

lemma int_var_looks_up: "int_var env \<rho> x \<Longrightarrow> looks_up (arith (Suc k)) [] env \<rho> x"
  by (auto simp: int_var_def looks_up_def arith_lookup_val_def arith_dec simp del: arith.simps)

lemma int_vars_look_up: "list_all (int_var env \<rho>) xs \<Longrightarrow> list_all (looks_up (arith (Suc k)) [] env \<rho>) xs"
  by (auto simp: list_all_iff int_var_looks_up simp del: arith.simps)

text \<open>
  C7. The shell's evaluator follows the grammar: every text of an expression built from decimal
  numbers, variables with integer values, parentheses, the unary and binary operators (the comma
  included) and \<open>? :\<close>, with any blanks that keep the operators apart, evaluates to the value of the
  tree that precedence and associativity give it, or stops with the first error in that tree, from
  left to right; the stacks suffice and the variables are unchanged.
\<close>

theorem arith_follows_grammar:
  assumes "wf_expr e" "blanks w" "blanks w'" "list_all (int_var env \<rho>) (vars e)"
  shows "arith (Suc (Suc k)) [] env (w @ expr_text e @ w')
    = (case eval \<rho> e of Inl er \<Rightarrow> Some (Inl er, env) | Inr v \<Rightarrow> Some (Inr v, env))"
  using arith_text [OF assms(1-3) int_vars_look_up [OF assms(4)]] by (simp add: evals_def)

lemma demo_lexes:
  "lexes ''*'' TOK_MUL (CHR '' '')" "lexes ''/'' TOK_DIV (CHR '' '')"
  by (simp_all add: lexes_def op_tokens_def)

lemma demo_ops:
  "is_binop TOK_MUL" "is_binop TOK_DIV" "PREC TOK_MUL = 14" "PREC TOK_DIV = 14" "\<not> is_right_associativity 14"
  by (simp_all add: is_binop_def is_right_associativity_def tok_defs)

lemma demo_vars_ok: "name_ok ''boot_space''" "name_ok ''dev_unitsize''"
  by (simp_all add: name_ok_def is_in_name_def is_name_def)

theorem arith_follows_grammar_witness:
  "arith (Suc (Suc 0)) [] (\<lambda>x. if x = ''boot_space'' then Some ''32'' else if x = ''dev_unitsize'' then Some ''8192'' else None)
     ''boot_space * 1024 * 1024 / dev_unitsize''
   = Some (Inr 4096, (\<lambda>x. if x = ''boot_space'' then Some ''32'' else if x = ''dev_unitsize'' then Some ''8192'' else None))"
proof -
  let ?env = "\<lambda>x. if x = ''boot_space'' then Some ''32'' else if x = ''dev_unitsize'' then Some ''8192'' else None"
  let ?rho = "\<lambda>x. if x = ''boot_space'' then 32 else 8192"
  let ?e = "Binary (Binary (Binary (Var ''boot_space'') '' '' ''*'' TOK_MUL '' '' (Num 1024)) '' '' ''*'' TOK_MUL '' '' (Num 1024))
      '' '' ''/'' TOK_DIV '' '' (Var ''dev_unitsize'')"
  have wf: "wf_expr ?e"
    by (simp add: blanks_def arith_isspace_def demo_lexes demo_vars_ok demo_ops)
  have b: "blanks []" by (simp add: blanks_def)
  have d: "dec_nat 32 = ''32''" "dec_nat 8192 = ''8192''" "dec_nat 1024 = ''1024''"
    by (simp_all add: dec_nat.simps digit_char_def char_of_digit)
  have v: "list_all (int_var ?env ?rho) (vars ?e)"
    by (simp add: int_var_def dec_int_def d)
  have ev: "eval ?rho ?e = Inr 4096"
    by (simp add: binary_op_def tok_defs)
  show ?thesis
    using arith_follows_grammar [OF wf b b v, of 0] unfolding ev by (simp add: d del: arith.simps)
qed

section \<open>Assignments\<close>

definition is_assignop :: "operator \<Rightarrow> bool" where
  "is_assignop op \<longleftrightarrow> op \<in> {TOK_ASSIGN, TOK_AND_ASSIGN, TOK_OR_ASSIGN, TOK_XOR_ASSIGN, TOK_PLUS_ASSIGN, TOK_MINUS_ASSIGN,
     TOK_LSHIFT_ASSIGN, TOK_RSHIFT_ASSIGN, TOK_MUL_ASSIGN, TOK_DIV_ASSIGN, TOK_REM_ASSIGN}"

lemma is_assignop_facts:
  assumes "is_assignop op"
  shows "0 < PREC op" "PREC op < 16" "prec_of op = 2" "opens op" "op \<noteq> TOK_LPAREN" "tok_have_assign op"
    "unary_op op v = None" "op \<noteq> TOK_CONDITIONAL" "op \<noteq> TOK_CONDITIONAL_SEP" "op \<noteq> TOK_POST_INC" "op \<noteq> TOK_POST_DEC"
  using assms unfolding is_assignop_def
  by (auto simp: tok_defs convert_prec_is_assing_def opens_def tok_have_assign_def unary_op_def Let_def)

lemma apply_assign:
  assumes "is_assignop op" "eval \<rho> e = Inr y" "list_all (looks_up A chk env \<rho>) (x # vars e)"
  shows "arith_apply A chk op [item \<rho> e, vitem x] env
    = (case binary_op op (if op = TOK_ASSIGN then 0 else \<rho> x) y of
         Inl er \<Rightarrow> err er env | Inr v \<Rightarrow> ret [num v] (env(x \<mapsto> dec_int (sint v))))"
  using is_assignop_facts [OF assms(1)] lookup_item [OF assms(2), of A chk env] assms(2,3)
  by (auto simp: arith_apply_def arith_store_def looks_up_def Let_def split: sum.splits)

lemma arith_assign_text:
  assumes op: "is_assignop op" "lexes t op (hd (w2 @ expr_text e))" and x: "name_ok x"
    and e: "wf_expr e" "4 \<le> lvl e" and w: "blanks w1" "blanks w2"
    and look: "list_all (looks_up (arith k) chk env \<rho>) (x # vars e)"
  shows "arith (Suc k) chk env (x @ w1 @ t @ w2 @ expr_text e) =
    evals \<rho> e env (\<lambda>y. case binary_op op (if op = TOK_ASSIGN then 0 else \<rho> x) y of
         Inl er \<Rightarrow> err er env | Inr v \<Rightarrow> ret v (env(x \<mapsto> dec_int (sint v))))"
proof -
  let ?s = "x @ w1 @ t @ w2 @ expr_text e"
  let ?ds = "length ?s + 2" and ?A = "arith k" and ?r = "w1 @ t @ w2 @ expr_text e"
  let ?L = "arith_loop ?A chk ?ds False False [] TOK_NUM"
  note f = is_assignop_facts [OF op(1)]
  have ln: "1 \<le> length x" "1 \<le> length t"
    using x lexes_nonempty [OF op(2)] by (cases x; cases t; simp add: name_ok_def)+
  have sz: "length [vitem x] + nums_of e \<le> ?ds div 2" "length [op, TOK_LPAREN] + ops_of e \<le> ?ds"
    using wf_sizes [OF e(1)] ln by auto
  have h: "holds [TOK_LPAREN] 2" "holds [op, TOK_LPAREN] (lvl e)"
    using e(2) f(3) by (auto simp: holds_def tok_defs convert_prec_is_assing_def)
  have "arith (Suc k) chk env ?s = arith_loop ?A chk ?ds False False ?r TOK_NUM [TOK_LPAREN] [vitem x] env"
    using loop_name [OF x stops_blanks [OF w(1) stops_lexes [OF op(2)]], of "[]" ?ds] ln by simp
  also have "\<dots> = arith_loop ?A chk ?ds False False (expr_text e @ []) op [op, TOK_LPAREN] [vitem x] env"
    using push_binary [of "[TOK_LPAREN]" op ?ds] h(1) f lexes_hd(1) [OF op(2) e(1), of ?A chk ?ds False False "[]"]
    by (simp add: loop_blanks [OF w(1)] loop_blanks [OF w(2)])
  also have "\<dots> = evals \<rho> e env (\<lambda>_. ?L [op, TOK_LPAREN] [item \<rho> e, vitem x] env)"
    using goes_onD [OF goes_on_expr [OF e(1)] f(4) _ sz closes_end, of ?A chk env \<rho> False] h(2) look
    by (auto simp: stops_def)
  also have "?L [op, TOK_LPAREN] [item \<rho> e, vitem x] env
    = abind (arith_apply ?A chk op [item \<rho> e, vitem x] env) (?L [TOK_LPAREN])"
    using closesD [OF closes_end, of 0 op] f(5) by simp
  also have "evals \<rho> e env (\<lambda>_. \<dots>) = evals \<rho> e env (\<lambda>y. case binary_op op (if op = TOK_ASSIGN then 0 else \<rho> x) y of
         Inl er \<Rightarrow> err er env | Inr v \<Rightarrow> ret v (env(x \<mapsto> dec_int (sint v))))"
    using apply_assign [OF op(1) _ look]
    by (intro evals_cong) (auto simp: loop_end arith_lookup_val_def split: sum.splits)
  finally show ?thesis .
qed

text \<open>
  \<open>x = e\<close>, \<open>x += e\<close> and the other assignments evaluate the right side, store the decimal
  text of the result in the shell variable and return the result; when the right side or the
  operation fails, the variable keeps its value.
\<close>

theorem arith_assigns:
  assumes "is_assignop op" "lexes t op (hd (w2 @ expr_text e))" "name_ok x" "wf_expr e" "4 \<le> lvl e"
    "blanks w1" "blanks w2" "list_all (int_var env \<rho>) (x # vars e)"
  shows "arith (Suc (Suc k)) [] env (x @ w1 @ t @ w2 @ expr_text e) =
    (case and_then (eval \<rho> e) (binary_op op (if op = TOK_ASSIGN then 0 else \<rho> x)) of
       Inl er \<Rightarrow> Some (Inl er, env)
     | Inr v \<Rightarrow> Some (Inr v, env(x \<mapsto> dec_int (sint v))))"
  using arith_assign_text [OF assms(1-7) int_vars_look_up [OF assms(8)], of k]
  by (auto simp: evals_def split: sum.splits simp del: arith.simps)

theorem arith_assigns_witness:
  "arith (Suc (Suc 0)) [] (\<lambda>_. None) ''n = 7'' = Some (Inr 7, (\<lambda>_. None)(''n'' \<mapsto> ''7''))"
proof -
  have "is_assignop TOK_ASSIGN" "lexes ''='' TOK_ASSIGN (CHR '' '')" "name_ok ''n''" "blanks '' ''"
    by (simp_all add: is_assignop_def lexes_def op_tokens_def name_ok_def is_name_def blanks_def arith_isspace_def)
  moreover have "dec_nat 7 = ''7''" by (simp add: dec_nat.simps digit_char_def char_of_digit)
  moreover have "binary_op TOK_ASSIGN 0 7 = Inr 7" by (simp add: binary_op_def tok_defs)
  ultimately show ?thesis
    using arith_assigns [of TOK_ASSIGN "''=''" "'' ''" "Num 7" "''n''" "'' ''" "\<lambda>_. None" "\<lambda>_. 0" 0]
    by (simp add: int_var_def dec_int_def del: arith.simps)
qed

section \<open>Every evaluation returns\<close>

text \<open>
  \<open>int_texts V env\<close>: all variables outside \<open>V\<close> hold the text of an integer. Assignments keep
  this, so that a lookup that starts a nested evaluation of anything else uses up a name of \<open>V\<close>.
\<close>

definition int_texts :: "string set \<Rightarrow> env \<Rightarrow> bool" where
  "int_texts V env \<longleftrightarrow> (\<forall>x p. env x = Some p \<longrightarrow> x \<in> V \<or> (\<exists>v :: arith_t. p = dec_int (sint v)))"

definition returns :: "string set \<Rightarrow> 'a act \<Rightarrow> bool" where
  "returns V m \<longleftrightarrow> (\<exists>r env. m = Some (r, env) \<and> int_texts V env \<and> r \<noteq> Inl E_opstack)"

lemma returns_simps [simp]:
  "returns V (ret x env) \<longleftrightarrow> int_texts V env" "returns V (err e env) \<longleftrightarrow> int_texts V env \<and> e \<noteq> E_opstack"
  "\<not> returns V None"
  by (auto simp: returns_def)

lemma returns_abind:
  "returns V m \<Longrightarrow> (\<And>x env. m = ret x env \<Longrightarrow> int_texts V env \<Longrightarrow> returns V (f x env)) \<Longrightarrow> returns V (abind m f)"
  unfolding returns_def by (cases m rule: option.exhaust) (auto simp: abind_def split: sum.splits prod.splits)

definition lookups_return :: "string set \<Rightarrow> arith_fun \<Rightarrow> string list \<Rightarrow> bool" where
  "lookups_return V A chk \<longleftrightarrow> (\<forall>x env p. env x = Some p \<longrightarrow> x \<notin> set chk \<longrightarrow> int_texts V env \<longrightarrow> returns V (A (x # chk) env p))"

lemma returns_lookup:
  "lookups_return V A chk \<Longrightarrow> int_texts V env \<Longrightarrow> returns V (arith_lookup_val A chk t env)"
  by (auto simp: arith_lookup_val_def lookups_return_def split: option.splits intro!: returns_abind)

lemma int_texts_store: "int_texts V env \<Longrightarrow> int_texts V (env(x \<mapsto> dec_int (sint (v :: arith_t))))"
  by (auto simp: int_texts_def)

lemma returns_store: "int_texts V env \<Longrightarrow> returns V (arith_store op rez t ns env)"
  by (auto simp: arith_store_def Let_def int_texts_store split: option.splits)

lemma binary_op_err: "binary_op op a b = Inl e \<Longrightarrow> e \<noteq> E_opstack"
  unfolding binary_op_def by (simp split: if_splits)

lemma returns_apply:
  assumes "lookups_return V A chk" "int_texts V env"
  shows "returns V (arith_apply A chk op ns env)"
proof (cases ns)
  case (Cons t below)
  show ?thesis
    unfolding arith_apply_def Cons list.case
    by (rule returns_abind [OF returns_lookup [OF assms]])
      (auto split: option.splits list.splits sum.splits simp: Let_def
        intro!: returns_abind returns_lookup [OF assms(1)] returns_store dest: binary_op_err)
qed (simp add: arith_apply_def assms)

lemma returns_apply_ops:
  assumes "lookups_return V A chk"
  shows "int_texts V env \<Longrightarrow> returns V (apply_ops A chk op st ns env)"
proof (induction st arbitrary: ns env)
  case (Cons s st)
  have "returns V (abind (arith_apply A chk s ns env) (apply_ops A chk op st))"
    by (rule returns_abind [OF returns_apply [OF assms Cons.prems]]) (rule Cons.IH)
  then show ?case using Cons.prems by (auto simp: Let_def)
qed simp

lemma apply_ops_shrinks:
  "apply_ops A chk op st ns env = ret (closed, st', ns') env' \<Longrightarrow> length st' \<le> length st"
proof (induction st arbitrary: ns env)
  case (Cons s st)
  then show ?case
    by (fastforce simp: Let_def abind_def split: if_splits option.splits sum.splits prod.splits)
qed (simp split: if_splits)

lemma returns_loop:
  assumes "lookups_return V A chk" "int_texts V env" "length stack + length s + (if fin then 0 else 1) \<le> ds"
  shows "returns V (arith_loop A chk ds fin fr s lt stack nums env)"
  using assms(2,3)
proof (induction "length s + (if fin then 0 else 2 :: nat)" arbitrary: fin fr s lt stack nums env rule: less_induct)
  case less
  note IH = less.hyps
  show ?case
  proof (cases s)
    case Nil
    have "\<not> fin \<Longrightarrow> returns V (arith_loop A chk ds True fr '')'' lt stack nums env)"
      using less.prems Nil by (intro IH) auto
    moreover have "returns V (abind (arith_lookup_val A chk t env) (\<lambda>t. ret (val t)))" for t
      by (rule returns_abind [OF returns_lookup [OF assms(1) less.prems(1)]]) simp
    ultimately show ?thesis
      using less.prems Nil by (subst arith_loop.simps) (auto split: list.splits)
  next
    case (Cons c r)
    have step: "returns V (arith_loop A chk ds fin fr' p lt' st' ns' env')"
      if "length p < length s" "int_texts V env'" "length st' \<le> length stack + (length s - length p)" for fr' p lt' st' ns' env'
      using that less.prems by (intro IH) auto
    have op: "returns V (push_op A chk ds fin p lt op0 stack nums env)" if "length p < length s" for p op0
      unfolding push_op_def Let_def
      using that less.prems Cons
      by (auto intro!: step returns_abind returns_apply_ops [OF assms(1)] dest!: apply_ops_shrinks)
    show ?thesis
      using Cons less.prems endofname_shorter [of s] strtoull0_shorter [of c r] scan_op_tokens_shorter [of s]
      by (auto simp: loop_Cons intro!: step op split: prod.splits option.splits)
  qed
qed

lemma arith_returns:
  assumes "finite V"
  shows "card (V - set chk) + 2 \<le> k \<Longrightarrow> int_texts V env \<Longrightarrow> returns V (arith k chk env s)"
proof (induction "card (V - set chk)" arbitrary: chk k env s rule: less_induct)
  case less
  obtain j where k: "k = Suc (Suc j)" using less.prems(1) by (metis add_2_eq_Suc' le_Suc_ex add_Suc)
  have "returns V (arith (Suc j) (x # chk) env p)"
    if hx: "env x = Some p" "x \<notin> set chk" "int_texts V env" for x env p
  proof (cases "x \<in> V")
    case True
    have c: "card (V - set chk) = Suc (card (V - set (x # chk)))"
      using True hx(2) assms by (metis Diff_iff Diff_insert card_Suc_Diff1 finite_Diff list.simps(15))
    then show ?thesis using less.hyps [of "x # chk" "Suc j"] less.prems(1) k hx(3) by simp
  next
    case False
    then obtain v :: arith_t where "p = dec_int (sint v)" using hx unfolding int_texts_def by blast
    then show ?thesis using hx(3) by (simp add: arith_dec del: arith.simps)
  qed
  then have "lookups_return V (arith (Suc j)) chk" by (auto simp: lookups_return_def)
  then show ?case
    unfolding k arith.simps(2) [of "Suc j"] using less.prems(2) by (intro returns_loop) auto
qed

text \<open>
  C8. Every evaluation returns: whatever the text and however the variables refer to each other,
  nesting stops after at most as many levels as there are variables, because a name that is being
  looked up is not looked up again. And the operator stack of \<open>strlen + 2\<close> entries is never
  overrun, even by texts that are not expressions.
\<close>

theorem arith_always_returns:
  assumes "finite (dom env)"
  shows "\<exists>r env'. arith (card (dom env) + 2) [] env s = Some (r, env') \<and> r \<noteq> Inl E_opstack"
proof -
  have "int_texts (dom env) env" by (auto simp: int_texts_def)
  then show ?thesis
    using arith_returns [OF assms, of "[]" "card (dom env) + 2" env s] by (auto simp: returns_def)
qed

theorem arith_always_returns_witness:
  "\<exists>r env'. arith (2 + 2) [] (Map.empty(''a'' \<mapsto> ''b+1'', ''b'' \<mapsto> ''a'')) ''a*((2'' = Some (r, env') \<and> r \<noteq> Inl E_opstack"
proof -
  have c: "card (dom (Map.empty(''a'' \<mapsto> ''b+1'', ''b'' \<mapsto> ''a''))) = 2"
    and f: "finite (dom (Map.empty(''a'' \<mapsto> ''b+1'', ''b'' \<mapsto> ''a'')))" by simp_all
  show ?thesis using arith_always_returns [OF f, of "''a*((2''"] unfolding c .
qed

section \<open>Texts the evaluator gets wrong\<close>

lemma loop_Nil:
  "arith_loop A chk ds fin False [] lt st ns env =
     (if \<not> fin then arith_loop A chk ds True False '')'' lt st ns env
      else (case ns of [t] \<Rightarrow> abind (arith_lookup_val A chk t env) (\<lambda>t. ret (val t)) | _ \<Rightarrow> err E_syntax env))"
  by (subst arith_loop.simps) simp

lemma digit_step:
  assumes "stops r" "length ns < ds div 2" "n < 10"
  shows "arith_loop A chk ds fin fr (digit_char n # r) lt st ns env
    = arith_loop A chk ds fin False r TOK_NUM st (num (of_nat n) # ns) env"
proof -
  have "dec_nat n = [digit_char n]" using assms(3) by (subst dec_nat.simps) simp
  then show ?thesis using loop_num [OF assms(1,2), of A chk fin fr n lt st env] assms(3) by simp
qed

lemma digit_chars: "digit_char 1 = CHR ''1''" "digit_char 2 = CHR ''2''" "digit_char 3 = CHR ''3''" "digit_char 4 = CHR ''4''"
  by (simp_all add: digit_char_def char_of_digit)

lemmas small_steps = digit_step [where n = 1, unfolded digit_chars] digit_step [where n = 2, unfolded digit_chars]
  digit_step [where n = 3, unfolded digit_chars] digit_step [where n = 4, unfolded digit_chars]

lemma cond_char_steps:
  assumes "holds st 4" "length st < ds"
  shows "arith_loop A chk ds fin False (CHR ''?'' # c # r) TOK_NUM st ns env
      = arith_loop A chk ds fin False (c # r) TOK_CONDITIONAL (TOK_CONDITIONAL # st) ns env"
    "arith_loop A chk ds fin False (CHR '':'' # c # r) TOK_NUM st ns env
      = arith_loop A chk ds fin False (c # r) TOK_CONDITIONAL_SEP (TOK_CONDITIONAL_SEP # st) ns env"
  using loop_lexes [OF lexes_quest(1), of A chk ds fin False c r] loop_lexes [OF lexes_quest(2), of A chk ds fin False c r]
    push_binary [of st _ ds] assms cond_prec by simp_all

lemma adjacent_texts:
  "strtoull0 ''1a 1a'' = (Some 1, ''a 1a'')" "strtoull0 ''1a'' = (Some 1, ''a'')"
  "endofname ''1a 1a'' = ([], ''1a 1a'')" "endofname ''1a'' = ([], ''1a'')"
  "endofname ''a 1a'' = (''a'', '' 1a'')" "endofname ''a'' = (''a'', [])"
  "\<not> arith_isspace (CHR ''1'')" "\<not> arith_isspace (CHR ''a'')" "arith_isspace (CHR '' '')" "isdigit (CHR ''1'')"
  by (simp_all add: strtoull0_def endofname_def is_digit_of_def hex_val_def digits_value_def is_name_def is_in_name_def
      isdigit_def arith_isspace_def)

lemma cond_holds: "holds [TOK_LPAREN] 4" "holds (TOK_CONDITIONAL # st) 4" "holds (TOK_CONDITIONAL_SEP # st) 4"
  using cond_prec by (simp_all add: holds_def tok_defs convert_prec_is_assing_def)

lemma cond_stops: "stops (CHR ''?'' # r)" "stops (CHR '':'' # r)" "stops []"
  using rparen_char stops_op_char by (auto simp: stops_def)

lemma apply_sep_twice:
  "abind (arith_apply A chk TOK_CONDITIONAL_SEP [num d, num c, num b, num a, num z] env) (arith_apply A chk TOK_CONDITIONAL_SEP)
   = err E_syntax env"
proof -
  have "\<And>v. unary_op TOK_CONDITIONAL_SEP v = None" "\<not> tok_have_assign TOK_CONDITIONAL_SEP"
    "TOK_CONDITIONAL_SEP \<noteq> TOK_CONDITIONAL" "TOK_CONDITIONAL_SEP \<noteq> TOK_ASSIGN"
    by (simp_all add: unary_op_def tok_have_assign_def convert_prec_is_assing_def tok_defs)
  then show ?thesis by (simp add: arith_apply_def arith_lookup_val_def arith_store_def)
qed


end
