(* ===== verification/Lines.thy ===== *)
theory Lines
  imports Prelude
begin

text \<open>
  The line reader of \<open>libbb/get_line_from_file.c\<close> on the bytes of a text file: chunks up to a
  newline or a NUL byte, with backslash continuation when lines are counted, and the loop over all
  lines that the text programs share.
\<close>

abbreviation NL :: char where "NL \<equiv> CHR 0x0A"

text \<open>
  The loop of \<open>bb_get_chunk_with_continuation\<close>: \<open>linebuf\<close> is the buffer up to \<open>idx\<close>, \<open>ends\<close> says
  whether \<open>end\<close> was given, \<open>lineno\<close> is \<open>None\<close> for a null pointer.
\<close>

fun chunk_loop :: "bool \<Rightarrow> nat option \<Rightarrow> bytes \<Rightarrow> bytes \<Rightarrow> bytes \<times> nat option \<times> bytes" where
  "chunk_loop ends lineno linebuf [] = (linebuf, lineno, [])"
| "chunk_loop ends lineno linebuf (ch # f) =
     (let b = linebuf @ [ch]; idx = length b in
      if ch = NUL then (b, lineno, f)
      else if ends \<and> ch = NL then
        (case lineno of
           None \<Rightarrow> (b, None, f)
         | Some n \<Rightarrow>
             if idx < 2 \<or> b ! (idx - 2) \<noteq> CHR 0x5C then (b, Some (Suc n), f)
             else chunk_loop ends (Some (Suc n)) (take (idx - 2) b) f)
      else chunk_loop ends lineno b f)"

definition bb_get_chunk_with_continuation :: "bool \<Rightarrow> nat option \<Rightarrow> bytes \<Rightarrow> (bytes \<times> nat option \<times> bytes) option" where
  "bb_get_chunk_with_continuation ends lineno f = (if f = [] then None else Some (chunk_loop ends lineno [] f))"

definition bb_get_chunk_from_file :: "bool \<Rightarrow> bytes \<Rightarrow> (bytes \<times> bytes) option" where
  "bb_get_chunk_from_file ends f = map_option (\<lambda>(b, _, r). (b, r)) (bb_get_chunk_with_continuation ends None f)"

definition xmalloc_fgets :: "bytes \<Rightarrow> (bytes \<times> bytes) option" where
  "xmalloc_fgets f = bb_get_chunk_from_file True f"

text \<open>\<open>xmalloc_fgetline\<close> removes the newline; a \<open>char *\<close> caller sees the text before the first NUL.\<close>

definition xmalloc_fgetline :: "bytes \<Rightarrow> (string \<times> bytes) option" where
  "xmalloc_fgetline f =
     map_option (\<lambda>(c, r). (c_str (if c \<noteq> [] \<and> last c = NL then butlast c else c), r)) (bb_get_chunk_from_file True f)"

lemma chunk_loop_rest: "chunk_loop ends lineno b f = (c, l, r) \<Longrightarrow> length r \<le> length f"
proof (induction ends lineno b f rule: chunk_loop.induct)
  case (2 ends lineno linebuf ch f)
  then show ?case by (fastforce simp: Let_def split: if_splits option.splits)
qed simp

lemma chunk_loop_shorter: "chunk_loop ends lineno b (ch # f) = (c, l, r) \<Longrightarrow> length r < length (ch # f)"
  using chunk_loop_rest by (fastforce simp: Let_def split: if_splits option.splits)

lemma xmalloc_fgetline_shorter: "xmalloc_fgetline f = Some (l, r) \<Longrightarrow> length r < length f"
  by (cases f) (auto simp: xmalloc_fgetline_def bb_get_chunk_from_file_def bb_get_chunk_with_continuation_def
      simp del: chunk_loop.simps dest: chunk_loop_shorter split: prod.splits)

text \<open>\<open>while ((line = xmalloc_fgetline(file)) != NULL)\<close>.\<close>

function getlines :: "bytes \<Rightarrow> string list" where
  "getlines f = (case xmalloc_fgetline f of None \<Rightarrow> [] | Some (l, r) \<Rightarrow> l # getlines r)"
  by pat_completeness auto
termination by (relation "measure length") (auto dest: xmalloc_fgetline_shorter)

declare getlines.simps [simp del]

definition line_ok :: "string \<Rightarrow> bool" where
  "line_ok l \<longleftrightarrow> NUL \<notin> set l \<and> NL \<notin> set l"

lemma chunk_loop_line:
  "line_ok l \<Longrightarrow> chunk_loop True None b (l @ NL # r) = (b @ l @ [NL], None, r)"
  by (induction l arbitrary: b) (auto simp: line_ok_def Let_def)

lemma chunk_loop_last: "line_ok l \<Longrightarrow> chunk_loop ends None b l = (b @ l, None, [])"
  by (induction l arbitrary: b) (auto simp: line_ok_def Let_def)

lemma fgetline_line: "line_ok l \<Longrightarrow> xmalloc_fgetline (l @ NL # r) = Some (l, r)"
  by (simp add: xmalloc_fgetline_def bb_get_chunk_from_file_def bb_get_chunk_with_continuation_def chunk_loop_line butlast_append)
    (simp add: line_ok_def)

lemma getlines_Cons: "line_ok l \<Longrightarrow> getlines (l @ NL # r) = l # getlines r"
  by (subst getlines.simps) (simp add: fgetline_line)

lemma getlines_Nil [simp]: "getlines [] = []"
  by (subst getlines.simps) (simp add: xmalloc_fgetline_def bb_get_chunk_from_file_def bb_get_chunk_with_continuation_def)

lemma getlines_lines: "list_all line_ok ls \<Longrightarrow> getlines (concat (map (\<lambda>l. l @ [NL]) ls)) = ls"
  by (induction ls) (simp_all add: getlines_Cons)

lemma chunk_loop_length: "chunk_loop ends None b f = (c, l, r) \<Longrightarrow> length c + length r = length b + length f"
  by (induction f arbitrary: b) (auto simp: Let_def split: if_splits)

lemma fgetline_length:
  assumes "xmalloc_fgetline f = Some (l, r)"
  shows "length l + length r \<le> length f \<and> length r < length f"
proof -
  have "length (c_str b) \<le> length b" for b by (simp add: c_str_def length_takeWhile_le)
  then show ?thesis
    using assms xmalloc_fgetline_shorter [OF assms] chunk_loop_length [of True "[]" f]
    by (auto simp: xmalloc_fgetline_def bb_get_chunk_from_file_def bb_get_chunk_with_continuation_def
        split: if_splits prod.splits)
      (metis add_le_mono1 diff_le_self length_butlast order_trans add_diff_cancel_right')+
qed

lemma getlines_bounds: "length (getlines f) \<le> length f \<and> (\<forall>l \<in> set (getlines f). length l \<le> length f)"
proof (induction f rule: getlines.induct)
  case (1 f)
  show ?case
  proof (cases "xmalloc_fgetline f")
    case (Some p)
    obtain l r where p: "p = (l, r)" by fastforce
    note b = fgetline_length [OF Some [unfolded p]]
    then show ?thesis using 1 [OF Some p [symmetric]] Some p by (subst (1 2) getlines.simps) fastforce
  qed (subst (1 2) getlines.simps, simp)
qed

end
