(* ===== verification/HashCore.thy ===== *)
theory HashCore
  imports Fdio Lines
begin

text \<open>
  What the hash functions of \<open>libbb\<close> share: the split of a message into blocks, conversions
  between words and bytes, the interface of a hash algorithm (a context that is begun, fed any
  number of pieces, each as long as a \<open>size_t\<close> can say, and finished) and, proved once for every algorithm with that interface, the
  read loop and the programs of \<open>coreutils/md5_sha1_sum.c\<close>.
\<close>

section \<open>Blocks\<close>

function blocks :: "nat \<Rightarrow> bytes \<Rightarrow> bytes list" where
  "blocks n m = (if n = 0 \<or> length m < n then [] else take n m # blocks n (drop n m))"
  by pat_completeness auto
termination by (relation "measure (\<lambda>(n, m). length m)") auto

declare blocks.simps [simp del]

lemma blocks_short: "length m < n \<Longrightarrow> blocks n m = []"
  by (subst blocks.simps) simp

lemma blocks_one: "0 < n \<Longrightarrow> length a = n \<Longrightarrow> blocks n (a @ b) = a # blocks n b"
  by (subst blocks.simps) simp

lemma blocks_append:
  "0 < n \<Longrightarrow> length a mod n = 0 \<Longrightarrow> blocks n (a @ b) = blocks n a @ blocks n b"
proof (induction n a rule: blocks.induct)
  case (1 n a)
  show ?case
  proof (cases "length a < n")
    case True
    then have "a = []" using 1 by simp
    then show ?thesis using 1 by (simp add: blocks_short)
  next
    case False
    then have "length (drop n a) mod n = 0" using 1 by (simp add: le_mod_geq mod_if)
    then show ?thesis
      using 1 False by (subst (1 2) blocks.simps) simp
  qed
qed

lemma blocks_numeral:
  "blocks (numeral k) m = (if length m < numeral k then [] else take (numeral k) m # blocks (numeral k) (drop (numeral k) m))"
  by (subst blocks.simps) simp

lemma replicate_num: "replicate (numeral k) x = x # replicate (pred_numeral k) x"
  by (simp add: numeral_eq_Suc)

lemma char_of_small: "char_of (0 :: nat) = NUL" "char_of (24 :: nat) = CHR 0x18"
  by (simp_all flip: of_char_eq_iff [where 'a = nat])

text \<open>The part of a message that fills whole blocks, and the rest.\<close>

definition whole :: "nat \<Rightarrow> bytes \<Rightarrow> bytes" where
  "whole n m = take (length m - length m mod n) m"

definition rest :: "nat \<Rightarrow> bytes \<Rightarrow> bytes" where
  "rest n m = drop (length m - length m mod n) m"

lemma whole_rest [simp]: "whole n m @ rest n m = m"
  by (simp add: whole_def rest_def)

lemma length_rest [simp]: "length (rest n m) = length m mod n"
  by (simp add: rest_def)

lemma length_whole_mod: "length (whole n m) mod n = 0"
proof -
  have "length (whole n m) = length m - length m mod n" by (simp add: whole_def)
  then show ?thesis by (simp only: minus_mod_eq_mult_div) simp
qed

lemma whole_rest_unique:
  assumes "length a mod n = 0" "length b < n"
  shows "whole n (a @ b) = a" "rest n (a @ b) = b"
proof -
  have "(length a + length b) mod n = length b" using assms by (metis add_0 mod_add_left_eq mod_less)
  then show "whole n (a @ b) = a" "rest n (a @ b) = b" by (simp_all add: whole_def rest_def)
qed

lemma whole_nil [simp]: "whole n [] = []" "rest n [] = []"
  by (simp_all add: whole_def rest_def)

text \<open>\<open>memcpy\<close> into the middle of a buffer.\<close>

definition blit :: "nat \<Rightarrow> bytes \<Rightarrow> bytes \<Rightarrow> bytes" where
  "blit off src dst = take off dst @ src @ drop (off + length src) dst"

lemma length_blit [simp]: "off + length src \<le> length dst \<Longrightarrow> length (blit off src dst) = length dst"
  by (simp add: blit_def)

lemma take_blit: "off + length src \<le> length dst \<Longrightarrow> take (off + length src) (blit off src dst) = take off dst @ src"
  by (simp add: blit_def)

lemma blit_mark_zeros:
  "length buf = N \<Longrightarrow> n < N \<Longrightarrow>
   blit (n + 1) (replicate (N - (n + 1)) NUL) (blit n [x] buf) = take n buf @ x # replicate (N - (n + 1)) NUL"
  by (simp add: blit_def)

section \<open>Words and bytes\<close>

definition le32 :: "bytes \<Rightarrow> u32" where
  "le32 b = of_char (b ! 0) OR push_bit 8 (of_char (b ! 1)) OR push_bit 16 (of_char (b ! 2)) OR push_bit 24 (of_char (b ! 3))"

definition be32 :: "bytes \<Rightarrow> u32" where
  "be32 b = le32 (rev (take 4 b))"

definition be64 :: "bytes \<Rightarrow> u64" where
  "be64 b = foldl (\<lambda>a c. push_bit 8 a OR of_char c) 0 (take 8 b)"

definition le_bytes :: "nat \<Rightarrow> 'a::len word \<Rightarrow> bytes" where
  "le_bytes n w = map (\<lambda>i. char_of (unat (drop_bit (8 * i) w))) [0..<n]"

definition be_bytes :: "nat \<Rightarrow> 'a::len word \<Rightarrow> bytes" where
  "be_bytes n w = rev (le_bytes n w)"

lemma length_le_bytes [simp]: "length (le_bytes n w) = n" "length (be_bytes n w) = n"
  by (simp_all add: le_bytes_def be_bytes_def)

definition words_of :: "nat \<Rightarrow> (bytes \<Rightarrow> 'a) \<Rightarrow> bytes \<Rightarrow> 'a list" where
  "words_of n f b = map f (blocks n b)"

section \<open>Hexadecimal output\<close>

text \<open>\<open>bin2hex\<close> of \<open>libbb/xfuncs.c\<close> with \<open>bb_hexdigits_upcase\<close> folded to lower case.\<close>

fun bin2hex :: "bytes \<Rightarrow> string" where
  "bin2hex [] = []"
| "bin2hex (c # cp) =
     (let n = (of_char c :: nat) in hex_digit (n div 16) # hex_digit (n mod 16) # bin2hex cp)"

lemma length_bin2hex: "length (bin2hex b) = 2 * length b"
  by (induction b) (simp_all add: Let_def)

lemma hex_digit_not_space: "hex_digit n \<noteq> CHR '' ''" "hex_digit n \<noteq> CHR 0x0A" "hex_digit n \<noteq> NUL"
  using hex_val_hex_digit [of n] by (auto simp: hex_val_def)

lemma bin2hex_chars: "CHR '' '' \<notin> set (bin2hex b)" "CHR 0x0A \<notin> set (bin2hex b)" "NUL \<notin> set (bin2hex b)"
  by (induction b) (simp_all add: Let_def hex_digit_not_space [symmetric])

section \<open>Hashing a file\<close>

text \<open>The read loop of \<open>hash_file\<close>; \<open>None\<close> is a read error.\<close>

function hash_loop :: "(bytes \<Rightarrow> 'c \<Rightarrow> 'c) \<Rightarrow> fd \<Rightarrow> 'c \<Rightarrow> 'c option" where
  "hash_loop update f ctx =
     (case safe_read 4096 f of
        (None, f') \<Rightarrow> None
      | (Some b, f') \<Rightarrow> if b = [] then Some ctx else hash_loop update f' (update b ctx))"
  by pat_completeness auto
termination by (relation "measure (\<lambda>(u, f, c). length (fd_data f))") (auto dest: safe_read_shrinks [OF sym])

declare hash_loop.simps [simp del]

definition hash_bin_to_hex :: "bytes \<Rightarrow> string" where
  "hash_bin_to_hex v = bin2hex v"

text \<open>
  \<open>hash_file\<close>: \<open>files\<close> is what \<open>open_or_warn_stdin\<close> returns for a name, the three functions are
  those the program's name selects.
\<close>

definition hash_file :: "'c \<Rightarrow> (bytes \<Rightarrow> 'c \<Rightarrow> 'c) \<Rightarrow> ('c \<Rightarrow> bytes) \<Rightarrow> (string \<Rightarrow> fd option) \<Rightarrow> string \<Rightarrow> string option" where
  "hash_file ctx update final files name =
     (case files name of
        None \<Rightarrow> None
      | Some f \<Rightarrow> map_option (\<lambda>c. hash_bin_to_hex (final c)) (hash_loop update f ctx))"

section \<open>The interface of a hash algorithm\<close>

text \<open>
  \<open>fed m c\<close> says that the context \<open>c\<close> has been fed the message \<open>m\<close>; \<open>digest\<close> is the hash of a
  whole message.
\<close>

locale hash_algo =
  fixes start :: 'c and update :: "bytes \<Rightarrow> 'c \<Rightarrow> 'c" and final :: "'c \<Rightarrow> bytes"
    and fed :: "bytes \<Rightarrow> 'c \<Rightarrow> bool" and digest :: "bytes \<Rightarrow> bytes"
  assumes fed_start: "fed [] start"
    and fed_update: "fed m c \<Longrightarrow> length b < 2 ^ 64 \<Longrightarrow> fed (m @ b) (update b c)"
    and fed_final: "fed m c \<Longrightarrow> final c = digest m"
begin

lemma fed_pieces:
  "fed m c \<Longrightarrow> list_all (\<lambda>b. length b < 2 ^ 64) bs \<Longrightarrow> fed (m @ concat bs) (fold update bs c)"
proof (induction bs arbitrary: m c)
  case (Cons b bs)
  then show ?case using Cons.IH [OF fed_update [OF Cons.prems(1), of b]] by simp
qed simp

lemma pieces_digest:
  "list_all (\<lambda>b. length b < 2 ^ 64) bs \<Longrightarrow> final (fold update bs start) = digest (concat bs)"
  using fed_pieces [OF fed_start, of bs] fed_final by simp

lemma hash_loop_fed:
  "fed m c \<Longrightarrow> feeds f d \<Longrightarrow> \<exists>c'. hash_loop update f c = Some c' \<and> fed (m @ d) c'"
proof (induction "length d" arbitrary: m c f d rule: less_induct)
  case less
  obtain b f' where r: "safe_read 4096 f = (Some b, f')"
    using safe_read_no_error less.prems(2) by (metis feeds_def)
  note rs = safe_read_Some [OF r]
  have f': "feeds f' (fd_data f')" "d = b @ fd_data f'" using rs less.prems(2) by (auto simp: feeds_def)
  show ?case
  proof (cases "b = []")
    case True
    then have "d = []" using rs less.prems(2) by (auto simp: feeds_def)
    then show ?thesis using True r less.prems(1) by (subst hash_loop.simps) simp
  next
    case False
    have "length (fd_data f') < length d" using f'(2) False by simp
    moreover have "length b < 2 ^ 64" using rs by simp
    ultimately have "\<exists>c'. hash_loop update f' (update b c) = Some c' \<and> fed ((m @ b) @ fd_data f') c'"
      using less.hyps fed_update [OF less.prems(1)] f'(1) by blast
    then show ?thesis using r False f'(2) by (subst hash_loop.simps) simp
  qed
qed

lemma hash_file_digest:
  "files name = Some f \<Longrightarrow> feeds f d \<Longrightarrow> hash_file start update final files name = Some (bin2hex (digest d))"
  using hash_loop_fed [OF fed_start, of f d] fed_final by (auto simp: hash_file_def hash_bin_to_hex_def)

end

section \<open>The checksum programs\<close>

text \<open>\<open>strstr\<close>: the text before the first match and the text from the match on.\<close>

fun strstr :: "string \<Rightarrow> string \<Rightarrow> (string \<times> string) option" where
  "strstr [] pat = (if pat = [] then Some ([], []) else None)"
| "strstr (c # s) pat =
     (if take (length pat) (c # s) = pat then Some ([], c # s)
      else map_option (\<lambda>(a, b). (c # a, b)) (strstr s pat))"

record sum_result =
  s_out :: string
  s_total :: nat
  s_failed :: nat
  s_ok :: bool

text \<open>One line of a checksum file under \<open>-c\<close>; \<open>hash\<close> is \<open>hash_file\<close> of the program.\<close>

definition check_line :: "(string \<Rightarrow> string option) \<Rightarrow> bool \<Rightarrow> string \<Rightarrow> sum_result \<Rightarrow> sum_result" where
  "check_line hash silent line r =
     (let r1 = r\<lparr>s_total := Suc (s_total r)\<rparr>;
          found = (case strstr line ''  '' of None \<Rightarrow> strstr line '' *'' | Some p \<Rightarrow> Some p)
      in case found of
           None \<Rightarrow> r1\<lparr>s_failed := Suc (s_failed r1), s_ok := False\<rparr>
         | Some (stored, q) \<Rightarrow>
             let name = drop 2 q in
             if hash name = Some stored
             then r1\<lparr>s_out := s_out r1 @ (if silent then [] else name @ '': OK'' @ [NL])\<rparr>
             else r1\<lparr>s_out := s_out r1 @ (if silent then [] else name @ '': FAILED'' @ [NL]),
                     s_failed := Suc (s_failed r1), s_ok := False\<rparr>)"

definition sum_line :: "(string \<Rightarrow> string option) \<Rightarrow> string \<Rightarrow> sum_result \<Rightarrow> sum_result" where
  "sum_line hash name r =
     (case hash name of
        None \<Rightarrow> r\<lparr>s_ok := False\<rparr>
      | Some h \<Rightarrow> r\<lparr>s_out := s_out r @ h @ ''  '' @ name @ [NL]\<rparr>)"

definition sum_init :: sum_result where
  "sum_init = \<lparr>s_out = [], s_total = 0, s_failed = 0, s_ok = True\<rparr>"

datatype sum_error = SilentNeedsCheck | WarnNeedsCheck | OneArgument | CannotOpen

text \<open>
  \<open>md5_sha1_sum_main\<close> after option parsing (\<open>FEATURE_MD5_SHA1_SUM_CHECK\<close> on): flags \<open>-s\<close>, \<open>-c\<close>,
  \<open>-w\<close> and the file names. \<open>-w\<close> only adds messages on standard error, which are not modelled.
\<close>

definition md5_sha1_sum_main ::
  "(string \<Rightarrow> string option) \<Rightarrow> (string \<Rightarrow> fd option) \<Rightarrow> bool \<Rightarrow> bool \<Rightarrow> bool \<Rightarrow> string list \<Rightarrow> sum_error + sum_result" where
  "md5_sha1_sum_main hash files silent check warn argv0 =
     (let argv = (if argv0 = [] then [''-''] else argv0) in
      if \<not> check \<and> silent then Inl SilentNeedsCheck
      else if \<not> check \<and> warn then Inl WarnNeedsCheck
      else if check then
        (if tl argv \<noteq> [] then Inl OneArgument
         else case files (hd argv) of
                None \<Rightarrow> Inl CannotOpen
              | Some f \<Rightarrow> Inr (fold (check_line hash silent) (getlines (fd_data f)) sum_init))
      else Inr (fold (sum_line hash) argv sum_init))"

lemma strstr_hash:
  assumes "CHR '' '' \<notin> set h"
  shows "strstr (h @ ''  '' @ n) ''  '' = Some (h, ''  '' @ n)"
  using assms by (induction h) auto

lemma check_own_line:
  assumes "hash n = Some h" "CHR '' '' \<notin> set h"
  shows "check_line hash silent (h @ ''  '' @ n) r
    = r\<lparr>s_out := s_out r @ (if silent then [] else n @ '': OK'' @ [NL]), s_total := Suc (s_total r)\<rparr>"
  using assms strstr_hash [OF assms(2), of n] by (simp add: check_line_def Let_def)

lemma check_own_lines:
  assumes "\<And>n. n \<in> set ns \<Longrightarrow> \<exists>h. hash n = Some h \<and> CHR '' '' \<notin> set h"
  shows "fold (check_line hash silent) (map (\<lambda>n. the (hash n) @ ''  '' @ n) ns) r
    = r\<lparr>s_out := s_out r @ (if silent then [] else concat (map (\<lambda>n. n @ '': OK'' @ [NL]) ns)),
        s_total := s_total r + length ns\<rparr>"
  using assms
proof (induction ns arbitrary: r)
  case (Cons n ns)
  obtain h where h: "hash n = Some h" "CHR '' '' \<notin> set h" using Cons.prems [of n] by auto
  show ?case using Cons check_own_line [of hash n h silent r] h by simp
qed simp

lemma sum_lines:
  assumes "\<And>n. n \<in> set ns \<Longrightarrow> \<exists>h. hash n = Some h"
  shows "fold (sum_line hash) ns r
    = r\<lparr>s_out := s_out r @ concat (map (\<lambda>n. the (hash n) @ ''  '' @ n @ [NL]) ns)\<rparr>"
  using assms
proof (induction ns arbitrary: r)
  case (Cons n ns)
  obtain h where "hash n = Some h" using Cons.prems [of n] by auto
  with Cons show ?case by (simp add: sum_line_def)
qed simp

lemma hash_file_chars:
  "hash_file c u fin files n = Some h \<Longrightarrow> CHR '' '' \<notin> set h \<and> NL \<notin> set h \<and> NUL \<notin> set h"
  using bin2hex_chars by (auto simp: hash_file_def hash_bin_to_hex_def split: option.splits)


text \<open>A line that makes \<open>-c\<close> succeed: it names a file whose hash is the stored one.\<close>

definition line_matches :: "(string \<Rightarrow> string option) \<Rightarrow> string \<Rightarrow> bool" where
  "line_matches hash line =
     (case (case strstr line ''  '' of None \<Rightarrow> strstr line '' *'' | Some p \<Rightarrow> Some p) of
        None \<Rightarrow> False
      | Some (stored, q) \<Rightarrow> hash (drop 2 q) = Some stored)"

lemma check_line_ok: "s_ok (check_line hash silent line r) \<longleftrightarrow> s_ok r \<and> line_matches hash line"
  by (auto simp: check_line_def line_matches_def Let_def split: option.splits)

lemma check_line_failed:
  "s_failed (check_line hash silent line r) = s_failed r + (if line_matches hash line then 0 else 1)"
  by (auto simp: check_line_def line_matches_def Let_def split: option.splits)




end
