(* ===== verification/Md5.thy ===== *)
theory Md5
  imports HashCore
begin

text \<open>
  MD5 as in \<open>libbb/md5.c\<close>, with which \<open>flash.sh\<close> checks every image before it is written. The
  block function is modelled in each of the four variants that \<open>MD5_SIZE_VS_SPEED\<close> selects:
  unrolled (0), four loops over quadruples of steps (1), four loops of sixteen steps (2) and one
  loop of 64 steps (3). The words of a block are read in little-endian order, which is what
  \<open>SWAP_LE32\<close> yields on any host.
\<close>

record md5_ctx =
  mA :: u32
  mB :: u32
  mC :: u32
  mD :: u32
  md_total :: u64
  buflen :: nat
  md_buffer :: bytes

definition md5_begin :: "md5_ctx \<Rightarrow> md5_ctx" where
  "md5_begin ctx = ctx\<lparr>mA := 0x67452301, mB := 0xefcdab89, mC := 0x98badcfe, mD := 0x10325476, md_total := 0, buflen := 0\<rparr>"

section \<open>The block function\<close>

definition FF :: "u32 \<Rightarrow> u32 \<Rightarrow> u32 \<Rightarrow> u32" where "FF b c d = d XOR (b AND (c XOR d))"
definition FG :: "u32 \<Rightarrow> u32 \<Rightarrow> u32 \<Rightarrow> u32" where "FG b c d = FF d b c"
definition FH :: "u32 \<Rightarrow> u32 \<Rightarrow> u32 \<Rightarrow> u32" where "FH b c d = b XOR c XOR d"
definition FI :: "u32 \<Rightarrow> u32 \<Rightarrow> u32 \<Rightarrow> u32" where "FI b c d = c XOR (b OR NOT d)"

definition rotl32 :: "u32 \<Rightarrow> nat \<Rightarrow> u32" where "rotl32 w s = push_bit s w OR drop_bit (32 - s) w"

type_synonym regs = "u32 \<times> u32 \<times> u32 \<times> u32"
type_synonym md5_fun = "u32 \<Rightarrow> u32 \<Rightarrow> u32 \<Rightarrow> u32"

text \<open>The macro \<open>OP\<close>, by the register it is given as its first argument.\<close>

definition op_val :: "md5_fun \<Rightarrow> u32 \<Rightarrow> u32 \<Rightarrow> u32 \<Rightarrow> u32 \<Rightarrow> u32 \<Rightarrow> nat \<Rightarrow> u32 \<Rightarrow> u32" where
  "op_val f a b c d x s T = rotl32 (a + (f b c d + x + T)) s + b"

datatype reg = RA | RB | RC | RD

fun OP :: "reg \<Rightarrow> md5_fun \<Rightarrow> u32 \<Rightarrow> nat \<Rightarrow> u32 \<Rightarrow> regs \<Rightarrow> regs" where
  "OP RA f x s T (A, B, C, D) = (op_val f A B C D x s T, B, C, D)"
| "OP RD f x s T (A, B, C, D) = (A, B, C, op_val f D A B C x s T)"
| "OP RC f x s T (A, B, C, D) = (A, B, op_val f C D A B x s T, D)"
| "OP RB f x s T (A, B, C, D) = (A, op_val f B C D A x s T, C, D)"

definition C_array :: "u32 list" where
  "C_array = [
     0xd76aa478, 0xe8c7b756, 0x242070db, 0xc1bdceee,
     0xf57c0faf, 0x4787c62a, 0xa8304613, 0xfd469501,
     0x698098d8, 0x8b44f7af, 0xffff5bb1, 0x895cd7be,
     0x6b901122, 0xfd987193, 0xa679438e, 0x49b40821,
     0xf61e2562, 0xc040b340, 0x265e5a51, 0xe9b6c7aa,
     0xd62f105d, 0x2441453, 0xd8a1e681, 0xe7d3fbc8,
     0x21e1cde6, 0xc33707d6, 0xf4d50d87, 0x455a14ed,
     0xa9e3e905, 0xfcefa3f8, 0x676f02d9, 0x8d2a4c8a,
     0xfffa3942, 0x8771f681, 0x6d9d6122, 0xfde5380c,
     0xa4beea44, 0x4bdecfa9, 0xf6bb4b60, 0xbebfbc70,
     0x289b7ec6, 0xeaa127fa, 0xd4ef3085, 0x4881d05,
     0xd9d4d039, 0xe6db99e5, 0x1fa27cf8, 0xc4ac5665,
     0xf4292244, 0x432aff97, 0xab9423a7, 0xfc93a039,
     0x655b59c3, 0x8f0ccc92, 0xffeff47d, 0x85845dd1,
     0x6fa87e4f, 0xfe2ce6e0, 0xa3014314, 0x4e0811a1,
     0xf7537e82, 0xbd3af235, 0x2ad7d2bb, 0xeb86d391]"

definition P_array :: "nat list" where
  "P_array = [
     0, 1, 2, 3, 4, 5, 6, 7, 8, 9, 10, 11, 12, 13, 14, 15,
     1, 6, 11, 0, 5, 10, 15, 4, 9, 14, 3, 8, 13, 2, 7, 12,
     5, 8, 11, 14, 1, 4, 7, 10, 13, 0, 3, 6, 9, 12, 15, 2,
     0, 7, 14, 5, 12, 3, 10, 1, 8, 15, 6, 13, 4, 11, 2, 9]"

definition S_array :: "nat list" where
  "S_array = [7, 12, 17, 22, 5, 9, 14, 20, 4, 11, 16, 23, 6, 10, 15, 21]"

text \<open>Variant 0, the 64 \<open>OP\<close> lines of the source: register, function, word, rotation, constant.\<close>

definition unrolled :: "(reg \<times> md5_fun \<times> nat \<times> nat \<times> u32) list" where
  "unrolled = [
     (RA, FF, 0, 7, 0xd76aa478), (RD, FF, 1, 12, 0xe8c7b756), (RC, FF, 2, 17, 0x242070db), (RB, FF, 3, 22, 0xc1bdceee),
     (RA, FF, 4, 7, 0xf57c0faf), (RD, FF, 5, 12, 0x4787c62a), (RC, FF, 6, 17, 0xa8304613), (RB, FF, 7, 22, 0xfd469501),
     (RA, FF, 8, 7, 0x698098d8), (RD, FF, 9, 12, 0x8b44f7af), (RC, FF, 10, 17, 0xffff5bb1), (RB, FF, 11, 22, 0x895cd7be),
     (RA, FF, 12, 7, 0x6b901122), (RD, FF, 13, 12, 0xfd987193), (RC, FF, 14, 17, 0xa679438e), (RB, FF, 15, 22, 0x49b40821),
     (RA, FG, 1, 5, 0xf61e2562), (RD, FG, 6, 9, 0xc040b340), (RC, FG, 11, 14, 0x265e5a51), (RB, FG, 0, 20, 0xe9b6c7aa),
     (RA, FG, 5, 5, 0xd62f105d), (RD, FG, 10, 9, 0x02441453), (RC, FG, 15, 14, 0xd8a1e681), (RB, FG, 4, 20, 0xe7d3fbc8),
     (RA, FG, 9, 5, 0x21e1cde6), (RD, FG, 14, 9, 0xc33707d6), (RC, FG, 3, 14, 0xf4d50d87), (RB, FG, 8, 20, 0x455a14ed),
     (RA, FG, 13, 5, 0xa9e3e905), (RD, FG, 2, 9, 0xfcefa3f8), (RC, FG, 7, 14, 0x676f02d9), (RB, FG, 12, 20, 0x8d2a4c8a),
     (RA, FH, 5, 4, 0xfffa3942), (RD, FH, 8, 11, 0x8771f681), (RC, FH, 11, 16, 0x6d9d6122), (RB, FH, 14, 23, 0xfde5380c),
     (RA, FH, 1, 4, 0xa4beea44), (RD, FH, 4, 11, 0x4bdecfa9), (RC, FH, 7, 16, 0xf6bb4b60), (RB, FH, 10, 23, 0xbebfbc70),
     (RA, FH, 13, 4, 0x289b7ec6), (RD, FH, 0, 11, 0xeaa127fa), (RC, FH, 3, 16, 0xd4ef3085), (RB, FH, 6, 23, 0x04881d05),
     (RA, FH, 9, 4, 0xd9d4d039), (RD, FH, 12, 11, 0xe6db99e5), (RC, FH, 15, 16, 0x1fa27cf8), (RB, FH, 2, 23, 0xc4ac5665),
     (RA, FI, 0, 6, 0xf4292244), (RD, FI, 7, 10, 0x432aff97), (RC, FI, 14, 15, 0xab9423a7), (RB, FI, 5, 21, 0xfc93a039),
     (RA, FI, 12, 6, 0x655b59c3), (RD, FI, 3, 10, 0x8f0ccc92), (RC, FI, 10, 15, 0xffeff47d), (RB, FI, 1, 21, 0x85845dd1),
     (RA, FI, 8, 6, 0x6fa87e4f), (RD, FI, 15, 10, 0xfe2ce6e0), (RC, FI, 6, 15, 0xa3014314), (RB, FI, 13, 21, 0x4e0811a1),
     (RA, FI, 4, 6, 0xf7537e82), (RD, FI, 11, 10, 0xbd3af235), (RC, FI, 2, 15, 0x2ad7d2bb), (RB, FI, 9, 21, 0xeb86d391)]"

definition rounds_v0 :: "u32 list \<Rightarrow> regs \<Rightarrow> regs" where
  "rounds_v0 cwp r = fold (\<lambda>(reg, f, k, s, T). OP reg f (cwp ! k) s T) unrolled r"

text \<open>Variant 1: in each round four times the four \<open>OP\<close>s, with the constants from \<open>C_array\<close>; the
  first round takes the words in order, the others as \<open>P_array\<close> says.\<close>

definition quad :: "md5_fun \<Rightarrow> nat \<times> nat \<times> nat \<times> nat \<Rightarrow> u32 list \<Rightarrow> nat list \<Rightarrow> u32 list \<Rightarrow> nat \<Rightarrow> regs \<Rightarrow> regs" where
  "quad f = (\<lambda>(s0, s1, s2, s3) cwp pp pc i r.
     OP RB f (cwp ! (pp ! (i + 3))) s3 (pc ! (i + 3)) (OP RC f (cwp ! (pp ! (i + 2))) s2 (pc ! (i + 2))
       (OP RD f (cwp ! (pp ! (i + 1))) s1 (pc ! (i + 1)) (OP RA f (cwp ! (pp ! i)) s0 (pc ! i) r))))"

definition rounds_v1 :: "u32 list \<Rightarrow> regs \<Rightarrow> regs" where
  "rounds_v1 cwp r =
     (let pp = drop 16 P_array;
          r1 = fold (\<lambda>i. quad FF (7, 12, 17, 22) cwp [0..<16] C_array (4 * i)) [0..<4] r;
          r2 = fold (\<lambda>i. quad FG (5, 9, 14, 20) cwp pp (drop 16 C_array) (4 * i)) [0..<4] r1;
          r3 = fold (\<lambda>i. quad FH (4, 11, 16, 23) cwp (drop 16 pp) (drop 32 C_array) (4 * i)) [0..<4] r2
      in fold (\<lambda>i. quad FI (6, 10, 15, 21) cwp (drop 32 pp) (drop 48 C_array) (4 * i)) [0..<4] r3)"

text \<open>The step of variants 2 and 3, which moves the registers around.\<close>

definition turn :: "md5_fun \<Rightarrow> u32 \<Rightarrow> nat \<Rightarrow> u32 \<Rightarrow> regs \<Rightarrow> regs" where
  "turn f x s T = (\<lambda>(A, B, C, D). (D, rotl32 (A + f B C D + x + T) s + B, B, C))"

definition rounds_v2 :: "u32 list \<Rightarrow> regs \<Rightarrow> regs" where
  "rounds_v2 cwp r =
     (let loop = (\<lambda>f n. fold (\<lambda>i. turn f (cwp ! (P_array ! (16 * n + i))) (S_array ! (4 * n + i mod 4)) (C_array ! (16 * n + i))) [0..<16])
      in loop FI 3 (loop FH 2 (loop FG 1 (loop FF 0 r))))"

definition round_fun :: "nat \<Rightarrow> md5_fun" where
  "round_fun n = (if n = 0 then FF else if n = 1 then FG else if n = 2 then FH else FI)"

definition rounds_v3 :: "u32 list \<Rightarrow> regs \<Rightarrow> regs" where
  "rounds_v3 cwp r =
     fold (\<lambda>i. turn (round_fun (i div 16)) (cwp ! (P_array ! i)) (S_array ! (4 * (i div 16) + i mod 4)) (C_array ! i)) [0..<64] r"

definition md5_rounds :: "nat \<Rightarrow> u32 list \<Rightarrow> regs \<Rightarrow> regs" where
  "md5_rounds size_vs_speed =
     (if size_vs_speed = 0 then rounds_v0 else if size_vs_speed = 1 then rounds_v1
      else if size_vs_speed = 2 then rounds_v2 else rounds_v3)"

definition md5_compress :: "nat \<Rightarrow> bytes \<Rightarrow> regs \<Rightarrow> regs" where
  "md5_compress v buf r =
     (let (A, B, C, D) = r; (A', B', C', D') = md5_rounds v (words_of 4 le32 buf) r
      in (A' + A, B' + B, C' + C, D' + D))"

definition md5_hash_block :: "nat \<Rightarrow> bytes \<Rightarrow> md5_ctx \<Rightarrow> md5_ctx" where
  "md5_hash_block v buf ctx =
     (let (A, B, C, D) = md5_compress v buf (mA ctx, mB ctx, mC ctx, mD ctx)
      in ctx\<lparr>mA := A, mB := B, mC := C, mD := D\<rparr>)"

section \<open>Streaming\<close>

function md5_hash_loop :: "nat \<Rightarrow> bytes \<Rightarrow> md5_ctx \<Rightarrow> md5_ctx" where
  "md5_hash_loop v buf ctx =
     (if buf = [] then ctx
      else
        let i = min (64 - buflen ctx) (length buf);
            ctx1 = ctx\<lparr>buflen := buflen ctx + i, md_buffer := blit (buflen ctx) (take i buf) (md_buffer ctx)\<rparr>;
            ctx2 = (if buflen ctx1 = 64 then (md5_hash_block v (take 64 (md_buffer ctx1)) ctx1)\<lparr>buflen := 0\<rparr> else ctx1)
        in if buflen ctx < 64 then md5_hash_loop v (drop i buf) ctx2 else ctx)"
  by pat_completeness auto
termination by (relation "measure (\<lambda>(v, buf, ctx). length buf)") auto

declare md5_hash_loop.simps [simp del]

definition md5_hash :: "nat \<Rightarrow> bytes \<Rightarrow> md5_ctx \<Rightarrow> md5_ctx" where
  "md5_hash v buf ctx = md5_hash_loop v buf (ctx\<lparr>md_total := md_total ctx + of_nat (length buf)\<rparr>)"

definition md5_end :: "nat \<Rightarrow> md5_ctx \<Rightarrow> bytes" where
  "md5_end v ctx =
     (let b1 = blit (buflen ctx) [CHR 0x80] (md_buffer ctx);
          n = buflen ctx + 1;
          b2 = blit n (replicate (128 - n) NUL) b1;
          tot = push_bit 3 (md_total ctx);
          off = (if n > 56 then 64 else 0);
          b3 = blit (off + 56) (le_bytes 8 tot) b2;
          ctx1 = ctx\<lparr>buflen := n, md_total := tot, md_buffer := b3\<rparr>;
          ctx2 = (if off \<noteq> 0 then md5_hash_block v (take 64 b3) ctx1 else ctx1);
          ctx3 = md5_hash_block v (take 64 (drop off b3)) ctx2
      in le_bytes 4 (mA ctx3) @ le_bytes 4 (mB ctx3) @ le_bytes 4 (mC ctx3) @ le_bytes 4 (mD ctx3))"

section \<open>The four variants agree\<close>

lemma turn_quad:
  "turn f x3 s3 T3 (turn f x2 s2 T2 (turn f x1 s1 T1 (turn f x0 s0 T0 r)))
   = OP RB f x3 s3 T3 (OP RC f x2 s2 T2 (OP RD f x1 s1 T1 (OP RA f x0 s0 T0 r)))"
  by (cases r) (simp add: turn_def op_val_def add.assoc)

lemma upt_16: "[0..<16] = [0, 1, 2, 3, 4, 5, 6, 7, 8, 9, 10, 11, 12, 13, 14, 15 :: nat]"
  by (simp add: upt_rec)

lemma upt_4: "[0..<4] = [0, 1, 2, 3 :: nat]"
  by (simp add: upt_rec)

lemma rounds_v2_v0: "rounds_v2 cwp r = rounds_v0 cwp r"
  unfolding rounds_v2_def rounds_v0_def unrolled_def upt_16 Let_def
  by (simp add: C_array_def P_array_def S_array_def turn_quad)

lemma rounds_v1_v0: "rounds_v1 cwp r = rounds_v0 cwp r"
  unfolding rounds_v1_def rounds_v0_def unrolled_def Let_def upt_4 upt_16
  by (simp add: C_array_def P_array_def quad_def)

lemma upt_64: "[0..<64] = [0..<16] @ map ((+) 16) [0..<16] @ map ((+) 32) [0..<16] @ map ((+) (48::nat)) [0..<16]"
  by (simp add: upt_16 upt_rec)

lemma rounds_v3_v2: "rounds_v3 cwp r = rounds_v2 cwp r"
  unfolding rounds_v3_def rounds_v2_def upt_64 Let_def
  by (simp add: upt_16 round_fun_def C_array_def P_array_def S_array_def)

lemma md5_rounds_any: "md5_rounds v = rounds_v0"
  by (auto simp: md5_rounds_def fun_eq_iff rounds_v1_v0 rounds_v2_v0 rounds_v3_v2)

lemma md5_compress_any: "md5_compress v = md5_compress 0"
  by (simp add: fun_eq_iff md5_compress_def md5_rounds_any)

section \<open>RFC 1321\<close>

text \<open>
  The specification: a 1 bit, zero bits up to 64 bits before a block's end, and the length in
  bits modulo \<open>2^64\<close>, then the block function over the blocks.
\<close>

definition md5_pad :: "bytes \<Rightarrow> bytes" where
  "md5_pad m = m @ CHR 0x80 # replicate ((119 - length m mod 64) mod 64) NUL
     @ le_bytes 8 (of_nat (8 * length m) :: u64)"

definition md5_init :: regs where
  "md5_init = (0x67452301, 0xefcdab89, 0x98badcfe, 0x10325476)"

definition md5_regs :: "bytes \<Rightarrow> regs" where
  "md5_regs m = fold (md5_compress 0) (blocks 64 m) md5_init"

definition regs_bytes :: "regs \<Rightarrow> bytes" where
  "regs_bytes = (\<lambda>(A, B, C, D). le_bytes 4 A @ le_bytes 4 B @ le_bytes 4 C @ le_bytes 4 D)"

definition md5_spec :: "bytes \<Rightarrow> bytes" where
  "md5_spec m = regs_bytes (md5_regs (md5_pad m))"

definition ctx_regs :: "md5_ctx \<Rightarrow> regs" where
  "ctx_regs ctx = (mA ctx, mB ctx, mC ctx, mD ctx)"

definition md5_fed :: "bytes \<Rightarrow> md5_ctx \<Rightarrow> bool" where
  "md5_fed m ctx \<longleftrightarrow> ctx_regs ctx = md5_regs (whole 64 m) \<and> md_total ctx = of_nat (length m)
     \<and> buflen ctx = length m mod 64 \<and> length (md_buffer ctx) = 128 \<and> take (buflen ctx) (md_buffer ctx) = rest 64 m"

lemma ctx_regs_block [simp]: "ctx_regs (md5_hash_block v b ctx) = md5_compress 0 b (ctx_regs ctx)"
  by (simp add: ctx_regs_def md5_hash_block_def md5_compress_any [of v] split: prod.splits)

lemma md5_hash_block_keeps [simp]:
  "md_total (md5_hash_block v b ctx) = md_total ctx" "buflen (md5_hash_block v b ctx) = buflen ctx"
  "md_buffer (md5_hash_block v b ctx) = md_buffer ctx"
  by (simp_all add: md5_hash_block_def split: prod.splits)

lemma md5_regs_block:
  assumes "length w mod 64 = 0" "length b = 64"
  shows "md5_regs (w @ b) = md5_compress 0 b (md5_regs w)"
proof -
  have "blocks 64 (w @ b) = blocks 64 w @ [b]"
    using blocks_append [of 64 w b] blocks_one [of 64 b "[]"] assms by (simp add: blocks_short)
  then show ?thesis by (simp add: md5_regs_def)
qed

text \<open>The loop keeps everything \<open>md5_fed\<close> says but the byte count, which \<open>md5_hash\<close> adds before it.\<close>

definition md5_part :: "bytes \<Rightarrow> md5_ctx \<Rightarrow> bool" where
  "md5_part m ctx \<longleftrightarrow> ctx_regs ctx = md5_regs (whole 64 m)
     \<and> buflen ctx = length m mod 64 \<and> length (md_buffer ctx) = 128 \<and> take (buflen ctx) (md_buffer ctx) = rest 64 m"

lemma md5_hash_loop_total [simp]: "md_total (md5_hash_loop v b ctx) = md_total ctx"
proof (induction v b ctx rule: md5_hash_loop.induct)
  case (1 v buf ctx)
  then show ?case by (subst md5_hash_loop.simps) (simp add: Let_def)
qed

lemma md5_part_step:
  assumes p: "md5_part m ctx" and b: "b \<noteq> []" and len: "buflen ctx + length b \<le> 64"
  defines "c1 \<equiv> ctx\<lparr>buflen := buflen ctx + length b, md_buffer := blit (buflen ctx) b (md_buffer ctx)\<rparr>"
  shows "md5_part (m @ b) (if buflen c1 = 64 then (md5_hash_block v (take 64 (md_buffer c1)) c1)\<lparr>buflen := 0\<rparr> else c1)"
proof -
  have lm: "length (whole 64 m) mod 64 = 0" by (rule length_whole_mod)
  have bl: "buflen ctx = length (rest 64 m)" "length (md_buffer ctx) = 128" "ctx_regs ctx = md5_regs (whole 64 m)"
    using p by (auto simp: md5_part_def)
  have buf: "take (buflen ctx + length b) (md_buffer c1) = rest 64 m @ b"
    using p len take_blit [of "buflen ctx" b "md_buffer ctx"] by (auto simp: md5_part_def c1_def)
  have len1: "length (md_buffer c1) = 128" using bl len by (simp add: c1_def)
  have mb: "m @ b = whole 64 m @ (rest 64 m @ b)" by (metis append.assoc whole_rest)
  have r1: "ctx_regs c1 = ctx_regs ctx" by (simp add: ctx_regs_def c1_def)
  show ?thesis
  proof (cases "buflen ctx + length b = 64")
    case True
    have l: "length (whole 64 m @ rest 64 m @ b) mod 64 = 0" using lm True bl by (simp add: mod_add_left_eq)
    have "whole 64 (m @ b) = whole 64 m @ rest 64 m @ b"
      using whole_rest_unique(1) [OF l, of "[]"] by (subst mb) simp
    then have "md5_regs (whole 64 (m @ b)) = md5_compress 0 (rest 64 m @ b) (md5_regs (whole 64 m))"
      using md5_regs_block [OF lm, of "rest 64 m @ b"] True bl by simp
    moreover have "length (m @ b) mod 64 = 0" using l mb by metis
    moreover have "ctx_regs (c\<lparr>buflen := n\<rparr>) = ctx_regs c" for c n by (simp add: ctx_regs_def)
    ultimately show ?thesis
      using True buf len1 r1 bl(3) by (simp add: md5_part_def c1_def rest_def)
  next
    case False
    have w: "whole 64 (m @ b) = whole 64 m" "rest 64 (m @ b) = rest 64 m @ b"
      using whole_rest_unique [OF lm, of "rest 64 m @ b"] False len bl by (subst mb, simp)+
    have "length (m @ b) mod 64 = buflen ctx + length b"
      using arg_cong [OF w(2), of length] bl by simp
    then show ?thesis using False buf len1 r1 bl(3) w by (simp add: md5_part_def c1_def)
  qed
qed

lemma md5_part_loop: "md5_part m ctx \<Longrightarrow> md5_part (m @ b) (md5_hash_loop v b ctx)"
proof (induction "length b" arbitrary: m ctx b rule: less_induct)
  case less
  show ?case
  proof (cases "b = []")
    case True
    then show ?thesis using less.prems by (subst md5_hash_loop.simps) simp
  next
    case False
    let ?i = "min (64 - buflen ctx) (length b)"
    let ?c1 = "ctx\<lparr>buflen := buflen ctx + ?i, md_buffer := blit (buflen ctx) (take ?i b) (md_buffer ctx)\<rparr>"
    let ?c2 = "if buflen ?c1 = 64 then (md5_hash_block v (take 64 (md_buffer ?c1)) ?c1)\<lparr>buflen := 0\<rparr> else ?c1"
    have bl: "buflen ctx < 64" using less.prems by (simp add: md5_part_def)
    then have ti: "take ?i b \<noteq> []" "length (take ?i b) = ?i" using False by auto
    have "md5_part (m @ take ?i b) ?c2"
      by (rule md5_part_step [OF less.prems ti(1), of v, unfolded ti(2)]) (use bl in simp)
    moreover have "length (drop ?i b) < length b" using False bl by simp
    ultimately have "md5_part ((m @ take ?i b) @ drop ?i b) (md5_hash_loop v (drop ?i b) ?c2)"
      using less.hyps by blast
    moreover have "md5_hash_loop v b ctx = md5_hash_loop v (drop ?i b) ?c2"
      using False bl by (subst md5_hash_loop.simps) (simp only: Let_def if_False if_True)
    ultimately show ?thesis by (metis append.assoc append_take_drop_id)
  qed
qed

lemma md5_fed_update: "md5_fed m ctx \<Longrightarrow> md5_fed (m @ b) (md5_hash v b ctx)"
  using md5_part_loop [of m "ctx\<lparr>md_total := md_total ctx + of_nat (length b)\<rparr>" b v]
  by (auto simp: md5_fed_def md5_part_def md5_hash_def ctx_regs_def)

lemma md5_fed_begin: "length (md_buffer ctx) = 128 \<Longrightarrow> md5_fed [] (md5_begin ctx)"
  by (simp add: md5_fed_def md5_begin_def ctx_regs_def md5_regs_def blocks_short md5_init_def)

text \<open>The last one or two blocks.\<close>

definition md5_tail :: "bytes \<Rightarrow> u64 \<Rightarrow> bytes" where
  "md5_tail r tot = r @ CHR 0x80 # replicate ((119 - length r) mod 64) NUL @ le_bytes 8 tot"

lemma md5_pad_tail: "md5_pad m = whole 64 m @ md5_tail (rest 64 m) (push_bit 3 (of_nat (length m)))"
proof -
  have "(of_nat (8 * length m) :: u64) = push_bit 3 (of_nat (length m))"
    by (simp add: push_bit_eq_mult mult.commute)
  then show ?thesis
    unfolding md5_pad_def md5_tail_def length_rest by (simp only: append.assoc [symmetric] whole_rest)
qed

lemma length_md5_tail: "length r < 64 \<Longrightarrow> length (md5_tail r tot) = (if length r < 56 then 64 else 128)"
proof -
  assume r: "length r < 64"
  have "(119 - length r) mod 64 = (if length r < 56 then 55 - length r else 119 - length r)"
    using r by (auto simp: mod_if)
  then show ?thesis using r by (simp add: md5_tail_def)
qed

lemma md5_end_buffer:
  assumes "length buf = 128" "length r < 64" "take (length r) buf = r"
  defines "b2 \<equiv> blit (length r + 1) (replicate (128 - (length r + 1)) NUL) (blit (length r) [CHR 0x80] buf)"
  shows "length r < 56 \<Longrightarrow> take 64 (blit 56 (le_bytes 8 tot) b2) = md5_tail r tot"
    and "\<not> length r < 56 \<Longrightarrow> blit 120 (le_bytes 8 tot) b2 = md5_tail r tot"
proof -
  have b2: "b2 = r @ CHR 0x80 # replicate (127 - length r) NUL"
    using blit_mark_zeros [of buf 128 "length r"] assms by (simp add: b2_def)
  show "length r < 56 \<Longrightarrow> take 64 (blit 56 (le_bytes 8 tot) b2) = md5_tail r tot"
    using assms(2) by (simp add: b2 blit_def md5_tail_def mod_if take_Cons')
  show "\<not> length r < 56 \<Longrightarrow> blit 120 (le_bytes 8 tot) b2 = md5_tail r tot"
    using assms(2) by (simp add: b2 blit_def md5_tail_def mod_if take_Cons' drop_Cons')
qed

lemma md5_regs_tail:
  assumes "length w mod 64 = 0" "length t = 64 \<or> length t = 128"
  shows "md5_regs (w @ t) = (if length t = 64 then md5_compress 0 t (md5_regs w)
     else md5_compress 0 (drop 64 t) (md5_compress 0 (take 64 t) (md5_regs w)))"
proof (cases "length t = 64")
  case False
  then have "md5_regs ((w @ take 64 t) @ drop 64 t) = md5_compress 0 (drop 64 t) (md5_regs (w @ take 64 t))"
    using assms by (intro md5_regs_block) auto
  then show ?thesis using False assms md5_regs_block [of w "take 64 t"] by simp
qed (use assms md5_regs_block in simp)

lemma md5_end_spec:
  assumes "md5_fed m ctx"
  shows "md5_end v ctx = md5_spec m"
proof -
  let ?r = "rest 64 m" and ?tot = "push_bit 3 (md_total ctx)"
  have c: "buflen ctx = length ?r" "length (md_buffer ctx) = 128" "take (length ?r) (md_buffer ctx) = ?r"
    "ctx_regs ctx = md5_regs (whole 64 m)" "md_total ctx = of_nat (length m)" "length ?r < 64"
    using assms by (auto simp: md5_fed_def)
  note e = md5_end_buffer [OF c(2) c(6) c(3), of ?tot]
  have rb: "le_bytes 4 (mA x) @ le_bytes 4 (mB x) @ le_bytes 4 (mC x) @ le_bytes 4 (mD x) = regs_bytes (ctx_regs x)" for x
    by (simp add: regs_bytes_def ctx_regs_def)
  have cr: "ctx_regs (ctx\<lparr>buflen := n, md_total := t, md_buffer := b\<rparr>) = ctx_regs ctx" for n t b
    by (simp add: ctx_regs_def)
  have "md5_end v ctx = regs_bytes (md5_regs (whole 64 m @ md5_tail ?r ?tot))"
  proof (cases "length ?r < 56")
    case True
    then show ?thesis
      unfolding md5_end_def Let_def rb c(1)
      using e(1) md5_regs_tail [OF length_whole_mod, of "md5_tail ?r ?tot" m] length_md5_tail [OF c(6), of ?tot] c(4)
      by (simp add: cr)
  next
    case False
    then show ?thesis
      unfolding md5_end_def Let_def rb c(1)
      using e(2) md5_regs_tail [OF length_whole_mod, of "md5_tail ?r ?tot" m] length_md5_tail [OF c(6), of ?tot] c(4)
      by (simp add: cr)
  qed
  then show ?thesis by (simp add: md5_spec_def md5_pad_tail c(5))
qed

section \<open>A known digest\<close>

text \<open>The digest of \<open>abc\<close> that RFC 1321 lists, computed in the logic.\<close>

lemma md5_pad_abc: "md5_pad ''abc'' = ''abc'' @ CHR 0x80 # replicate 52 NUL @ [CHR 0x18, NUL, NUL, NUL, NUL, NUL, NUL, NUL]"
  by (simp add: md5_pad_def le_bytes_def upt_rec char_of_small)

lemma md5_words_abc:
  "words_of 4 le32 (''abc'' @ CHR 0x80 # replicate 52 NUL @ [CHR 0x18, NUL, NUL, NUL, NUL, NUL, NUL, NUL])
   = [0x80636261, 0, 0, 0, 0, 0, 0, 0, 0, 0, 0, 0, 0, 0, 0x18, 0]"
  by (simp add: words_of_def replicate_num blocks_numeral le32_def)

lemma md5_rounds_abc:
  "(case md5_rounds 0 [0x80636261, 0, 0, 0, 0, 0, 0, 0, 0, 0, 0, 0, 0, 0, 0x18, 0] md5_init of
     (A, B, C, D) \<Rightarrow> (A + 0x67452301, B + 0xefcdab89, C + 0x98badcfe, D + 0x10325476))
   = (0x98500190, 0xb04fd23c, 0x7d3f96d6, 0x727fe128)"
  by (simp add: md5_rounds_def rounds_v0_def unrolled_def md5_init_def op_val_def rotl32_def FF_def FG_def FH_def FI_def)

lemma md5_abc: "bin2hex (md5_spec ''abc'') = ''900150983cd24fb0d6963f7d28e17f72''"
proof -
  have "blocks 64 (md5_pad ''abc'') = [md5_pad ''abc'']"
    by (simp add: md5_pad_abc blocks_numeral)
  then have "md5_spec ''abc'' = regs_bytes (0x98500190, 0xb04fd23c, 0x7d3f96d6, 0x727fe128)"
    using md5_rounds_abc
    by (simp add: md5_spec_def md5_regs_def md5_compress_def md5_pad_abc md5_words_abc [simplified] md5_init_def split: prod.splits)
  then show ?thesis
    by (simp add: regs_bytes_def le_bytes_def upt_rec hex_digit_def hex_digits_def)
qed

section \<open>Properties of MD5\<close>

text \<open>Any context can be begun: the buffer is uninitialised memory of 128 bytes.\<close>

definition md5_ctx0 :: md5_ctx where
  "md5_ctx0 = md5_begin \<lparr>mA = 0, mB = 0, mC = 0, mD = 0, md_total = 0, buflen = 0, md_buffer = replicate 128 NUL\<rparr>"

interpretation md5: hash_algo md5_ctx0 "md5_hash v" "md5_end v" md5_fed md5_spec
  by unfold_locales (auto simp: md5_ctx0_def intro: md5_fed_begin md5_fed_update md5_end_spec)

text \<open>
  C15. Whatever \<open>MD5_SIZE_VS_SPEED\<close> the program is built with, whatever memory the context
  started as and however the message is cut into the pieces fed to \<open>md5_hash\<close>, the result is the
  RFC 1321 digest of the whole message: the padded message run through the block function.
\<close>

theorem md5_computes_rfc1321:
  assumes "length (md_buffer ctx) = 128"
  shows "md5_end v (fold (md5_hash v) pieces (md5_begin ctx)) = md5_spec (concat pieces)"
proof -
  have "md5_fed (m @ concat bs) (fold (md5_hash v) bs c)" if "md5_fed m c" for m bs c
    using that
  proof (induction bs arbitrary: m c)
    case (Cons b bs)
    show ?case using Cons.IH [OF md5_fed_update [OF Cons.prems, of b v]] by simp
  qed simp
  from this [OF md5_fed_begin [OF assms], of pieces] show ?thesis by (simp add: md5_end_spec)
qed

theorem md5_computes_rfc1321_witness:
  "bin2hex (md5_end 2 (fold (md5_hash 2) [''a'', [], ''bc''] (md5_begin \<lparr>mA = 1, mB = 2, mC = 3, mD = 4, md_total = 5,
      buflen = 6, md_buffer = replicate 128 (CHR ''x'')\<rparr>))) = ''900150983cd24fb0d6963f7d28e17f72''"
  using md5_computes_rfc1321 [of "\<lparr>mA = 1, mB = 2, mC = 3, mD = 4, md_total = 5, buflen = 6, md_buffer = replicate 128 (CHR ''x'')\<rparr>"
      2 "[''a'', [], ''bc'']"] by (simp add: md5_abc)

text \<open>
  The four variants of the block function, from the unrolled one to the single loop, compute
  the same function.
\<close>

theorem md5_variants_agree: "md5_hash_block v buf ctx = md5_hash_block v' buf ctx"
  unfolding md5_hash_block_def by (simp only: md5_compress_any [of v] md5_compress_any [of v'])

text \<open>
  \<open>md5sum\<close> prints the digest of the file: however the kernel splits the reads of the image,
  \<open>hash_file\<close> yields the hexadecimal text of the RFC 1321 digest of its contents.
\<close>

theorem md5sum_file:
  assumes "files name = Some f" "feeds f d"
  shows "hash_file md5_ctx0 (md5_hash v) (md5_end v) files name = Some (bin2hex (md5_spec d))"
  using assms by (rule md5.hash_file_digest)

theorem md5sum_file_witness:
  "hash_file md5_ctx0 (md5_hash 0) (md5_end 0)
     (\<lambda>n. if n = ''uImage'' then Some \<lparr>fd_data = ''kernel'', fd_events = [Chunk 2, Eintr]\<rparr> else None) ''uImage''
   = Some (bin2hex (md5_spec ''kernel''))"
  using md5sum_file [of "\<lambda>n. if n = ''uImage'' then Some \<lparr>fd_data = ''kernel'', fd_events = [Chunk 2, Eintr]\<rparr> else None"
    "''uImage''" _ "''kernel''" 0] by (simp add: feeds_def)

end
