(* ===== verification/Sha.thy ===== *)
theory Sha
  imports HashCore
begin

text \<open>
  SHA-1, SHA-256 and SHA-512 as in \<open>libbb/sha1.c\<close>. The three share the way bytes are collected
  in \<open>wbuffer\<close> and the way the last block is padded: \<open>absorb\<close> and \<open>pad_loop\<close> are the loops of
  \<open>sha1_hash\<close> and \<open>sha512_hash\<close>, and of \<open>sha1_end\<close> and \<open>sha512_end\<close>, for a block of \<open>N\<close> bytes.
  Words are stored in big-endian order, which is what \<open>ntohl\<close> and \<open>hton64\<close> yield on any host.
\<close>

section \<open>Collecting bytes\<close>

text \<open>
  \<open>in_buf\<close> is always below \<open>N\<close>, so that \<open>add\<close> is never zero; the second test only makes the
  recursion evidently end.
\<close>

function absorb :: "nat \<Rightarrow> (bytes \<Rightarrow> 'h \<Rightarrow> 'h) \<Rightarrow> nat \<Rightarrow> bytes \<Rightarrow> bytes \<times> 'h \<Rightarrow> bytes \<times> 'h" where
  "absorb N process in_buf buf (wb, h) =
     (let add = N - in_buf in
      if length buf < add \<or> add = 0 then (blit in_buf buf wb, h)
      else let wb' = blit in_buf (take add buf) wb in absorb N process 0 (drop add buf) (wb', process wb' h))"
  by pat_completeness auto
termination by (relation "measure (\<lambda>(N, p, i, buf, s). length buf)") auto

declare absorb.simps [simp del]

text \<open>The loop of \<open>sha1_end\<close> and \<open>sha512_end\<close>; \<open>cnt\<close> is the stored length, 8 or 16 bytes.\<close>

function pad_loop :: "nat \<Rightarrow> (bytes \<Rightarrow> 'h \<Rightarrow> 'h) \<Rightarrow> bytes \<Rightarrow> nat \<Rightarrow> bytes \<times> 'h \<Rightarrow> 'h" where
  "pad_loop N process cnt in_buf (wb, h) =
     (let pad = N - in_buf;
          wb1 = blit in_buf (replicate pad NUL) wb;
          wb2 = (if pad \<ge> length cnt then blit (N - length cnt) cnt wb1 else wb1);
          h' = process wb2 h
      in if pad \<ge> length cnt \<or> in_buf = 0 then h' else pad_loop N process cnt 0 (wb2, h'))"
  by pat_completeness auto
termination by (relation "measure (\<lambda>(N, p, c, i, s). i)") auto

declare pad_loop.simps [simp del]

section \<open>The block functions\<close>

definition rotl32 :: "u32 \<Rightarrow> nat \<Rightarrow> u32" where "rotl32 x n = push_bit n x OR drop_bit (32 - n) x"
definition rotr32 :: "u32 \<Rightarrow> nat \<Rightarrow> u32" where "rotr32 x n = drop_bit n x OR push_bit (32 - n) x"
definition rotr64 :: "u64 \<Rightarrow> nat \<Rightarrow> u64" where "rotr64 x n = drop_bit n x OR push_bit (64 - n) x"

definition sha1_ch :: "u32 \<Rightarrow> u32 \<Rightarrow> u32 \<Rightarrow> u32" where "sha1_ch x y z = z XOR (x AND (y XOR z))"
definition sha1_parity :: "u32 \<Rightarrow> u32 \<Rightarrow> u32 \<Rightarrow> u32" where "sha1_parity x y z = x XOR y XOR z"
definition sha1_maj :: "u32 \<Rightarrow> u32 \<Rightarrow> u32 \<Rightarrow> u32" where "sha1_maj x y z = (x AND y) OR (z AND (x OR y))"

type_synonym sha1_regs = "u32 \<times> u32 \<times> u32 \<times> u32 \<times> u32"

definition sha1_rnd :: "(u32 \<Rightarrow> u32 \<Rightarrow> u32 \<Rightarrow> u32) \<Rightarrow> u32 \<Rightarrow> u32 list \<Rightarrow> nat \<Rightarrow> sha1_regs \<Rightarrow> sha1_regs" where
  "sha1_rnd f k W t = (\<lambda>(a, b, c, d, e). (rotl32 a 5 + f b c d + e + k + W ! t, a, rotl32 b 30, c, d))"

definition sha1_schedule :: "bytes \<Rightarrow> u32 list" where
  "sha1_schedule b =
     fold (\<lambda>t W. W @ [rotl32 (W ! (t - 3) XOR W ! (t - 8) XOR W ! (t - 14) XOR W ! (t - 16)) 1]) [16..<80] (words_of 4 be32 b)"

definition sha1_process_block64 :: "bytes \<Rightarrow> u32 list \<Rightarrow> u32 list" where
  "sha1_process_block64 wb h =
     (let W = sha1_schedule wb;
          r0 = (h ! 0, h ! 1, h ! 2, h ! 3, h ! 4);
          r1 = fold (sha1_rnd sha1_ch 0x5a827999 W) [0..<20] r0;
          r2 = fold (sha1_rnd sha1_parity 0x6ed9eba1 W) [20..<40] r1;
          r3 = fold (sha1_rnd sha1_maj 0x8f1bbcdc W) [40..<60] r2;
          (a, b, c, d, e) = fold (sha1_rnd sha1_parity 0xca62c1d6 W) [60..<80] r3
      in [h ! 0 + a, h ! 1 + b, h ! 2 + c, h ! 3 + d, h ! 4 + e] @ drop 5 h)"

text \<open>The table, one list for each row of the source.\<close>

definition sha_K :: "u64 list" where
  "sha_K = concat [
     [0x428a2f98d728ae22, 0x7137449123ef65cd], [0xb5c0fbcfec4d3b2f, 0xe9b5dba58189dbbc],
     [0x3956c25bf348b538, 0x59f111f1b605d019], [0x923f82a4af194f9b, 0xab1c5ed5da6d8118],
     [0xd807aa98a3030242, 0x12835b0145706fbe], [0x243185be4ee4b28c, 0x550c7dc3d5ffb4e2],
     [0x72be5d74f27b896f, 0x80deb1fe3b1696b1], [0x9bdc06a725c71235, 0xc19bf174cf692694],
     [0xe49b69c19ef14ad2, 0xefbe4786384f25e3], [0x0fc19dc68b8cd5b5, 0x240ca1cc77ac9c65],
     [0x2de92c6f592b0275, 0x4a7484aa6ea6e483], [0x5cb0a9dcbd41fbd4, 0x76f988da831153b5],
     [0x983e5152ee66dfab, 0xa831c66d2db43210], [0xb00327c898fb213f, 0xbf597fc7beef0ee4],
     [0xc6e00bf33da88fc2, 0xd5a79147930aa725], [0x06ca6351e003826f, 0x142929670a0e6e70],
     [0x27b70a8546d22ffc, 0x2e1b21385c26c926], [0x4d2c6dfc5ac42aed, 0x53380d139d95b3df],
     [0x650a73548baf63de, 0x766a0abb3c77b2a8], [0x81c2c92e47edaee6, 0x92722c851482353b],
     [0xa2bfe8a14cf10364, 0xa81a664bbc423001], [0xc24b8b70d0f89791, 0xc76c51a30654be30],
     [0xd192e819d6ef5218, 0xd69906245565a910], [0xf40e35855771202a, 0x106aa07032bbd1b8],
     [0x19a4c116b8d2d0c8, 0x1e376c085141ab53], [0x2748774cdf8eeb99, 0x34b0bcb5e19b48a8],
     [0x391c0cb3c5c95a63, 0x4ed8aa4ae3418acb], [0x5b9cca4f7763e373, 0x682e6ff3d6b2b8a3],
     [0x748f82ee5defb2fc, 0x78a5636f43172f60], [0x84c87814a1f0ab72, 0x8cc702081a6439ec],
     [0x90befffa23631e28, 0xa4506cebde82bde9], [0xbef9a3f7b2c67915, 0xc67178f2e372532b],
     [0xca273eceea26619c, 0xd186b8c721c0c207], [0xeada7dd6cde0eb1e, 0xf57d4f7fee6ed178],
     [0x06f067aa72176fba, 0x0a637dc5a2c898a6], [0x113f9804bef90dae, 0x1b710b35131c471b],
     [0x28db77f523047d84, 0x32caab7b40c72493], [0x3c9ebe0a15c9bebc, 0x431d67c49c100d4c],
     [0x4cc5d4becb3e42b6, 0x597f299cfc657e2a], [0x5fcb6fab3ad6faec, 0x6c44198c4a475817]]"

definition Ch :: "'a::len word \<Rightarrow> 'a word \<Rightarrow> 'a word \<Rightarrow> 'a word" where "Ch x y z = (x AND y) XOR (NOT x AND z)"
definition Maj :: "'a::len word \<Rightarrow> 'a word \<Rightarrow> 'a word \<Rightarrow> 'a word" where "Maj x y z = (x AND y) XOR (x AND z) XOR (y AND z)"

definition S0_256 :: "u32 \<Rightarrow> u32" where "S0_256 x = rotr32 x 2 XOR rotr32 x 13 XOR rotr32 x 22"
definition S1_256 :: "u32 \<Rightarrow> u32" where "S1_256 x = rotr32 x 6 XOR rotr32 x 11 XOR rotr32 x 25"
definition R0_256 :: "u32 \<Rightarrow> u32" where "R0_256 x = rotr32 x 7 XOR rotr32 x 18 XOR drop_bit 3 x"
definition R1_256 :: "u32 \<Rightarrow> u32" where "R1_256 x = rotr32 x 17 XOR rotr32 x 19 XOR drop_bit 10 x"
definition S0_512 :: "u64 \<Rightarrow> u64" where "S0_512 x = rotr64 x 28 XOR rotr64 x 34 XOR rotr64 x 39"
definition S1_512 :: "u64 \<Rightarrow> u64" where "S1_512 x = rotr64 x 14 XOR rotr64 x 18 XOR rotr64 x 41"
definition R0_512 :: "u64 \<Rightarrow> u64" where "R0_512 x = rotr64 x 1 XOR rotr64 x 8 XOR drop_bit 7 x"
definition R1_512 :: "u64 \<Rightarrow> u64" where "R1_512 x = rotr64 x 19 XOR rotr64 x 61 XOR drop_bit 6 x"

type_synonym 'w sha2_regs = "'w \<times> 'w \<times> 'w \<times> 'w \<times> 'w \<times> 'w \<times> 'w \<times> 'w"

text \<open>The schedule and the step that the two SHA-2 block functions write out for their widths.\<close>

definition sha2_next :: "('a::len word \<Rightarrow> 'a word) \<Rightarrow> ('a word \<Rightarrow> 'a word) \<Rightarrow> nat \<Rightarrow> 'a word list \<Rightarrow> 'a word list" where
  "sha2_next R0 R1 t W = W @ [R1 (W ! (t - 2)) + W ! (t - 7) + R0 (W ! (t - 15)) + W ! (t - 16)]"

definition sha2_schedule :: "('a::len word \<Rightarrow> 'a word) \<Rightarrow> ('a word \<Rightarrow> 'a word) \<Rightarrow> nat \<Rightarrow> 'a word list \<Rightarrow> 'a word list" where
  "sha2_schedule R0 R1 n ws = fold (sha2_next R0 R1) [16..<n] ws"

definition sha2_step :: "('a::len word \<Rightarrow> 'a word) \<Rightarrow> ('a word \<Rightarrow> 'a word) \<Rightarrow> (nat \<Rightarrow> 'a word) \<Rightarrow> 'a word list \<Rightarrow> nat
    \<Rightarrow> 'a word sha2_regs \<Rightarrow> 'a word sha2_regs" where
  "sha2_step S0 S1 K W t = (\<lambda>(a, b, c, d, e, f, g, h).
     let T1 = h + S1 e + Ch e f g + K t + W ! t; T2 = S0 a + Maj a b c
     in (T1 + T2, a, b, c, d + T1, e, f, g))"

definition sha2_add :: "'a::len word list \<Rightarrow> 'a word sha2_regs \<Rightarrow> 'a word list" where
  "sha2_add hs = (\<lambda>(a, b, c, d, e, f, g, h).
     [hs ! 0 + a, hs ! 1 + b, hs ! 2 + c, hs ! 3 + d, hs ! 4 + e, hs ! 5 + f, hs ! 6 + g, hs ! 7 + h])"

definition sha256_process_block64 :: "bytes \<Rightarrow> u32 list \<Rightarrow> u32 list" where
  "sha256_process_block64 wb h =
     (let W = sha2_schedule R0_256 R1_256 64 (words_of 4 be32 wb);
          K = (\<lambda>t. ucast (drop_bit 32 (sha_K ! t)) :: u32);
          r = fold (sha2_step S0_256 S1_256 K W) [0..<64] (h ! 0, h ! 1, h ! 2, h ! 3, h ! 4, h ! 5, h ! 6, h ! 7)
      in sha2_add h r)"

definition sha512_process_block128 :: "bytes \<Rightarrow> u64 list \<Rightarrow> u64 list" where
  "sha512_process_block128 wb h =
     (let W = sha2_schedule R0_512 R1_512 80 (words_of 8 be64 wb);
          r = fold (sha2_step S0_512 S1_512 (\<lambda>t. sha_K ! t) W) [0..<80] (h ! 0, h ! 1, h ! 2, h ! 3, h ! 4, h ! 5, h ! 6, h ! 7)
      in sha2_add h r)"

section \<open>Contexts\<close>

datatype sha_alg = Alg_sha1 | Alg_sha256

record sha1_ctx =
  sh_hash :: "u32 list"
  total64 :: u64
  wbuffer :: bytes
  process_block :: sha_alg

record sha512_ctx =
  sh5_hash :: "u64 list"
  total_lo :: u64
  total_hi :: u64
  wbuffer5 :: bytes

definition init256 :: "u32 list" where
  "init256 = [0x6a09e667, 0xbb67ae85, 0x3c6ef372, 0xa54ff53a, 0x510e527f, 0x9b05688c, 0x1f83d9ab, 0x5be0cd19]"

definition init512_lo :: "u32 list" where
  "init512_lo = [0xf3bcc908, 0x84caa73b, 0xfe94f82b, 0x5f1d36f1, 0xade682d1, 0x2b3e6c1f, 0xfb41bd6b, 0x137e2179]"

definition sha1_begin :: "sha1_ctx \<Rightarrow> sha1_ctx" where
  "sha1_begin ctx = ctx\<lparr>sh_hash := [0x67452301, 0xefcdab89, 0x98badcfe, 0x10325476, 0xc3d2e1f0] @ drop 5 (sh_hash ctx),
     total64 := 0, process_block := Alg_sha1\<rparr>"

definition sha256_begin :: "sha1_ctx \<Rightarrow> sha1_ctx" where
  "sha256_begin ctx = ctx\<lparr>sh_hash := init256, total64 := 0, process_block := Alg_sha256\<rparr>"

definition sha512_begin :: "sha512_ctx \<Rightarrow> sha512_ctx" where
  "sha512_begin ctx = ctx\<lparr>sh5_hash := map (\<lambda>i. push_bit 32 (ucast (init256 ! i)) + ucast (init512_lo ! i)) [0..<8],
     total_lo := 0, total_hi := 0\<rparr>"

definition process_of :: "sha_alg \<Rightarrow> bytes \<Rightarrow> u32 list \<Rightarrow> u32 list" where
  "process_of alg = (case alg of Alg_sha1 \<Rightarrow> sha1_process_block64 | Alg_sha256 \<Rightarrow> sha256_process_block64)"

definition sha1_hash :: "bytes \<Rightarrow> sha1_ctx \<Rightarrow> sha1_ctx" where
  "sha1_hash buf ctx =
     (let in_buf = unat (total64 ctx AND 63);
          (wb, h) = absorb 64 (process_of (process_block ctx)) in_buf buf (wbuffer ctx, sh_hash ctx)
      in ctx\<lparr>sh_hash := h, total64 := total64 ctx + of_nat (length buf), wbuffer := wb\<rparr>)"

definition sha512_hash :: "bytes \<Rightarrow> sha512_ctx \<Rightarrow> sha512_ctx" where
  "sha512_hash buf ctx =
     (let in_buf = unat (total_lo ctx AND 127);
          lo = total_lo ctx + of_nat (length buf);
          hi = (if lo < of_nat (length buf) then total_hi ctx + 1 else total_hi ctx);
          (wb, h) = absorb 128 sha512_process_block128 in_buf buf (wbuffer5 ctx, sh5_hash ctx)
      in ctx\<lparr>sh5_hash := h, total_lo := lo, total_hi := hi, wbuffer5 := wb\<rparr>)"

definition sha1_end :: "sha1_ctx \<Rightarrow> bytes" where
  "sha1_end ctx =
     (let in_buf = unat (total64 ctx AND 63);
          wb = blit in_buf [CHR 0x80] (wbuffer ctx);
          h = pad_loop 64 (process_of (process_block ctx)) (be_bytes 8 (push_bit 3 (total64 ctx))) (in_buf + 1) (wb, sh_hash ctx);
          n = (if process_block ctx = Alg_sha1 then 5 else 8)
      in concat (map (be_bytes 4) (take n h)))"

definition sha512_end :: "sha512_ctx \<Rightarrow> bytes" where
  "sha512_end ctx =
     (let in_buf = unat (total_lo ctx AND 127);
          wb = blit in_buf [CHR 0x80] (wbuffer5 ctx);
          cnt = be_bytes 8 (push_bit 3 (total_hi ctx) OR drop_bit 61 (total_lo ctx)) @ be_bytes 8 (push_bit 3 (total_lo ctx));
          h = pad_loop 128 sha512_process_block128 cnt (in_buf + 1) (wb, sh5_hash ctx)
      in concat (map (be_bytes 8) h))"

section \<open>Collecting and padding, for any block function\<close>

definition run_blocks :: "nat \<Rightarrow> (bytes \<Rightarrow> 'h \<Rightarrow> 'h) \<Rightarrow> 'h \<Rightarrow> bytes \<Rightarrow> 'h" where
  "run_blocks N process h0 m = fold process (blocks N m) h0"

definition collected :: "nat \<Rightarrow> (bytes \<Rightarrow> 'h \<Rightarrow> 'h) \<Rightarrow> 'h \<Rightarrow> bytes \<Rightarrow> bytes \<times> 'h \<Rightarrow> bool" where
  "collected N process h0 m s \<longleftrightarrow> snd s = run_blocks N process h0 (whole N m)
     \<and> length (fst s) = N \<and> take (length m mod N) (fst s) = rest N m"

lemma run_blocks_one:
  assumes "0 < N" "length w mod N = 0" "length b = N"
  shows "run_blocks N process h0 (w @ b) = process b (run_blocks N process h0 w)"
proof -
  have "blocks N (w @ b) = blocks N w @ [b]"
    using blocks_append [of N w b] blocks_one [of N b "[]"] assms by (simp add: blocks_short)
  then show ?thesis by (simp add: run_blocks_def)
qed

lemma whole_rest_append: "m @ b = whole N m @ (rest N m @ b)"
  by (metis append.assoc whole_rest)

lemma absorb_collects:
  assumes "0 < N"
  shows "collected N process h0 m (wb, h) \<Longrightarrow> collected N process h0 (m @ b) (absorb N process (length m mod N) b (wb, h))"
proof (induction "length b" arbitrary: m wb h b rule: less_induct)
  case less
  let ?add = "N - length m mod N"
  have add: "0 < ?add" "length m mod N + ?add = N" using assms by simp_all
  note lm = length_whole_mod [of N m] and c = less.prems [unfolded collected_def fst_conv snd_conv]
  show ?case
  proof (cases "length b < ?add")
    case True
    have w: "whole N (m @ b) = whole N m" "rest N (m @ b) = rest N m @ b"
      using whole_rest_unique [OF lm, of "rest N m @ b"] True add by (subst whole_rest_append, simp)+
    have "length (m @ b) mod N = length m mod N + length b" using arg_cong [OF w(2), of length] by simp
    moreover have "take (length m mod N + length b) (blit (length m mod N) b wb) = rest N m @ b"
      using take_blit [of "length m mod N" b wb] c True add by simp
    ultimately show ?thesis using True c add w by (subst absorb.simps) (simp add: collected_def)
  next
    case False
    let ?t = "take ?add b" and ?wb = "blit (length m mod N) (take ?add b) wb"
    have wb: "?wb = rest N m @ ?t" using c False add by (simp add: blit_def)
    have l: "length (whole N m @ rest N m @ ?t) mod N = 0" using lm False add by simp
    have "whole N (m @ ?t) = whole N m @ rest N m @ ?t" "rest N (m @ ?t) = []"
      using whole_rest_unique [OF l, of "[]"] assms by (subst whole_rest_append, simp)+
    note wr = this
    have m0: "length (m @ ?t) mod N = 0" using wr(2) by (metis length_rest list.size(3))
    have lb: "length (rest N m @ ?t) = N" using False add by simp
    have "collected N process h0 (m @ ?t) (?wb, process ?wb h)"
      unfolding collected_def m0 wr wb using run_blocks_one [OF assms lm lb, of process h0] c lb by simp
    moreover have "length (drop ?add b) < length b" using False add by simp
    ultimately have "collected N process h0 ((m @ ?t) @ drop ?add b)
        (absorb N process (length (m @ ?t) mod N) (drop ?add b) (?wb, process ?wb h))"
      using less.hyps by blast
    then have "collected N process h0 (m @ b) (absorb N process 0 (drop ?add b) (?wb, process ?wb h))"
      unfolding m0 by simp
    then show ?thesis using False add by (subst absorb.simps) (simp add: Let_def)
  qed
qed

text \<open>The padding: a 1 bit, zero bits and the length at the end of the last block.\<close>

definition pad_to :: "nat \<Rightarrow> bytes \<Rightarrow> bytes \<Rightarrow> bytes" where
  "pad_to N cnt m = m @ CHR 0x80 # replicate ((2 * N - Suc (length m mod N) - length cnt) mod N) NUL @ cnt"

lemma pad_loop_last:
  "length cnt \<le> N - i \<Longrightarrow> pad_loop N process cnt i (wb, h) = process (blit (N - length cnt) cnt (blit i (replicate (N - i) NUL) wb)) h"
  by (subst pad_loop.simps) (simp add: Let_def)

lemma pad_loop_more:
  "\<not> length cnt \<le> N - i \<Longrightarrow> i \<noteq> 0 \<Longrightarrow> pad_loop N process cnt i (wb, h)
    = pad_loop N process cnt 0 (blit i (replicate (N - i) NUL) wb, process (blit i (replicate (N - i) NUL) wb) h)"
  by (subst pad_loop.simps) (simp add: Let_def)

lemma pad_zeros:
  assumes "n < N" "L < N"
  shows "(2 * N - Suc n - L) mod N = (if L \<le> N - (n + 1) then N - Suc n - L else (N - Suc n) + (N - L))"
proof (cases "L \<le> N - (n + 1)")
  case True
  then have "2 * N - Suc n - L = N + (N - Suc n - L)" using assms by simp
  then show ?thesis using True assms by (simp only: mod_add_self1) simp
next
  case False
  then have "2 * N - Suc n - L = (N - Suc n) + (N - L)" "2 * N - Suc n - L < N" using assms by simp_all
  then show ?thesis using False by simp
qed

lemma blit_count:
  assumes "length r + 1 + length cnt \<le> N"
  shows "blit (N - length cnt) cnt (r @ x # replicate (N - (length r + 1)) NUL) = r @ x # replicate (N - Suc (length r) - length cnt) NUL @ cnt"
proof -
  have "take (N - length cnt) (r @ x # replicate (N - (length r + 1)) NUL) = r @ x # replicate (N - Suc (length r) - length cnt) NUL"
    using assms by (simp add: take_Cons' min_def add.commute)
  moreover have "drop N (r @ x # replicate (N - (length r + 1)) NUL) = []" using assms by simp
  ultimately show ?thesis using assms by (simp add: blit_def)
qed

lemma blit_all: "length src = length dst \<Longrightarrow> blit 0 src dst = src"
  by (simp add: blit_def)

lemma pad_loop_pads:
  assumes N: "length cnt < N" and c: "collected N process h0 m (wb, h)"
  shows "pad_loop N process cnt (length m mod N + 1) (blit (length m mod N) [CHR 0x80] wb, h)
    = run_blocks N process h0 (pad_to N cnt m)"
proof -
  let ?n = "length m mod N" and ?r = "rest N m" and ?L = "length cnt"
  note lm = length_whole_mod [of N m] and c = c [unfolded collected_def fst_conv snd_conv]
  have n: "?n < N" using N by (intro mod_less_divisor) simp
  let ?z = "(2 * N - Suc ?n - ?L) mod N"
  have p: "pad_to N cnt m = whole N m @ (?r @ CHR 0x80 # replicate ?z NUL @ cnt)"
    unfolding pad_to_def by (subst (1) whole_rest [of N m, symmetric]) (simp only: append.assoc)
  have wb1: "blit (?n + 1) (replicate (N - (?n + 1)) NUL) (blit ?n [CHR 0x80] wb) = ?r @ CHR 0x80 # replicate (N - (?n + 1)) NUL"
    using blit_mark_zeros [of wb N ?n] c n by simp
  show ?thesis
  proof (cases "?L \<le> N - (?n + 1)")
    case True
    have z: "?z = N - Suc ?n - ?L" using pad_zeros [OF n N] True by simp
    have "blit (N - ?L) cnt (?r @ CHR 0x80 # replicate (N - (?n + 1)) NUL) = ?r @ CHR 0x80 # replicate ?z NUL @ cnt"
      using blit_count [of ?r cnt N "CHR 0x80"] True n unfolding z length_rest by linarith
    moreover have ln: "length (?r @ CHR 0x80 # replicate ?z NUL @ cnt) = N" using True n unfolding z by simp
    moreover have "0 < N" using N by simp
    ultimately show ?thesis
      unfolding pad_loop_last [OF True] wb1 p run_blocks_one [OF \<open>0 < N\<close> lm ln] using c by (simp only:)
  next
    case False
    have z: "?z = (N - Suc ?n) + (N - ?L)" using pad_zeros [OF n N] False by simp
    let ?b1 = "?r @ CHR 0x80 # replicate (N - (?n + 1)) NUL" and ?b2 = "replicate (N - ?L) NUL @ cnt"
    have split: "?r @ CHR 0x80 # replicate ?z NUL @ cnt = ?b1 @ ?b2"
      unfolding z by (simp add: replicate_add)
    have len: "length ?b1 = N" "length ?b2 = N"
      unfolding length_append length_Cons length_replicate length_rest using n N by linarith+
    have b2: "blit (N - ?L) cnt (blit 0 (replicate N NUL) ?b1) = ?b2"
      using N blit_all [of "replicate N NUL" ?b1] len(1) by (simp add: blit_def)
    have "run_blocks N process h0 (pad_to N cnt m) = process ?b2 (process ?b1 h)"
      using run_blocks_one [of N "whole N m @ ?b1" ?b2 process h0] run_blocks_one [of N "whole N m" ?b1 process h0] lm len N c
      unfolding p split by (simp del: replicate_add add: mod_add_left_eq)
    moreover have "length cnt \<le> N - 0" using N by simp
    ultimately show ?thesis
      using pad_loop_more [OF False, of process "blit ?n [CHR 0x80] wb" h] pad_loop_last [of cnt N 0 process ?b1] b2
      unfolding wb1 by simp
  qed
qed

section \<open>The standard\<close>

definition alg_init :: "sha_alg \<Rightarrow> u32 list" where
  "alg_init alg = (case alg of Alg_sha1 \<Rightarrow> [0x67452301, 0xefcdab89, 0x98badcfe, 0x10325476, 0xc3d2e1f0] | Alg_sha256 \<Rightarrow> init256)"

definition alg_words :: "sha_alg \<Rightarrow> nat" where
  "alg_words alg = (case alg of Alg_sha1 \<Rightarrow> 5 | Alg_sha256 \<Rightarrow> 8)"

text \<open>FIPS 180-2: the padded message, with its length in bits as a big-endian number, block by block.\<close>

definition sha_spec :: "sha_alg \<Rightarrow> bytes \<Rightarrow> bytes" where
  "sha_spec alg m = concat (map (be_bytes 4) (run_blocks 64 (process_of alg) (alg_init alg)
     (pad_to 64 (be_bytes 8 (of_nat (8 * length m) :: u64)) m)))"

definition init512 :: "u64 list" where
  "init512 = map (\<lambda>i. push_bit 32 (ucast (init256 ! i)) + ucast (init512_lo ! i)) [0..<8]"

definition sha512_spec :: "bytes \<Rightarrow> bytes" where
  "sha512_spec m = concat (map (be_bytes 8) (run_blocks 128 sha512_process_block128 init512
     (pad_to 128 (be_bytes 16 (of_nat (8 * length m) :: 128 word)) m)))"

text \<open>
  SHA-1 leaves the last three of the eight words of \<open>hash\<close> alone; what it computes depends on the
  first five only.
\<close>

lemma sha1_process_append:
  "length h = 5 \<Longrightarrow> sha1_process_block64 wb (h @ x) = sha1_process_block64 wb h @ x"
  by (simp add: sha1_process_block64_def Let_def nth_append split: prod.splits)

lemma process_of_length: "length h = alg_words alg \<Longrightarrow> length (process_of alg wb h) = alg_words alg"
  by (cases alg) (simp_all add: process_of_def alg_words_def sha1_process_block64_def sha256_process_block64_def sha2_add_def
      Let_def split: prod.splits)

lemma run_blocks_length:
  "length h = alg_words alg \<Longrightarrow> length (run_blocks N (process_of alg) h m) = alg_words alg"
proof -
  assume h: "length h = alg_words alg"
  have "length (fold (process_of alg) bs h) = alg_words alg" for bs
    using h by (induction bs arbitrary: h) (simp_all add: process_of_length)
  then show ?thesis by (simp add: run_blocks_def)
qed

lemma process_of_append:
  assumes "length h = alg_words alg" "alg = Alg_sha256 \<longrightarrow> x = []"
  shows "process_of alg wb (h @ x) = process_of alg wb h @ x"
  using assms sha1_process_append by (cases alg) (simp_all add: process_of_def alg_words_def)

lemma run_blocks_append:
  assumes "length h = alg_words alg" "alg = Alg_sha256 \<longrightarrow> x = []"
  shows "run_blocks N (process_of alg) (h @ x) m = run_blocks N (process_of alg) h m @ x"
proof -
  have "fold (process_of alg) bs (h @ x) = fold (process_of alg) bs h @ x" for bs
    using assms(1) by (induction bs arbitrary: h) (simp_all add: process_of_append [OF _ assms(2)] process_of_length)
  then show ?thesis by (simp add: run_blocks_def)
qed

lemma alg_init_length [simp]: "length (alg_init alg) = alg_words alg"
  by (cases alg) (simp_all add: alg_init_def alg_words_def init256_def)

lemma and_63: "unat (w AND 63 :: u64) = unat w mod 64"
  using and_mask_mod [of w 6] by (simp add: mask_eq_exp_minus_1)

lemma and_127: "unat (w AND 127 :: u64) = unat w mod 128"
  using and_mask_mod [of w 7] by (simp add: mask_eq_exp_minus_1)

lemma unat_of_nat_mod: "unat (of_nat n :: u64) mod 64 = n mod 64" "unat (of_nat n :: u64) mod 128 = n mod 128"
  by (simp_all add: unat_of_nat take_bit_eq_mod mod_mod_cancel)

definition sha_fed :: "sha_alg \<Rightarrow> bytes \<Rightarrow> sha1_ctx \<Rightarrow> bool" where
  "sha_fed alg m ctx \<longleftrightarrow> process_block ctx = alg \<and> total64 ctx = of_nat (length m)
     \<and> (\<exists>x. (alg = Alg_sha256 \<longrightarrow> x = []) \<and> collected 64 (process_of alg) (alg_init alg @ x) m (wbuffer ctx, sh_hash ctx))"

lemma collected_nil: "length wb = N \<Longrightarrow> collected N p h0 [] (wb, h0)"
  by (cases N) (simp_all add: collected_def run_blocks_def blocks.simps)

lemma sha_fed_begin:
  assumes "length (wbuffer ctx) = 64"
  shows "sha_fed Alg_sha1 [] (sha1_begin ctx)" "sha_fed Alg_sha256 [] (sha256_begin ctx)"
  using collected_nil [OF assms, of "process_of Alg_sha1" "alg_init Alg_sha1 @ drop 5 (sh_hash ctx)"]
    collected_nil [OF assms, of "process_of Alg_sha256" "alg_init Alg_sha256"]
  by (auto simp: sha_fed_def sha1_begin_def sha256_begin_def alg_init_def intro!: exI [of _ "drop 5 (sh_hash ctx)"])

lemma sha_fed_update: "sha_fed alg m ctx \<Longrightarrow> sha_fed alg (m @ b) (sha1_hash b ctx)"
  using absorb_collects [of 64 "process_of alg" _ m "wbuffer ctx" "sh_hash ctx" b]
  by (auto simp: sha_fed_def sha1_hash_def and_63 unat_of_nat_mod Let_def split: prod.splits) fastforce

lemma push_bit_3_of_nat: "push_bit 3 (of_nat n :: u64) = of_nat (8 * n)"
  by (simp add: push_bit_eq_mult mult.commute)

lemma sha_fed_final: "sha_fed alg m ctx \<Longrightarrow> sha1_end ctx = sha_spec alg m"
proof -
  assume f: "sha_fed alg m ctx"
  then obtain x where x: "alg = Alg_sha256 \<longrightarrow> x = []"
    and c: "collected 64 (process_of alg) (alg_init alg @ x) m (wbuffer ctx, sh_hash ctx)"
    and a: "process_block ctx = alg" "total64 ctx = of_nat (length m)"
    by (auto simp: sha_fed_def)
  let ?cnt = "be_bytes 8 (of_nat (8 * length m) :: u64)"
  have "pad_loop 64 (process_of alg) ?cnt (length m mod 64 + 1) (blit (length m mod 64) [CHR 0x80] (wbuffer ctx), sh_hash ctx)
    = run_blocks 64 (process_of alg) (alg_init alg) (pad_to 64 ?cnt m) @ x"
    using pad_loop_pads [OF _ c, of ?cnt] run_blocks_append [OF alg_init_length x] by simp
  moreover have "(if alg = Alg_sha1 then 5 else 8) = alg_words alg" by (cases alg) (simp_all add: alg_words_def)
  ultimately show ?thesis
    using run_blocks_length [of "alg_init alg" alg 64 "pad_to 64 ?cnt m"]
    by (simp add: sha1_end_def sha_spec_def a and_63 unat_of_nat_mod push_bit_3_of_nat [simplified] Let_def)
qed

section \<open>SHA-512\<close>

text \<open>The byte count is a 128-bit number in two words; \<open>sha512_hash\<close> carries from the low one.\<close>

definition sha512_fed :: "bytes \<Rightarrow> sha512_ctx \<Rightarrow> bool" where
  "sha512_fed m ctx \<longleftrightarrow> (2 ^ 64 * unat (total_hi ctx) + unat (total_lo ctx)) = length m mod 2 ^ 128
     \<and> collected 128 sha512_process_block128 init512 m (wbuffer5 ctx, sh5_hash ctx)"

lemma two_words: "2 ^ 64 * unat (h :: u64) + unat (l :: u64) < 2 ^ 128"
proof -
  have "unat h < 2 ^ 64" "unat l < 2 ^ 64" using unsigned_less [of h] unsigned_less [of l] by simp_all
  then show ?thesis by simp
qed

lemma add_carry:
  fixes lo hi x :: u64
  assumes "hi' = (if lo + x < x then hi + 1 else hi)"
  shows "(2 ^ 64 * unat hi' + unat (lo + x)) mod 2 ^ 128 = (2 ^ 64 * unat hi + unat lo + unat x) mod 2 ^ 128"
proof -
  have b: "unat lo < 2 ^ 64" "unat x < 2 ^ 64" "unat hi < 2 ^ 64"
    using unsigned_less [of lo] unsigned_less [of x] unsigned_less [of hi] by simp_all
  show ?thesis
  proof (cases "unat lo + unat x < 2 ^ 64")
    case True
    then have u: "unat (lo + x) = unat lo + unat x" by (simp add: unat_word_ariths)
    then have "\<not> lo + x < x" by (simp add: word_less_nat_alt)
    then show ?thesis using assms u by (simp add: add.assoc)
  next
    case False
    then have u: "unat (lo + x) = unat lo + unat x - 2 ^ 64"
      using b by (simp add: unat_word_ariths le_mod_geq)
    then have "lo + x < x" using b False by (simp add: word_less_nat_alt)
    moreover have "unat (hi + 1) = (if unat hi = 2 ^ 64 - 1 then 0 else unat hi + 1)"
      using b by (auto simp: unat_word_ariths)
    ultimately show ?thesis using assms u b False by (auto simp: le_mod_geq)
  qed
qed

lemma sha512_fed_begin: "length (wbuffer5 ctx) = 128 \<Longrightarrow> sha512_fed [] (sha512_begin ctx)"
  by (simp add: sha512_fed_def sha512_begin_def init512_def [symmetric] collected_nil)

lemma lo_count:
  assumes "2 ^ 64 * unat (hi :: u64) + unat (lo :: u64) = n mod 2 ^ 128"
  shows "unat lo mod 128 = n mod 128"
proof -
  have "unat lo mod 128 = (2 ^ 64 * unat hi + unat lo) mod 128"
    by (simp add: mod_add_left_eq [symmetric] mod_mult_left_eq [symmetric])
  then show ?thesis using assms by (simp add: mod_mod_cancel)
qed

lemma sha512_fed_update:
  assumes f: "sha512_fed m ctx" and b: "length b < 2 ^ 64"
  shows "sha512_fed (m @ b) (sha512_hash b ctx)"
proof -
  let ?lo = "total_lo ctx" and ?hi = "total_hi ctx" and ?x = "of_nat (length b) :: u64"
  let ?hi' = "if ?lo + ?x < ?x then ?hi + 1 else ?hi"
  have tot: "2 ^ 64 * unat ?hi + unat ?lo = length m mod 2 ^ 128"
    and c: "collected 128 sha512_process_block128 init512 m (wbuffer5 ctx, sh5_hash ctx)"
    using f by (auto simp: sha512_fed_def)
  have lt: "2 ^ 64 * unat ?hi' + unat (?lo + ?x) < 2 ^ 128"
    by (rule two_words)
  have "(2 ^ 64 * unat ?hi' + unat (?lo + ?x)) mod 2 ^ 128 = (length m mod 2 ^ 128 + length b) mod 2 ^ 128"
    using add_carry [of ?hi' ?lo ?x ?hi] tot b by simp
  then have "2 ^ 64 * unat ?hi' + unat (?lo + ?x) = length (m @ b) mod 2 ^ 128"
    using lt by (simp add: mod_add_left_eq)
  moreover note lo_count [OF tot]
  ultimately show ?thesis
    using absorb_collects [OF _ c, of b]
    by (auto simp: sha512_fed_def sha512_hash_def and_127 Let_def split: prod.splits)
qed

lemma or_is_plus: "push_bit 3 (hi :: u64) OR drop_bit 61 (lo :: u64) = push_bit 3 hi + drop_bit 61 lo"
proof -
  have "push_bit 3 hi AND drop_bit 61 lo = 0"
    by (rule bit_word_eqI) (auto simp: bit_simps dest: bit_imp_le_length)
  then show ?thesis by (simp add: disjunctive_add_eq_or)
qed

lemma shifted_count:
  "(2 ^ 64 * unat (push_bit 3 (hi :: u64) OR drop_bit 61 (lo :: u64)) + unat (push_bit 3 lo))
    = 8 * (2 ^ 64 * unat hi + unat lo) mod 2 ^ 128"
proof -
  let ?h = "unat hi" and ?l = "unat lo"
  have b: "?l < 2 ^ 64" using unsigned_less [of lo] by simp
  have h: "unat (push_bit 3 hi OR drop_bit 61 lo) = (8 * ?h + ?l div 2 ^ 61) mod 2 ^ 64"
    unfolding or_is_plus
    by (simp add: unat_word_ariths unsigned_push_bit_eq unsigned_drop_bit_eq push_bit_eq_mult
        drop_bit_eq_div take_bit_eq_mod mod_simps mult.commute)
  have l: "unat (push_bit 3 lo) = 8 * ?l mod 2 ^ 64"
    by (simp add: unat_word_ariths push_bit_eq_mult mult.commute)
  have "8 * ?l = 2 ^ 64 * (?l div 2 ^ 61) + 8 * ?l mod 2 ^ 64"
  proof -
    have "8 * ?l div 2 ^ 64 = ?l div 2 ^ 61" using div_mult_mult1 [of 8 ?l "2 ^ 61"] by simp
    then show ?thesis by (metis mult_div_mod_eq)
  qed
  then have "8 * (2 ^ 64 * ?h + ?l) = 2 ^ 64 * (8 * ?h + ?l div 2 ^ 61) + 8 * ?l mod 2 ^ 64"
    by (simp only: distrib_left mult.left_commute [of 8])
  moreover have "(2 ^ 64 * a + r) mod 2 ^ 128 = 2 ^ 64 * (a mod 2 ^ 64) + r" if "r < 2 ^ 64" for a r :: nat
    using that mod_mult2_eq [of "2 ^ 64 * a + r" "2 ^ 64" "2 ^ 64"] by simp
  moreover have "8 * ?l mod 2 ^ 64 < 2 ^ 64" by simp
  ultimately show ?thesis unfolding h l by (simp only:)
qed

lemma char_of_mod: "a mod 256 = b mod 256 \<Longrightarrow> char_of (a :: nat) = char_of b"
  by (metis char_of_mod_256 )

lemma be_bytes_16:
  assumes "unat (w :: 128 word) = 2 ^ 64 * unat hi + unat lo"
  shows "be_bytes 16 w = be_bytes 8 (hi :: u64) @ be_bytes 8 (lo :: u64)"
proof -
  have b: "unat lo < 2 ^ 64" using unsigned_less [of lo] by simp
  have "drop_bit (8 * i) (unat w) mod 256 = drop_bit (8 * i) (unat lo) mod 256" if "i < 8" for i
  proof -
    have "(2 ^ 64 :: nat) = 2 ^ (8 * i) * (256 * 2 ^ (56 - 8 * i))"
    proof -
      have "64 = 8 * i + (8 + (56 - 8 * i))" using that by simp
      then have "(2 ^ 64 :: nat) = 2 ^ (8 * i) * (2 ^ 8 * 2 ^ (56 - 8 * i))" by (metis power_add)
      then show ?thesis by simp
    qed
    then have "unat w = unat lo + 2 ^ (8 * i) * (256 * (2 ^ (56 - 8 * i) * unat hi))" using assms by (simp add: mult.assoc)
    then show ?thesis by (simp add: drop_bit_eq_div)
  qed
  moreover have "drop_bit (8 * (i + 8)) (unat w) = drop_bit (8 * i) (unat hi)" for i
  proof -
    have "drop_bit (8 * (i + 8)) (unat w) = unat w div 2 ^ 64 div 2 ^ (8 * i)"
      by (simp add: drop_bit_eq_div power_add div_mult2_eq [symmetric] mult.commute)
    then show ?thesis using assms b by (simp add: drop_bit_eq_div)
  qed
  moreover have u: "unat (drop_bit n x) = drop_bit n (unat x)" for n and x :: "'b::len word"
    by (simp add: unsigned_drop_bit_eq take_bit_nat_eq_self)
  moreover have "[0..<16] = [0..<8] @ map (\<lambda>i. i + 8) [0..<8]" by (simp add: upt_rec)
  ultimately have "le_bytes 16 w = le_bytes 8 lo @ le_bytes 8 hi"
    by (simp only: le_bytes_def u map_append map_map comp_def) (auto intro!: char_of_mod simp del: upt_rec_numeral)
  then show ?thesis by (simp add: be_bytes_def)
qed

lemma sha512_fed_final: "sha512_fed m ctx \<Longrightarrow> sha512_end ctx = sha512_spec m"
proof -
  assume f: "sha512_fed m ctx"
  let ?lo = "total_lo ctx" and ?hi = "total_hi ctx"
  let ?cnt = "be_bytes 16 (of_nat (8 * length m) :: 128 word)"
  have tot: "2 ^ 64 * unat ?hi + unat ?lo = length m mod 2 ^ 128"
    and c: "collected 128 sha512_process_block128 init512 m (wbuffer5 ctx, sh5_hash ctx)"
    using f by (auto simp: sha512_fed_def)
  have "unat (of_nat (8 * length m) :: 128 word) = 8 * (length m mod 2 ^ 128) mod 2 ^ 128"
    unfolding unat_of_nat by (simp add: take_bit_eq_mod mod_simps)
  then have cnt: "be_bytes 8 (push_bit 3 ?hi OR drop_bit 61 ?lo) @ be_bytes 8 (push_bit 3 ?lo) = ?cnt"
    using be_bytes_16 shifted_count [of ?hi ?lo] unfolding tot by metis
  show ?thesis
    using pad_loop_pads [OF _ c, of ?cnt] lo_count [OF tot]
    by (simp add: sha512_end_def sha512_spec_def and_127 cnt Let_def del: of_nat_mult)
qed

section \<open>A known digest\<close>

text \<open>The SHA-1 digest of \<open>abc\<close> that FIPS 180-2 lists, computed in the logic.\<close>

definition abc_block :: bytes where
  "abc_block = ''abc'' @ CHR 0x80 # replicate 52 NUL @ [NUL, NUL, NUL, NUL, NUL, NUL, NUL, CHR 0x18]"

lemma abc_words: "words_of 4 be32 abc_block = [0x61626380, 0, 0, 0, 0, 0, 0, 0, 0, 0, 0, 0, 0, 0, 0, 0x18]"
  by (simp add: abc_block_def words_of_def blocks_numeral replicate_num be32_def le32_def)

definition abc_W1 :: "u32 list" where
  "abc_W1 =
     [0x61626380, 0, 0, 0, 0, 0, 0, 0, 0, 0, 0, 0, 0, 0, 0, 0x18, 0xc2c4c700, 0, 0x30, 0x85898e01, 0, 0x60, 0xb131c03,
      0x30, 0x85898ec1, 0x16263806, 0, 0x180, 0x2c4c700c, 0xf0, 0x93afb507, 0x5898e048, 0x8e9a9202, 0x600, 0xb131c0f0,
      0x16263bc6, 0x4ebed41e, 0x626380a1, 0x16263806, 0x18c0, 0xd2e138c4, 0xf00, 0x3afb5079, 0x898e04e5, 0xe2ba3c2b,
      0x60c0, 0x53a37cd, 0x74458547, 0xda9415ed, 0x26380a16, 0x626383a1, 0x4ebf54de, 0x3835b44b, 0xf600, 0x1e84c7a3,
      0x98e04d98, 0x651d16a0, 0x62658ca1, 0x458544d6, 0x44584cb7, 0x7ba06619, 0x6380aea2, 0xae55269, 0x627b49a1,
      0x7cd45c9d, 0xf0000, 0xfb50753a, 0xec6765e8, 0xba3c2be2, 0x60c000, 0x3a37cd05, 0x458546f4, 0xb8599dd6,
      0x380a1a26, 0x1e02203, 0xe7cc3456, 0xe6e60b69, 0xf60a00, 0x5795ef4f, 0x822e0879]"

lemma abc_schedule1: "sha1_schedule abc_block = abc_W1"
  by (simp add: sha1_schedule_def abc_words abc_W1_def rotl32_def)

lemma abc_rounds1:
  "fold (sha1_rnd sha1_ch 0x5a827999 abc_W1) [0..<20] (0x67452301, 0xefcdab89, 0x98badcfe, 0x10325476, 0xc3d2e1f0)
   = (0xfd9e1d7d, 0xdc64901d, 0x20aa99ca, 0xd3a49608, 0xc82f758b)"
  "fold (sha1_rnd sha1_parity 0x6ed9eba1 abc_W1) [20..<40] (0xfd9e1d7d, 0xdc64901d, 0x20aa99ca, 0xd3a49608, 0xc82f758b)
   = (0x32de1cba, 0x4c986405, 0xf718e5cf, 0x3d447f6, 0xf72eec32)"
  "fold (sha1_rnd sha1_maj 0x8f1bbcdc abc_W1) [40..<60] (0x32de1cba, 0x4c986405, 0xf718e5cf, 0x3d447f6, 0xf72eec32)
   = (0x3f52de5a, 0x9d785fd, 0x3498bfd4, 0xf211824f, 0xd79915ab)"
  "fold (sha1_rnd sha1_parity 0xca62c1d6 abc_W1) [60..<80] (0x3f52de5a, 0x9d785fd, 0x3498bfd4, 0xf211824f, 0xd79915ab)
   = (0x42541b35, 0x5738d5e1, 0x21834873, 0x681e6df6, 0xd8fdf6ad)"
  by (simp_all add: sha1_rnd_def rotl32_def sha1_ch_def sha1_parity_def sha1_maj_def abc_W1_def upt_rec)

lemma abc_padded: "pad_to 64 (be_bytes 8 (of_nat (8 * length ''abc'') :: u64)) ''abc'' = abc_block"
  by (simp add: pad_to_def abc_block_def be_bytes_def le_bytes_def upt_rec char_of_small)

lemma abc_one_block: "blocks 64 abc_block = [abc_block]"
  by (simp add: abc_block_def blocks_numeral)

lemma sha1_abc: "bin2hex (sha_spec Alg_sha1 ''abc'') = ''a9993e364706816aba3e25717850c26c9cd0d89d''"
proof -
  have "sha1_process_block64 abc_block (alg_init Alg_sha1) = [0xa9993e36, 0x4706816a, 0xba3e2571, 0x7850c26c, 0x9cd0d89d]"
    by (simp add: sha1_process_block64_def abc_schedule1 alg_init_def abc_rounds1 del: upt_rec_numeral)
  then show ?thesis
    unfolding sha_spec_def abc_padded run_blocks_def abc_one_block
    by (simp add: process_of_def be_bytes_def le_bytes_def upt_rec hex_digit_def hex_digits_def)
qed

section \<open>Properties of the SHA family\<close>

definition sha1_ctx0 :: sha1_ctx where
  "sha1_ctx0 = \<lparr>sh_hash = replicate 8 0, total64 = 0, wbuffer = replicate 64 NUL, process_block = Alg_sha1\<rparr>"

definition sha512_ctx0 :: sha512_ctx where
  "sha512_ctx0 = \<lparr>sh5_hash = replicate 8 0, total_lo = 0, total_hi = 0, wbuffer5 = replicate 128 NUL\<rparr>"

interpretation sha1: hash_algo "sha1_begin sha1_ctx0" sha1_hash sha1_end "sha_fed Alg_sha1" "sha_spec Alg_sha1"
  by unfold_locales (auto simp: sha1_ctx0_def intro: sha_fed_begin sha_fed_update sha_fed_final)

interpretation sha256: hash_algo "sha256_begin sha1_ctx0" sha1_hash sha1_end "sha_fed Alg_sha256" "sha_spec Alg_sha256"
  by unfold_locales (auto simp: sha1_ctx0_def intro: sha_fed_begin sha_fed_update sha_fed_final)

interpretation sha512: hash_algo "sha512_begin sha512_ctx0" sha512_hash sha512_end sha512_fed sha512_spec
  by unfold_locales (auto simp: sha512_ctx0_def intro: sha512_fed_begin sha512_fed_update sha512_fed_final)



text \<open>
  \<open>sha1sum\<close>, \<open>sha256sum\<close> and \<open>sha512sum\<close> print the digest of the file, however the kernel
  splits the reads.
\<close>

theorem shasum_file:
  assumes "files name = Some f" "feeds f d"
  shows "hash_file (sha1_begin sha1_ctx0) sha1_hash sha1_end files name = Some (bin2hex (sha_spec Alg_sha1 d))
    \<and> hash_file (sha256_begin sha1_ctx0) sha1_hash sha1_end files name = Some (bin2hex (sha_spec Alg_sha256 d))
    \<and> hash_file (sha512_begin sha512_ctx0) sha512_hash sha512_end files name = Some (bin2hex (sha512_spec d))"
  using sha1.hash_file_digest [of files name f d] sha256.hash_file_digest [of files name f d]
    sha512.hash_file_digest [of files name f d] assms by simp

theorem shasum_file_witness:
  "hash_file (sha1_begin sha1_ctx0) sha1_hash sha1_end
     (\<lambda>n. if n = ''abc'' then Some \<lparr>fd_data = ''abc'', fd_events = [Chunk 2, Eintr]\<rparr> else None) ''abc''
   = Some ''a9993e364706816aba3e25717850c26c9cd0d89d''"
  using shasum_file [of "\<lambda>n. if n = ''abc'' then Some \<lparr>fd_data = ''abc'', fd_events = [Chunk 2, Eintr]\<rparr> else None"
    "''abc''" _ "''abc''"] by (simp add: feeds_def sha1_abc)

end
