(* ===== verification/Numbers.thy ===== *)
theory Numbers
  imports Prelude
begin

text \<open>
  Reading numbers from the command line: \<open>libbb/xatonum_template.c\<close> and \<open>libbb/xatonum.c\<close>. The
  template is instantiated for each integer type; here \<open>umax\<close> and \<open>tmax\<close> are \<open>XSTR_UTYPE_MAX\<close> and
  \<open>XSTR_TYPE_MAX\<close> (\<open>int\<close> and \<open>long\<close> have 32 bits on the target, \<open>long long\<close> 64). Values are
  natural numbers: that no operation leaves the range of its type is proved, not assumed.
\<close>

datatype num_error = NotInRange | InvalidNumber

abbreviation UINT_MAX :: nat where "UINT_MAX \<equiv> 2 ^ 32 - 1"
abbreviation INT_MAX :: nat where "INT_MAX \<equiv> 2 ^ 31 - 1"
abbreviation ULLONG_MAX :: nat where "ULLONG_MAX \<equiv> 2 ^ 64 - 1"
abbreviation LLONG_MAX :: nat where "LLONG_MAX \<equiv> 2 ^ 63 - 1"

text \<open>
  \<open>strtoul\<close> of the C library on a text that starts with neither a blank nor a sign, for bases up
  to 16: the value, \<open>None\<close> when it does not fit, and the text behind the digits.
\<close>

definition strtou :: "nat \<Rightarrow> nat \<Rightarrow> string \<Rightarrow> nat option \<times> string" where
  "strtou umax base s =
     (let hex = ((base = 0 \<or> base = 16) \<and> (take 2 s = ''0x'' \<or> take 2 s = ''0X'') \<and> 2 < length s \<and> is_hex (s ! 2));
          b = (if hex then 16 else if base = 0 then (if s \<noteq> [] \<and> hd s = CHR ''0'' then 8 else 10) else base);
          body = (if hex then drop 2 s else s);
          digs = takeWhile (is_digit_of b) body;
          v = digits_value b digs
      in if digs = [] then (Some 0, s) else (if v \<le> umax then Some v else None, drop (length digs) body))"

text \<open>The loop over the suffix table, which ends at a zero multiplier; a null table is empty.\<close>

fun find_suffix :: "(string \<times> nat) list \<Rightarrow> string \<Rightarrow> nat option" where
  "find_suffix [] e = None"
| "find_suffix ((sfx, mult) # suffixes) e =
     (if mult = 0 then None else if sfx = e then Some mult else find_suffix suffixes e)"

definition chk_range :: "nat \<Rightarrow> nat \<Rightarrow> nat \<Rightarrow> num_error + nat" where
  "chk_range lower upper r = (if lower \<le> r \<and> r \<le> upper then Inr r else Inl NotInRange)"

definition xstrtou_range_sfx :: "nat \<Rightarrow> string \<Rightarrow> nat \<Rightarrow> nat \<Rightarrow> nat \<Rightarrow> (string \<times> nat) list \<Rightarrow> num_error + nat" where
  "xstrtou_range_sfx umax numstr base lower upper suffixes =
     (if numstr \<noteq> [] \<and> (hd numstr = CHR ''-'' \<or> hd numstr = CHR ''+'' \<or> isspace (hd numstr)) then Inl InvalidNumber
      else case strtou umax base numstr of
        (None, e) \<Rightarrow> Inl InvalidNumber
      | (Some r, e) \<Rightarrow>
          if e = numstr then Inl InvalidNumber
          else case find_suffix suffixes e of
            Some mult \<Rightarrow> if umax div mult < r then Inl NotInRange else chk_range lower upper (r * mult)
          | None \<Rightarrow> if e \<noteq> [] then Inl InvalidNumber else chk_range lower upper r)"

definition xstrtou_range :: "nat \<Rightarrow> string \<Rightarrow> nat \<Rightarrow> nat \<Rightarrow> nat \<Rightarrow> num_error + nat" where
  "xstrtou_range umax numstr base lower upper = xstrtou_range_sfx umax numstr base lower upper []"

definition xstrtou_sfx :: "nat \<Rightarrow> string \<Rightarrow> nat \<Rightarrow> (string \<times> nat) list \<Rightarrow> num_error + nat" where
  "xstrtou_sfx umax numstr base suffixes = xstrtou_range_sfx umax numstr base 0 umax suffixes"

definition xstrtou :: "nat \<Rightarrow> string \<Rightarrow> nat \<Rightarrow> num_error + nat" where
  "xstrtou umax numstr base = xstrtou_range_sfx umax numstr base 0 umax []"

definition xatou_range_sfx :: "nat \<Rightarrow> string \<Rightarrow> nat \<Rightarrow> nat \<Rightarrow> (string \<times> nat) list \<Rightarrow> num_error + nat" where
  "xatou_range_sfx umax numstr lower upper suffixes = xstrtou_range_sfx umax numstr 10 lower upper suffixes"

definition xatou_range :: "nat \<Rightarrow> string \<Rightarrow> nat \<Rightarrow> nat \<Rightarrow> num_error + nat" where
  "xatou_range umax numstr lower upper = xstrtou_range_sfx umax numstr 10 lower upper []"

definition xatou_sfx :: "nat \<Rightarrow> string \<Rightarrow> (string \<times> nat) list \<Rightarrow> num_error + nat" where
  "xatou_sfx umax numstr suffixes = xstrtou_range_sfx umax numstr 10 0 umax suffixes"

definition xatou :: "nat \<Rightarrow> string \<Rightarrow> num_error + nat" where
  "xatou umax numstr = xatou_sfx umax numstr []"

text \<open>
  The signed readers. The test for \<open>-\<close> that should widen the bound by one looks at the character
  behind the sign.
\<close>

definition xstrto_range_sfx :: "nat \<Rightarrow> nat \<Rightarrow> string \<Rightarrow> nat \<Rightarrow> int \<Rightarrow> int \<Rightarrow> (string \<times> nat) list \<Rightarrow> num_error + int" where
  "xstrto_range_sfx umax tmax numstr base lower upper suffixes =
     (let signed = (numstr \<noteq> [] \<and> (hd numstr = CHR ''+'' \<or> hd numstr = CHR ''-''));
          p = (if signed then tl numstr else numstr);
          u = (if signed \<and> p \<noteq> [] \<and> hd p = CHR ''-'' then tmax + 1 else tmax)
      in and_then (xstrtou_range_sfx umax p base 0 u suffixes) (\<lambda>r.
           let v = (if numstr \<noteq> [] \<and> hd numstr = CHR ''-'' then - int r else int r)
           in if v < lower \<or> upper < v then Inl NotInRange else Inr v))"

definition xstrto_range :: "nat \<Rightarrow> nat \<Rightarrow> string \<Rightarrow> nat \<Rightarrow> int \<Rightarrow> int \<Rightarrow> num_error + int" where
  "xstrto_range umax tmax numstr base lower upper = xstrto_range_sfx umax tmax numstr base lower upper []"

definition xstrto :: "nat \<Rightarrow> nat \<Rightarrow> string \<Rightarrow> nat \<Rightarrow> num_error + int" where
  "xstrto umax tmax numstr base = xstrto_range_sfx umax tmax numstr base (- int tmax - 1) (int tmax) []"

definition xato_range_sfx :: "nat \<Rightarrow> nat \<Rightarrow> string \<Rightarrow> int \<Rightarrow> int \<Rightarrow> (string \<times> nat) list \<Rightarrow> num_error + int" where
  "xato_range_sfx umax tmax numstr lower upper suffixes = xstrto_range_sfx umax tmax numstr 10 lower upper suffixes"

definition xato_range :: "nat \<Rightarrow> nat \<Rightarrow> string \<Rightarrow> int \<Rightarrow> int \<Rightarrow> num_error + int" where
  "xato_range umax tmax numstr lower upper = xstrto_range_sfx umax tmax numstr 10 lower upper []"

definition xato_sfx :: "nat \<Rightarrow> nat \<Rightarrow> string \<Rightarrow> (string \<times> nat) list \<Rightarrow> num_error + int" where
  "xato_sfx umax tmax numstr suffixes = xstrto_range_sfx umax tmax numstr 10 (- int tmax - 1) (int tmax) suffixes"

definition xato :: "nat \<Rightarrow> nat \<Rightarrow> string \<Rightarrow> num_error + int" where
  "xato umax tmax numstr = xstrto_range_sfx umax tmax numstr 10 (- int tmax - 1) (int tmax) []"

definition xatoi_u :: "string \<Rightarrow> num_error + nat" where
  "xatoi_u numstr = xatou_range UINT_MAX numstr 0 INT_MAX"

definition xatou16 :: "string \<Rightarrow> num_error + nat" where
  "xatou16 numstr = xatou_range UINT_MAX numstr 0 0xffff"

section \<open>Keyword tables\<close>

text \<open>\<open>index_in_strings\<close> of \<open>libbb/compare_string_array.c\<close>; \<open>None\<close> is \<open>-1\<close>.\<close>

fun index_in_strings :: "string list \<Rightarrow> string \<Rightarrow> nat option" where
  "index_in_strings [] key = None"
| "index_in_strings (s # strings) key =
     (if strcmp s key = 0 then Some 0 else map_option Suc (index_in_strings strings key))"

section \<open>Decimal texts\<close>

text \<open>The multiplier a suffix stands for: a table entry, or one for no suffix at all.\<close>

definition multiplier :: "(string \<times> nat) list \<Rightarrow> string \<Rightarrow> nat option" where
  "multiplier suffixes e = (case find_suffix suffixes e of Some m \<Rightarrow> Some m | None \<Rightarrow> if e = [] then Some 1 else None)"

definition no_digit :: "string \<Rightarrow> bool" where
  "no_digit e = (case e of [] \<Rightarrow> True | c # _ \<Rightarrow> \<not> isdigit c)"

lemma find_suffix_pos: "find_suffix suffixes e = Some m \<Longrightarrow> 0 < m"
  by (induction suffixes e rule: find_suffix.induct) (auto split: if_splits)

lemma isdigit_no_sign: "isdigit c \<Longrightarrow> c \<noteq> CHR ''-'' \<and> c \<noteq> CHR ''+'' \<and> \<not> isspace c"
  by (auto simp: isdigit_def isspace_def Let_def)

lemma takeWhile_digits_append:
  "list_all isdigit ds \<Longrightarrow> no_digit e \<Longrightarrow> takeWhile isdigit (ds @ e) = ds"
  by (cases e) (auto simp: list_all_iff no_digit_def takeWhile_eq_Nil_iff)

lemma strtou_digits:
  assumes "ds \<noteq> []" "list_all isdigit ds" "no_digit e"
  shows "strtou umax 10 (ds @ e) = (if digits_value 10 ds \<le> umax then Some (digits_value 10 ds) else None, e)"
  using takeWhile_digits_append [OF assms(2,3)] assms(1)
  by (simp add: strtou_def Let_def is_digit_of_10 [abs_def])

lemma strtou_none: "no_digit s \<Longrightarrow> strtou umax 10 s = (Some 0, s)"
  using takeWhile_digits_append [of "[]" s] by (simp add: strtou_def Let_def is_digit_of_10 [abs_def])

lemma split_digits: "\<exists>ds e. s = ds @ e \<and> list_all isdigit ds \<and> no_digit e"
proof -
  have "no_digit (dropWhile isdigit s)" by (induction s) (auto simp: no_digit_def)
  moreover have "list_all isdigit (takeWhile isdigit s)" by (auto simp: list_all_iff dest: set_takeWhileD)
  ultimately show ?thesis by (metis takeWhile_dropWhile_id)
qed

lemma xatou_digits:
  assumes "ds \<noteq> []" "list_all isdigit ds" "no_digit e"
  shows "xstrtou_range_sfx umax (ds @ e) 10 lower upper suffixes =
     (if umax < digits_value 10 ds then Inl InvalidNumber
      else case multiplier suffixes e of
        None \<Rightarrow> Inl InvalidNumber
      | Some m \<Rightarrow> if umax < digits_value 10 ds * m then Inl NotInRange else chk_range lower upper (digits_value 10 ds * m))"
proof -
  have "isdigit (hd ds)" using assms(1,2) by (cases ds) auto
  moreover have "umax div m < n \<longleftrightarrow> umax < n * m" if "0 < m" for m n :: nat
    using that by (simp add: div_less_iff_less_mult)
  moreover have "e \<noteq> ds @ e" using assms(1) by simp
  ultimately show ?thesis
    using strtou_digits [OF assms, of umax] isdigit_no_sign [of "hd ds"] assms(1) find_suffix_pos [of suffixes e]
    by (auto simp: xstrtou_range_sfx_def multiplier_def split: option.splits)
qed

lemma xatou_no_digits:
  assumes "no_digit s"
  shows "xstrtou_range_sfx umax s 10 lower upper suffixes = Inl InvalidNumber"
  using strtou_none [OF assms] by (simp add: xstrtou_range_sfx_def)

text \<open>
  C20. Numbers on the command line are exact: a text is accepted exactly when it is a non-empty run
  of decimal digits and a suffix of the table (or nothing), its value fits the type before and
  after the multiplication, and the product lies in the range; the result is that product, which
  therefore never wraps around.
\<close>

theorem xatou_exact:
  "xatou_range_sfx umax s lower upper suffixes = Inr r \<longleftrightarrow>
     (\<exists>ds e m. s = ds @ e \<and> ds \<noteq> [] \<and> list_all isdigit ds \<and> no_digit e \<and> multiplier suffixes e = Some m
        \<and> digits_value 10 ds \<le> umax \<and> r = digits_value 10 ds * m \<and> r \<le> umax \<and> lower \<le> r \<and> r \<le> upper)"
proof -
  obtain ds e where s: "s = ds @ e" "list_all isdigit ds" "no_digit e" using split_digits by blast
  have unique: "ds' = ds \<and> e' = e" if "s = ds' @ e'" "list_all isdigit ds'" "no_digit e'" for ds' e'
    using takeWhile_digits_append [OF that(2,3)] takeWhile_digits_append [OF s(2,3)] that(1) s(1)
    by (metis same_append_eq)
  show ?thesis
  proof (cases "ds = []")
    case True
    then have "no_digit s" using s by simp
    then have "xatou_range_sfx umax s lower upper suffixes \<noteq> Inr r"
      using xatou_no_digits [of s] by (simp add: xatou_range_sfx_def)
    then show ?thesis using unique True by blast
  next
    case False
    have "xatou_range_sfx umax s lower upper suffixes = Inr r \<longleftrightarrow>
       (\<exists>m. multiplier suffixes e = Some m \<and> digits_value 10 ds \<le> umax \<and> r = digits_value 10 ds * m
          \<and> r \<le> umax \<and> lower \<le> r \<and> r \<le> upper)"
      using xatou_digits [OF False s(2,3), of umax lower upper suffixes] s(1)
      by (auto simp: xatou_range_sfx_def chk_range_def split: option.splits)
    then show ?thesis using unique s False by blast
  qed
qed

lemma xatou_dec_nat:
  assumes "no_digit e"
  shows "xstrtou_range_sfx umax (dec_nat n @ e) 10 lower upper suffixes =
     (if umax < n then Inl InvalidNumber
      else case multiplier suffixes e of
        None \<Rightarrow> Inl InvalidNumber
      | Some m \<Rightarrow> if umax < n * m then Inl NotInRange else chk_range lower upper (n * m))"
  using xatou_digits [OF dec_nat_nonempty _ assms, of n umax lower upper suffixes] dec_nat_digits [of n]
  by (simp add: is_digit_of_10 [abs_def] digits_value_dec_nat split: option.splits)

lemma xato_dec_int:
  assumes "tmax \<le> umax"
  shows "xato umax tmax (dec_int v) = Inr v \<longleftrightarrow> \<bar>v\<bar> \<le> int tmax"
proof -
  have d: "isdigit (hd (dec_nat n))" for n
    using dec_nat_digits [of n] dec_nat_nonempty [of n] by (cases "dec_nat n") (auto simp: is_digit_of_10)
  have nil: "no_digit []" "multiplier [] [] = Some 1" by (simp_all add: no_digit_def multiplier_def)
  note x = xatou_dec_nat [OF nil(1), of umax _ 0 tmax "[]", unfolded nil(2), simplified]
  show ?thesis
    using assms d [of "nat v"] d [of "nat (- v)"] isdigit_no_sign [of "hd (dec_nat (nat v))"] isdigit_no_sign [of "hd (dec_nat (nat (- v)))"]
    by (auto simp: xato_def xstrto_range_sfx_def dec_int_def dec_nat_nonempty x chk_range_def)
qed

text \<open>
  C21. The signed readers accept the decimal text of every value of their type but the least one:
  \<open>xatoi\<close> dies on \<open>-2147483648\<close> although its range is stated to start there.
\<close>

theorem xatoi_reads_back:
  "(xato UINT_MAX INT_MAX (dec_int v) = Inr v \<longleftrightarrow> \<bar>v\<bar> < 2 ^ 31)
   \<and> (xato ULLONG_MAX LLONG_MAX (dec_int v) = Inr v \<longleftrightarrow> \<bar>v\<bar> < 2 ^ 63)"
  using xato_dec_int [of INT_MAX UINT_MAX v] xato_dec_int [of LLONG_MAX ULLONG_MAX v] by auto

end
