(* ===== verification/Dd.thy ===== *)
theory Dd
  imports Fdio Numbers
begin

text \<open>
  \<open>dd\<close> as in \<open>coreutils/dd.c\<close>, the program that writes every image to the target device: its
  arguments, the opening, truncating and seeking of both files, the copy loop with one or two
  buffers, the record counters and every way to fail. Built with \<open>FEATURE_DD_IBS_OBS\<close>,
  \<open>FEATURE_DD_THIRD_STATUS_LINE\<close>, \<open>DESKTOP\<close> and \<open>LFS\<close>; \<open>off_t\<close> has 64 bits, \<open>size_t\<close> 32. The
  timing of the third status line and the \<open>SIGUSR1\<close> handler are not modelled.
\<close>

section \<open>Arguments\<close>

definition dd_suffixes :: "(string \<times> nat) list" where
  "dd_suffixes = [(''c'', 1), (''w'', 2), (''b'', 512), (''kD'', 1000), (''k'', 1024), (''K'', 1024),
     (''MD'', 1000000), (''M'', 1048576), (''GD'', 1000000000), (''G'', 1073741824), ('''', 0)]"

definition dd_keywords :: "string list" where
  "dd_keywords = [''bs'', ''count'', ''seek'', ''skip'', ''if'', ''of'', ''ibs'', ''obs'', ''conv'']"

definition conv_words :: "string list" where
  "conv_words = [''notrunc'', ''sync'', ''noerror'', ''fsync'']"

definition FLAG_NOTRUNC :: u32 where "FLAG_NOTRUNC = 1"
definition FLAG_SYNC :: u32 where "FLAG_SYNC = 2"
definition FLAG_NOERROR :: u32 where "FLAG_NOERROR = 4"
definition FLAG_FSYNC :: u32 where "FLAG_FSYNC = 8"
definition FLAG_TWOBUFS :: u32 where "FLAG_TWOBUFS = 16"
definition FLAG_COUNT :: u32 where "FLAG_COUNT = 32"

lemmas dd_flags = FLAG_NOTRUNC_def FLAG_SYNC_def FLAG_NOERROR_def FLAG_FSYNC_def FLAG_TWOBUFS_def FLAG_COUNT_def

definition has_flag :: "u32 \<Rightarrow> u32 \<Rightarrow> bool" where
  "has_flag flags f \<longleftrightarrow> flags AND f \<noteq> 0"

record dd_opts =
  ibs :: nat
  obs :: nat
  flags :: u32
  cnt :: u64
  seek :: u64
  skip :: u64
  infile :: "string option"
  outfile :: "string option"

definition dd_opts0 :: dd_opts where
  "dd_opts0 = \<lparr>ibs = 512, obs = 512, flags = 0, cnt = 0, seek = 0, skip = 0, infile = None, outfile = None\<rparr>"

datatype dd_error = ShowUsage | BadConv | BadNumber num_error | CannotOpenIn | CannotOpenOut | DieInfile | DieOutfile

definition dd_num :: "num_error + nat \<Rightarrow> dd_error + nat" where
  "dd_num r = (case r of Inl e \<Rightarrow> Inl (BadNumber e) | Inr n \<Rightarrow> Inr n)"

abbreviation SSIZE_MAX :: nat where "SSIZE_MAX \<equiv> (2 ^ 32 - 1) div 2"

text \<open>The loop over the words of \<open>conv=\<close>.\<close>

function conv_loop :: "string \<Rightarrow> u32 \<Rightarrow> dd_error + u32" where
  "conv_loop val fl =
     (let (word, more) = (case split_at (CHR '','') val of None \<Rightarrow> (val, None) | Some (a, b) \<Rightarrow> (a, Some b)) in
      case index_in_strings conv_words word of
        None \<Rightarrow> Inl BadConv
      | Some what \<Rightarrow>
          let fl' = fl OR push_bit what 1 in
          (case more of None \<Rightarrow> Inr fl' | Some r \<Rightarrow> conv_loop r fl'))"
  by pat_completeness auto
termination
  by (relation "measure (\<lambda>(val, fl). length val)") (auto split: option.splits dest!: split_at_Some)

declare conv_loop.simps [simp del]

definition dd_arg :: "string \<Rightarrow> dd_opts \<Rightarrow> dd_error + dd_opts" where
  "dd_arg arg z =
     (if arg = ''--'' then Inr z
      else case split_at (CHR ''='') arg of
        None \<Rightarrow> Inl ShowUsage
      | Some (key, val) \<Rightarrow>
          (case index_in_strings dd_keywords key of
             None \<Rightarrow> Inl ShowUsage
           | Some what \<Rightarrow>
               let size_arg = dd_num (xatou_range_sfx UINT_MAX val 1 SSIZE_MAX dd_suffixes);
                   off_arg = dd_num (xatou_sfx ULLONG_MAX val dd_suffixes)
               in if what = 6 then and_then size_arg (\<lambda>v. Inr (z\<lparr>ibs := v\<rparr>))
                  else if what = 7 then and_then size_arg (\<lambda>v. Inr (z\<lparr>obs := v\<rparr>))
                  else if what = 8 then and_then (conv_loop val (flags z)) (\<lambda>fl. Inr (z\<lparr>flags := fl\<rparr>))
                  else if what = 0 then and_then size_arg (\<lambda>v. Inr (z\<lparr>ibs := v, obs := v\<rparr>))
                  else if what = 1 then
                    and_then off_arg (\<lambda>v. Inr (z\<lparr>flags := flags z OR FLAG_COUNT, cnt := of_nat v\<rparr>))
                  else if what = 2 then and_then off_arg (\<lambda>v. Inr (z\<lparr>seek := of_nat v\<rparr>))
                  else if what = 3 then and_then off_arg (\<lambda>v. Inr (z\<lparr>skip := of_nat v\<rparr>))
                  else if what = 4 then Inr (z\<lparr>infile := Some val\<rparr>)
                  else Inr (z\<lparr>outfile := Some val\<rparr>)))"

fun dd_args :: "string list \<Rightarrow> dd_opts \<Rightarrow> dd_error + dd_opts" where
  "dd_args [] z = Inr z"
| "dd_args (arg # argv) z = and_then (dd_arg arg z) (dd_args argv)"

section \<open>The copy loop\<close>

record dd_state =
  d_in :: fd
  d_out :: sink
  obuf :: bytes
  out_full :: u64
  out_part :: u64
  in_full :: u64
  in_part :: u64
  total_bytes :: u64

definition full_write_or_warn :: "bytes \<Rightarrow> dd_state \<Rightarrow> nat option \<times> dd_state" where
  "full_write_or_warn buf g = (let (n, s) = full_write buf (d_out g) in (n, g\<lparr>d_out := s\<rparr>))"

text \<open>\<open>write_and_stats\<close> returns true when nothing could be written.\<close>

definition write_and_stats :: "bytes \<Rightarrow> nat \<Rightarrow> dd_state \<Rightarrow> bool \<times> dd_state" where
  "write_and_stats buf ob g =
     (case full_write_or_warn buf g of
        (None, g1) \<Rightarrow> (True, g1)
      | (Some n, g1) \<Rightarrow>
          let g2 = (if n = ob then g1\<lparr>out_full := out_full g1 + 1\<rparr>
                    else if n \<noteq> 0 then g1\<lparr>out_part := out_part g1 + 1\<rparr> else g1)
          in (False, g2\<lparr>total_bytes := total_bytes g2 + of_nat n\<rparr>))"

text \<open>
  The loop that moves the block \<open>tmp\<close> through the output buffer. The buffer is never full when
  the loop turns, so \<open>d\<close> is not zero; the second test only makes the recursion evidently end.
\<close>

function twobufs :: "nat \<Rightarrow> bytes \<Rightarrow> dd_state \<Rightarrow> bool \<times> dd_state" where
  "twobufs ob tmp g =
     (let d = min (ob - length (obuf g)) (length tmp) in
      if tmp = [] \<or> d = 0 then (False, g)
      else
        let g1 = g\<lparr>obuf := obuf g @ take d tmp\<rparr> in
        if length (obuf g1) = ob then
          (case write_and_stats (obuf g1) ob g1 of
             (True, g2) \<Rightarrow> (True, g2)
           | (False, g2) \<Rightarrow> twobufs ob (drop d tmp) (g2\<lparr>obuf := []\<rparr>))
        else twobufs ob (drop d tmp) g1)"
  by pat_completeness auto
termination by (relation "measure (\<lambda>(ob, tmp, g). length tmp)") (auto simp: Let_def)

declare twobufs.simps [simp del]

text \<open>What happens to one block that was read, or to an unreadable one (an empty block).\<close>

definition dd_block :: "dd_opts \<Rightarrow> bytes \<Rightarrow> dd_state \<Rightarrow> bool \<times> dd_state" where
  "dd_block z b g =
     (let g1 = (if length b = ibs z then g\<lparr>in_full := in_full g + 1\<rparr> else g\<lparr>in_part := in_part g + 1\<rparr>);
          buf = (if length b \<noteq> ibs z \<and> has_flag (flags z) FLAG_SYNC then b @ replicate (ibs z - length b) NUL else b)
      in if has_flag (flags z) FLAG_TWOBUFS then twobufs (obs z) buf g1 else write_and_stats buf (obs z) g1)"

text \<open>
  The main loop. \<open>seekable\<close> says whether \<open>lseek\<close> works on the input, \<open>fsync_ok\<close> whether \<open>fsync\<close>
  succeeds on the output. The result is true when writing failed.
\<close>

lemma safe_read_None: "safe_read n f = (None, f') \<Longrightarrow> length (fd_events f') < length (fd_events f) \<and> fd_data f' = fd_data f"
proof -
  have "safe_read_ev n d es = (None, f') \<Longrightarrow> length (fd_events f') < length es \<and> fd_data f' = d" for d es
    by (induction n d es rule: safe_read_ev.induct) (auto simp: Let_def)
  then show "safe_read n f = (None, f') \<Longrightarrow> ?thesis" by (simp add: safe_read_def)
qed

lemma safe_read_events: "safe_read n f = (r, f') \<Longrightarrow> length (fd_events f') \<le> length (fd_events f)"
proof -
  have "safe_read_ev n d es = (r, f') \<Longrightarrow> length (fd_events f') \<le> length es" for d es
    by (induction n d es rule: safe_read_ev.induct) (auto simp: Let_def)
  then show "safe_read n f = (r, f') \<Longrightarrow> ?thesis" by (simp add: safe_read_def)
qed

lemma safe_read_less:
  "safe_read n f = (Some b, f') \<Longrightarrow> b \<noteq> [] \<Longrightarrow>
   length (fd_data f') + length (fd_events f') < length (fd_data f) + length (fd_events f)"
  using safe_read_shrinks [of n f b f'] safe_read_events [of n f "Some b" f'] by simp

lemma write_and_stats_in: "write_and_stats buf ob g = (w, g') \<Longrightarrow> d_in g' = d_in g"
  by (auto simp: write_and_stats_def full_write_or_warn_def Let_def split: prod.splits option.splits)

lemma twobufs_in_snd: "d_in (snd (twobufs ob tmp g)) = d_in g"
proof (induction ob tmp g rule: twobufs.induct)
  case (1 ob tmp g)
  define d where "d = min (ob - length (obuf g)) (length tmp)"
  define g1 where "g1 = g\<lparr>obuf := obuf g @ take d tmp\<rparr>"
  obtain v g2 where w: "write_and_stats (obuf g1) ob g1 = (v, g2)" by fastforce
  have "d_in g1 = d_in g" "d_in g2 = d_in g" using write_and_stats_in [OF w] by (simp_all add: g1_def)
  then show ?case
    using 1 [OF d_def _ g1_def] w
    by (subst twobufs.simps) (simp add: Let_def d_def [symmetric] g1_def [symmetric] split: bool.splits)
qed

lemma twobufs_in: "twobufs ob tmp g = (w, g') \<Longrightarrow> d_in g' = d_in g"
  using twobufs_in_snd [of ob tmp g] by simp

lemma dd_block_in: "dd_block z b g = (w, g') \<Longrightarrow> d_in g' = d_in g"
  by (auto simp: dd_block_def Let_def split: if_splits dest!: twobufs_in write_and_stats_in)

text \<open>One read: a block and the state behind it, or \<open>None\<close> at the end of the input.\<close>

definition dd_read :: "bool \<Rightarrow> dd_opts \<Rightarrow> dd_state \<Rightarrow> dd_error + (bytes \<times> dd_state) option" where
  "dd_read seekable z g =
     (case safe_read (ibs z) (d_in g) of
        (Some b, f) \<Rightarrow> if b = [] then Inr None else Inr (Some (b, g\<lparr>d_in := f\<rparr>))
      | (None, f) \<Rightarrow>
          if \<not> has_flag (flags z) FLAG_NOERROR \<or> \<not> seekable then Inl DieInfile
          else Inr (Some ([], g\<lparr>d_in := f\<lparr>fd_data := drop (ibs z) (fd_data f)\<rparr>\<rparr>)))"

definition dd_left :: "dd_state \<Rightarrow> nat" where
  "dd_left g = length (fd_data (d_in g)) + length (fd_events (d_in g))"

lemma dd_read_left: "dd_read seekable z g = Inr (Some (b, g')) \<Longrightarrow> dd_left g' < dd_left g"
  by (auto simp: dd_read_def dd_left_def split: prod.splits option.splits if_splits
      dest: safe_read_None safe_read_less)

function dd_loop :: "bool \<Rightarrow> bool \<Rightarrow> dd_opts \<Rightarrow> dd_state \<Rightarrow> dd_error + (bool \<times> dd_state)" where
  "dd_loop seekable fsync_ok z g =
     (if has_flag (flags z) FLAG_COUNT \<and> in_full g + in_part g = cnt z then Inr (False, g)
      else case dd_read seekable z g of
        Inl e \<Rightarrow> Inl e
      | Inr None \<Rightarrow> Inr (False, g)
      | Inr (Some (b, g1)) \<Rightarrow>
          (case dd_block z b g1 of
             (True, g2) \<Rightarrow> Inr (True, g2)
           | (False, g2) \<Rightarrow>
               if has_flag (flags z) FLAG_FSYNC \<and> \<not> fsync_ok then Inl DieOutfile
               else dd_loop seekable fsync_ok z g2))"
  by pat_completeness auto
termination
  by (relation "measure (\<lambda>(s, y, z, g). dd_left g)")
    (auto dest!: dd_read_left dd_block_in [OF sym] simp: dd_left_def)

declare dd_loop.simps [simp del]

text \<open>The rest of the output buffer.\<close>

definition dd_flush :: "dd_state \<Rightarrow> bool \<times> dd_state" where
  "dd_flush g =
     (if obuf g = [] then (False, g)
      else case full_write_or_warn (obuf g) g of
        (None, g1) \<Rightarrow> (True, g1)
      | (Some w, g1) \<Rightarrow> (False, if w \<noteq> 0 then g1\<lparr>out_part := out_part g1 + 1\<rparr> else g1))"

section \<open>Files\<close>

text \<open>
  An input and what the calls on it do; an output file or device: its contents, the position of
  the descriptor, whether it is a regular file, whether it can be positioned, what its writes do
  and whether \<open>fsync\<close> and \<open>close\<close> succeed.
\<close>

record input =
  i_fd :: fd
  i_seekable :: bool
  i_close_ok :: bool

record target =
  t_data :: bytes
  t_pos :: nat
  t_regular :: bool
  t_seekable :: bool
  t_events :: "io_event list"
  t_fsync_ok :: bool
  t_close_ok :: bool

text \<open>\<open>ftruncate\<close> of a regular file, and writing behind a position.\<close>

definition resize :: "nat \<Rightarrow> bytes \<Rightarrow> bytes" where
  "resize n d = take n d @ replicate (n - length d) NUL"

definition overlay :: "nat \<Rightarrow> bytes \<Rightarrow> bytes \<Rightarrow> bytes" where
  "overlay p s d = (if s = [] then d else resize p d @ s @ drop (p + length s) d)"

text \<open>The loop that skips by reading, for an input that cannot be positioned.\<close>

fun skip_loop :: "nat \<Rightarrow> nat \<Rightarrow> fd \<Rightarrow> dd_error + fd" where
  "skip_loop n 0 f = Inr f"
| "skip_loop n (Suc k) f =
     (case safe_read n f of
        (None, f') \<Rightarrow> Inl DieInfile
      | (Some b, f') \<Rightarrow> if b = [] then Inr f' else skip_loop n k f')"

definition dd_skip :: "dd_opts \<Rightarrow> input \<Rightarrow> dd_error + fd" where
  "dd_skip z i =
     (if skip z = 0 then Inr (i_fd i)
      else let off = sint (skip z * of_nat (ibs z)) in
        if i_seekable i \<and> 0 \<le> off then Inr ((i_fd i)\<lparr>fd_data := drop (nat off) (fd_data (i_fd i))\<rparr>)
        else skip_loop (ibs z) (nat (sint (skip z))) (i_fd i))"

text \<open>Opening the output: truncation and, when a part is to be kept, \<open>ftruncate\<close>.\<close>

definition dd_open_out :: "dd_opts \<Rightarrow> target \<Rightarrow> dd_error + target" where
  "dd_open_out z t =
     (let off = sint (seek z * of_nat (obs z));
          notrunc = has_flag (flags z) FLAG_NOTRUNC
      in if seek z = 0 then Inr (if \<not> notrunc \<and> t_regular t then t\<lparr>t_data := []\<rparr> else t)
         else if notrunc then Inr t
         else if t_regular t then (if 0 \<le> off then Inr (t\<lparr>t_data := resize (nat off) (t_data t)\<rparr>) else Inl DieOutfile)
         else Inr t)"

definition dd_seek :: "dd_opts \<Rightarrow> target \<Rightarrow> dd_error + target" where
  "dd_seek z t =
     (if seek z = 0 then Inr t
      else let off = sint (seek z * of_nat (obs z)) in
        if t_seekable t \<and> 0 \<le> int (t_pos t) + off then Inr (t\<lparr>t_pos := nat (int (t_pos t) + off)\<rparr>) else Inl DieOutfile)"

record dd_result =
  r_ok :: bool
  r_data :: bytes
  r_stats :: dd_state

text \<open>\<open>dd_main\<close> from the opened files on.\<close>

definition dd_run :: "dd_opts \<Rightarrow> input \<Rightarrow> target \<Rightarrow> dd_error + dd_result" where
  "dd_run z i t =
     and_then (dd_skip z i) (\<lambda>f.
     and_then (dd_seek z t) (\<lambda>t1.
       let g0 = \<lparr>d_in = f, d_out = \<lparr>sk_data = [], sk_events = t_events t1\<rparr>, obuf = [], out_full = 0, out_part = 0,
                 in_full = 0, in_part = 0, total_bytes = 0\<rparr>;
           result = (\<lambda>ok g. \<lparr>r_ok = ok, r_data = overlay (t_pos t1) (sk_data (d_out g)) (t_data t1), r_stats = g\<rparr>)
       in and_then (dd_loop (i_seekable i) (t_fsync_ok t1) z g0) (\<lambda>(failed, g).
            if failed then Inr (result False g)
            else case dd_flush g of
              (True, g1) \<Rightarrow> Inr (result False g1)
            | (False, g1) \<Rightarrow>
                if \<not> i_close_ok i then Inl DieInfile
                else if \<not> t_close_ok t1 then Inl DieOutfile
                else Inr (result True g1))))"

text \<open>
  \<open>dd_main\<close>: \<open>fs_in\<close> and \<open>fs_out\<close> are what \<open>xopen\<close> finds under a name (the output is created when
  it does not exist), \<open>stdin\<close> and \<open>stdout\<close> the descriptors it starts with.
\<close>

definition dd_main :: "(string \<Rightarrow> input option) \<Rightarrow> (string \<Rightarrow> target option) \<Rightarrow> input \<Rightarrow> target \<Rightarrow> string list \<Rightarrow> dd_error + dd_result" where
  "dd_main fs_in fs_out stdin stdout argv =
     and_then (dd_args argv dd_opts0) (\<lambda>z0.
       let z = (if ibs z0 \<noteq> obs z0 then z0\<lparr>flags := flags z0 OR FLAG_TWOBUFS\<rparr> else z0) in
       case (case infile z of None \<Rightarrow> Some stdin | Some n \<Rightarrow> fs_in n) of
         None \<Rightarrow> Inl CannotOpenIn
       | Some i \<Rightarrow>
           (case outfile z of
              None \<Rightarrow> dd_run z i stdout
            | Some n \<Rightarrow> (case fs_out n of
                None \<Rightarrow> Inl CannotOpenOut
              | Some t \<Rightarrow> and_then (dd_open_out z t) (dd_run z i))))"

section \<open>What is written is what was read\<close>

definition good :: "dd_state \<Rightarrow> bool" where
  "good g \<longleftrightarrow> Eio \<notin> set (sk_events (d_out g))"

text \<open>The bytes that have left the input: written, or waiting in the output buffer.\<close>

definition dd_stream :: "dd_state \<Rightarrow> bytes" where
  "dd_stream g = sk_data (d_out g) @ obuf g"

lemma write_ok:
  assumes "good g"
  shows "\<exists>s. write_and_stats buf ob g = (False, g\<lparr>d_out := s,
       out_full := out_full g + (if length buf = ob then 1 else 0),
       out_part := out_part g + (if length buf = ob \<or> buf = [] then 0 else 1),
       total_bytes := total_bytes g + of_nat (length buf)\<rparr>)
     \<and> sk_data s = sk_data (d_out g) @ buf \<and> Eio \<notin> set (sk_events s)"
proof -
  obtain s where s: "full_write buf (d_out g) = (Some (length buf), s)" "sk_data s = sk_data (d_out g) @ buf"
    "set (sk_events s) \<subseteq> set (sk_events (d_out g))"
    using full_write_ok [of "d_out g" buf] assms by (auto simp: good_def)
  have "write_and_stats buf ob g = (False, g\<lparr>d_out := s,
       out_full := out_full g + (if length buf = ob then 1 else 0),
       out_part := out_part g + (if length buf = ob \<or> buf = [] then 0 else 1),
       total_bytes := total_bytes g + of_nat (length buf)\<rparr>)"
    by (simp add: write_and_stats_def full_write_or_warn_def s(1))
  then show ?thesis using s assms by (auto simp: good_def)
qed

text \<open>With two buffers only whole output blocks are written before the end.\<close>

definition two_inv :: "nat \<Rightarrow> dd_state \<Rightarrow> bool" where
  "two_inv ob g \<longleftrightarrow> good g \<and> length (obuf g) < ob
     \<and> (\<exists>k. length (sk_data (d_out g)) = ob * k \<and> out_full g = of_nat k \<and> out_part g = 0 \<and> total_bytes g = of_nat (ob * k))"

lemma two_inv_write:
  assumes "two_inv ob g" "length (obuf g @ x) = ob" "x \<noteq> []"
  shows "\<exists>g'. write_and_stats (obuf g @ x) ob (g\<lparr>obuf := obuf g @ x\<rparr>) = (False, g') \<and> two_inv ob (g'\<lparr>obuf := []\<rparr>)
     \<and> dd_stream (g'\<lparr>obuf := []\<rparr>) = dd_stream g @ x \<and> in_full g' = in_full g \<and> in_part g' = in_part g"
proof -
  obtain k where k: "length (sk_data (d_out g)) = ob * k" "out_full g = of_nat k" "out_part g = 0" "total_bytes g = of_nat (ob * k)"
    and g: "good g" using assms(1) by (auto simp: two_inv_def)
  have ob: "0 < ob" using assms by auto
  obtain s where s: "write_and_stats (obuf g @ x) ob (g\<lparr>obuf := obuf g @ x\<rparr>) = (False, g\<lparr>obuf := obuf g @ x, d_out := s,
       out_full := out_full g + 1, out_part := out_part g, total_bytes := total_bytes g + of_nat ob\<rparr>)"
    "sk_data s = sk_data (d_out g) @ obuf g @ x" "Eio \<notin> set (sk_events s)"
    using write_ok [of "g\<lparr>obuf := obuf g @ x\<rparr>" "obuf g @ x" ob] g assms(2) by (auto simp: good_def)
  have "length (sk_data s) = ob * Suc k" "out_full g + 1 = of_nat (Suc k)"
    "total_bytes g + of_nat ob = of_nat (ob * Suc k)"
    using s(2) k assms(2) by (simp_all add: algebra_simps)
  then show ?thesis using s k ob by (auto simp: two_inv_def good_def dd_stream_def algebra_simps intro!: exI [of _ "Suc k"])
qed

lemma twobufs_ok:
  "two_inv ob g \<Longrightarrow> \<exists>g'. twobufs ob tmp g = (False, g') \<and> two_inv ob g' \<and> dd_stream g' = dd_stream g @ tmp
     \<and> in_full g' = in_full g \<and> in_part g' = in_part g"
proof (induction "length tmp" arbitrary: tmp g rule: less_induct)
  case less
  define d where "d = min (ob - length (obuf g)) (length tmp)"
  show ?case
  proof (cases "tmp = []")
    case True
    then show ?thesis using less.prems by (subst twobufs.simps) simp
  next
    case False
    have lt: "length (obuf g) < ob" using less.prems by (simp add: two_inv_def)
    have d: "0 < d" "d \<le> length tmp" "take d tmp \<noteq> []" using False lt by (auto simp: d_def)
    have shorter: "length (drop d tmp) < length tmp" using d False by simp
    show ?thesis
    proof (cases "length (obuf g @ take d tmp) = ob")
      case True
      obtain g1 where g1: "write_and_stats (obuf g @ take d tmp) ob (g\<lparr>obuf := obuf g @ take d tmp\<rparr>) = (False, g1)"
        "two_inv ob (g1\<lparr>obuf := []\<rparr>)" "dd_stream (g1\<lparr>obuf := []\<rparr>) = dd_stream g @ take d tmp"
        "in_full g1 = in_full g" "in_part g1 = in_part g"
        using two_inv_write [OF less.prems True d(3)] by blast
      from less.hyps [OF shorter g1(2)] show ?thesis
        using True False d(1) g1 by (subst twobufs.simps) (auto simp: Let_def d_def [symmetric])
    next
      case neq: False
      then have "two_inv ob (g\<lparr>obuf := obuf g @ take d tmp\<rparr>)"
        using less.prems lt by (auto simp: two_inv_def good_def d_def)
      from less.hyps [OF shorter this] show ?thesis
        using neq False d(1) by (subst twobufs.simps) (auto simp: Let_def d_def [symmetric] dd_stream_def)
    qed
  qed
qed

text \<open>The options with which every byte is copied once and in order.\<close>

definition plain_opts :: "dd_opts \<Rightarrow> bool \<Rightarrow> bool" where
  "plain_opts z fsync_ok \<longleftrightarrow> 0 < ibs z \<and> 0 < obs z \<and> (has_flag (flags z) FLAG_TWOBUFS \<longleftrightarrow> ibs z \<noteq> obs z)
     \<and> \<not> has_flag (flags z) FLAG_SYNC \<and> (has_flag (flags z) FLAG_FSYNC \<longrightarrow> fsync_ok)"

text \<open>What is known between two blocks.\<close>

definition copy_inv :: "dd_opts \<Rightarrow> dd_state \<Rightarrow> bool" where
  "copy_inv z g \<longleftrightarrow> (if ibs z = obs z then good g \<and> obuf g = [] \<and> total_bytes g = of_nat (length (sk_data (d_out g)))
     else two_inv (obs z) g)"

lemma dd_block_ok:
  assumes "plain_opts z y" "copy_inv z g"
  shows "\<exists>g'. dd_block z b g = (False, g') \<and> copy_inv z g' \<and> dd_stream g' = dd_stream g @ b \<and> d_in g' = d_in g
     \<and> in_full g' + in_part g' = in_full g + in_part g + 1"
proof -
  define g1 where "g1 = (if length b = ibs z then g\<lparr>in_full := in_full g + 1\<rparr> else g\<lparr>in_part := in_part g + 1\<rparr>)"
  have g1: "copy_inv z g1" "dd_stream g1 = dd_stream g" "in_full g1 + in_part g1 = in_full g + in_part g + 1"
    using assms(2) by (auto simp: g1_def copy_inv_def good_def two_inv_def dd_stream_def)
  have "\<exists>g'. dd_block z b g = (False, g') \<and> copy_inv z g' \<and> dd_stream g' = dd_stream g @ b
     \<and> in_full g' + in_part g' = in_full g + in_part g + 1"
  proof (cases "ibs z = obs z")
    case True
    then obtain s where s: "write_and_stats b (obs z) g1 = (False, g1\<lparr>d_out := s,
         out_full := out_full g1 + (if length b = obs z then 1 else 0),
         out_part := out_part g1 + (if length b = obs z \<or> b = [] then 0 else 1),
         total_bytes := total_bytes g1 + of_nat (length b)\<rparr>)"
      "sk_data s = sk_data (d_out g1) @ b" "Eio \<notin> set (sk_events s)"
      using write_ok [of g1 b "obs z"] g1(1) by (auto simp: copy_inv_def)
    have "dd_block z b g = write_and_stats b (obs z) g1"
      using assms(1) True by (simp add: dd_block_def plain_opts_def g1_def Let_def)
    then show ?thesis using s g1 True by (auto simp: copy_inv_def good_def dd_stream_def)
  next
    case False
    have "dd_block z b g = twobufs (obs z) b g1"
      using assms(1) False by (simp add: dd_block_def plain_opts_def g1_def Let_def)
    then show ?thesis using twobufs_ok [of "obs z" g1 b] g1 False by (auto simp: copy_inv_def)
  qed
  then show ?thesis using dd_block_in by blast
qed

lemma dd_loop_all:
  assumes "plain_opts z y" "\<not> has_flag (flags z) FLAG_COUNT"
  shows "copy_inv z g \<Longrightarrow> feeds (d_in g) d \<Longrightarrow>
    \<exists>g'. dd_loop sk y z g = Inr (False, g') \<and> copy_inv z g' \<and> dd_stream g' = dd_stream g @ d"
proof (induction "length d" arbitrary: d g rule: less_induct)
  case less
  obtain b f where r: "safe_read (ibs z) (d_in g) = (Some b, f)"
    using safe_read_no_error less.prems(2) by (metis feeds_def)
  note b = safe_read_Some [OF r]
  have f: "feeds f (fd_data f)" "d = b @ fd_data f" using b less.prems(2) by (auto simp: feeds_def)
  show ?case
  proof (cases "b = []")
    case True
    then have "d = []" using b f(2) assms(1) less.prems(2) by (auto simp: plain_opts_def feeds_def)
    then show ?thesis using True r assms(2) less.prems(1) by (subst dd_loop.simps) (simp add: dd_read_def)
  next
    case False
    have "copy_inv z (g\<lparr>d_in := f\<rparr>)" "dd_stream (g\<lparr>d_in := f\<rparr>) = dd_stream g"
      using less.prems(1) by (auto simp: copy_inv_def good_def two_inv_def dd_stream_def)
    then obtain g1 where g1: "dd_block z b (g\<lparr>d_in := f\<rparr>) = (False, g1)" "copy_inv z g1"
      "dd_stream g1 = dd_stream g @ b" "d_in g1 = f"
      using dd_block_ok [OF assms(1), of "g\<lparr>d_in := f\<rparr>" b] by auto
    have "length (fd_data f) < length d" using f(2) False by simp
    then obtain g2 where "dd_loop sk y z g1 = Inr (False, g2)" "copy_inv z g2" "dd_stream g2 = dd_stream g1 @ fd_data f"
      using less.hyps g1(2,4) f(1) by blast
    then show ?thesis
      using False r assms g1 f(2) by (subst dd_loop.simps) (auto simp: dd_read_def plain_opts_def)
  qed
qed

lemma flush_ok:
  assumes "good g" "obuf g \<noteq> []"
  shows "\<exists>s. dd_flush g = (False, g\<lparr>d_out := s, out_part := out_part g + 1\<rparr>) \<and> sk_data s = dd_stream g"
proof -
  obtain s where "full_write (obuf g) (d_out g) = (Some (length (obuf g)), s)" "sk_data s = dd_stream g"
    using full_write_ok [of "d_out g" "obuf g"] assms by (auto simp: good_def dd_stream_def)
  then show ?thesis using assms(2) by (auto simp: dd_flush_def full_write_or_warn_def)
qed

text \<open>The counters after a copy of \<open>n\<close> bytes with two buffers.\<close>

definition two_counts :: "nat \<Rightarrow> nat \<Rightarrow> dd_state \<Rightarrow> bool" where
  "two_counts ob n g \<longleftrightarrow> out_full g = of_nat (n div ob) \<and> out_part g = (if n mod ob = 0 then 0 else 1)
     \<and> total_bytes g = of_nat (n - n mod ob)"

lemma dd_flush_ok:
  assumes "copy_inv z g"
  shows "\<exists>g'. dd_flush g = (False, g') \<and> sk_data (d_out g') = dd_stream g
     \<and> (if ibs z = obs z then total_bytes g' = of_nat (length (dd_stream g)) else two_counts (obs z) (length (dd_stream g)) g')"
proof (cases "ibs z = obs z")
  case True
  then show ?thesis using assms by (auto simp: copy_inv_def dd_flush_def dd_stream_def)
next
  case False
  then obtain k where k: "length (sk_data (d_out g)) = obs z * k" "out_full g = of_nat k" "out_part g = 0"
    "total_bytes g = of_nat (obs z * k)" and g: "good g" "length (obuf g) < obs z"
    using assms by (auto simp: copy_inv_def two_inv_def)
  have n: "length (dd_stream g) = length (obuf g) + obs z * k" using k(1) by (simp add: dd_stream_def)
  have c: "length (dd_stream g) div obs z = k" "length (dd_stream g) mod obs z = length (obuf g)"
    using g(2) unfolding n by simp_all
  have t: "length (dd_stream g) - length (dd_stream g) mod obs z = obs z * k" unfolding c(2) using n by simp
  show ?thesis
  proof (cases "obuf g = []")
    case True
    then have "two_counts (obs z) (length (dd_stream g)) g" using k(2-4) n True unfolding two_counts_def t c by simp
    then show ?thesis using True False by (simp add: dd_flush_def dd_stream_def)
  next
    case ne: False
    obtain s where s: "dd_flush g = (False, g\<lparr>d_out := s, out_part := out_part g + 1\<rparr>)" "sk_data s = dd_stream g"
      using flush_ok [OF g(1) ne] by blast
    have "two_counts (obs z) (length (dd_stream g)) (g\<lparr>d_out := s, out_part := out_part g + 1\<rparr>)"
      using k(2-4) n ne unfolding two_counts_def t c by simp
    then show ?thesis using s False by simp
  qed
qed

lemma dd_seek_fields: "dd_seek z t = Inr t1 \<Longrightarrow> t_data t1 = t_data t \<and> t_events t1 = t_events t
   \<and> t_fsync_ok t1 = t_fsync_ok t \<and> t_close_ok t1 = t_close_ok t"
  by (auto simp: dd_seek_def Let_def split: if_splits)

text \<open>A run without limits copies everything and counts what it wrote.\<close>

lemma dd_run_copies:
  assumes "plain_opts z (t_fsync_ok t)" "\<not> has_flag (flags z) FLAG_COUNT" "skip z = 0"
    and "feeds (i_fd i) d" "i_close_ok i" "Eio \<notin> set (t_events t)" "t_close_ok t" "dd_seek z t = Inr t1"
  shows "\<exists>g. dd_run z i t = Inr \<lparr>r_ok = True, r_data = overlay (t_pos t1) d (t_data t), r_stats = g\<rparr>
     \<and> (if ibs z = obs z then total_bytes g = of_nat (length d) else two_counts (obs z) (length d) g)"
proof -
  note t1 = dd_seek_fields [OF assms(8)]
  let ?g0 = "\<lparr>d_in = i_fd i, d_out = \<lparr>sk_data = [], sk_events = t_events t1\<rparr>, obuf = [], out_full = 0, out_part = 0,
                 in_full = 0, in_part = 0, total_bytes = 0\<rparr>"
  have "copy_inv z ?g0" "dd_stream ?g0 = []"
    using assms(1,6) t1 by (auto simp: copy_inv_def good_def two_inv_def dd_stream_def plain_opts_def)
  then obtain g1 where g1: "dd_loop (i_seekable i) (t_fsync_ok t) z ?g0 = Inr (False, g1)" "copy_inv z g1" "dd_stream g1 = d"
    using dd_loop_all [OF assms(1,2), of ?g0 d] assms(4) by auto
  obtain g where "dd_flush g1 = (False, g)" "sk_data (d_out g) = d"
    "if ibs z = obs z then total_bytes g = of_nat (length d) else two_counts (obs z) (length d) g"
    using dd_flush_ok [OF g1(2)] g1(3) by auto
  then show ?thesis
    using g1(1) t1 assms(3,5,7,8) by (auto simp: dd_run_def dd_skip_def)
qed

text \<open>
  C18. Without \<open>count=\<close>, \<open>skip=\<close> and \<open>conv=sync\<close>, \<open>dd\<close> copies: whatever \<open>ibs\<close> and \<open>obs\<close> are,
  however the kernel splits and interrupts reads and writes, as long as none fails, the output
  holds exactly the bytes of the input from the position of \<open>seek=\<close> on and is otherwise
  unchanged. With two buffers the records written are counted exactly; the byte count of the last
  status line then leaves out the last incomplete block.
\<close>

theorem dd_copies:
  assumes "plain_opts z (t_fsync_ok t)" "\<not> has_flag (flags z) FLAG_COUNT" "skip z = 0"
    and "feeds (i_fd i) d" "i_close_ok i" "Eio \<notin> set (t_events t)" "t_close_ok t" "dd_seek z t = Inr t1"
  shows "\<exists>g. dd_run z i t = Inr \<lparr>r_ok = True, r_data = overlay (t_pos t1) d (t_data t), r_stats = g\<rparr>
     \<and> (if ibs z = obs z then total_bytes g = of_nat (length d) else two_counts (obs z) (length d) g)"
  by (rule dd_run_copies [OF assms])

section \<open>The commands of the flash script\<close>

lemma dd_suffix_none [simp]: "multiplier dd_suffixes [] = Some 1"
  by (simp add: multiplier_def dd_suffixes_def)

lemma no_digit_Nil [simp]: "no_digit []"
  by (simp add: no_digit_def)

lemma dd_size_arg: "1 \<le> n \<Longrightarrow> n \<le> SSIZE_MAX \<Longrightarrow> dd_num (xatou_range_sfx UINT_MAX (dec_nat n) 1 SSIZE_MAX dd_suffixes) = Inr n"
  using xatou_dec_nat [of "[]" UINT_MAX n 1 SSIZE_MAX dd_suffixes]
  by (simp add: xatou_range_sfx_def dd_num_def chk_range_def)

lemma dd_off_arg: "n < 2 ^ 64 \<Longrightarrow> dd_num (xatou_sfx ULLONG_MAX (dec_nat n) dd_suffixes) = Inr n"
  using xatou_dec_nat [of "[]" ULLONG_MAX n 0 ULLONG_MAX dd_suffixes]
  by (simp add: xatou_sfx_def dd_num_def chk_range_def)

lemma dd_arg_simps:
  "dd_arg (''if='' @ v) z = Inr (z\<lparr>infile := Some v\<rparr>)"
  "dd_arg (''of='' @ v) z = Inr (z\<lparr>outfile := Some v\<rparr>)"
  "1 \<le> n \<Longrightarrow> n \<le> SSIZE_MAX \<Longrightarrow> dd_arg (''bs='' @ dec_nat n) z = Inr (z\<lparr>ibs := n, obs := n\<rparr>)"
  "n < 2 ^ 64 \<Longrightarrow> dd_arg (''seek='' @ dec_nat n) z = Inr (z\<lparr>seek := of_nat n\<rparr>)"
  "n < 2 ^ 64 \<Longrightarrow> dd_arg (''count='' @ dec_nat n) z = Inr (z\<lparr>flags := flags z OR FLAG_COUNT, cnt := of_nat n\<rparr>)"
  using dd_size_arg [of n] dd_off_arg [of n] by (simp_all add: dd_arg_def dd_keywords_def)

text \<open>A device node that is there, can be positioned and takes every write.\<close>

definition device :: "bytes \<Rightarrow> io_event list \<Rightarrow> target" where
  "device d ev = \<lparr>t_data = d, t_pos = 0, t_regular = False, t_seekable = True, t_events = ev, t_fsync_ok = True, t_close_ok = True\<rparr>"

lemma seek_offset:
  assumes "n * k < 2 ^ 63"
  shows "sint (of_nat n * of_nat k :: u64) = int (n * k)"
proof -
  have "sint (of_nat m :: u64) = int m" if "m < 2 ^ 63" for m
    using that by (simp add: signed_of_nat signed_take_bit_int_eq_self)
  from this [OF assms] show ?thesis by simp
qed

lemma dd_seek_device:
  assumes "off * bs < 2 ^ 63" "1 \<le> bs" "seek z = of_nat off" "obs z = bs"
  shows "dd_seek z (device d ev) = Inr ((device d ev)\<lparr>t_pos := off * bs\<rparr>)"
proof -
  have "off < 2 ^ 63" using assms by (cases bs) auto
  then have "(of_nat off :: u64) = 0 \<longleftrightarrow> off = 0" by (simp flip: unat_eq_0)
  then show ?thesis using seek_offset [OF assms(1)] assms(3,4) by (auto simp: dd_seek_def device_def Let_def simp del: of_nat_mult)
qed

lemma overlay_inside: "p + length s \<le> length d \<Longrightarrow> overlay p s d = take p d @ s @ drop (p + length s) d"
  by (simp add: overlay_def resize_def)

lemma flag_tests [simp]:
  "\<not> has_flag 0 f" "has_flag FLAG_COUNT FLAG_COUNT" "\<not> has_flag FLAG_COUNT FLAG_SYNC" "\<not> has_flag FLAG_COUNT FLAG_FSYNC"
  "\<not> has_flag FLAG_COUNT FLAG_TWOBUFS" "\<not> has_flag FLAG_COUNT FLAG_NOTRUNC"
  by (simp_all add: has_flag_def dd_flags)

lemma dd_main_opened:
  assumes "dd_args argv dd_opts0 = Inr z" "ibs z = obs z" "infile z = Some img" "outfile z = Some dev"
    and "fs_in img = Some i" "fs_out dev = Some t" "dd_open_out z t = Inr t1"
  shows "dd_main fs_in fs_out stdin stdout argv = dd_run z i t1"
  using assms by (simp add: dd_main_def)

text \<open>
  C17. \<open>dd if=<image> of=<device> bs=<bs> seek=<off>\<close>, the command with which the flash script
  writes an image: when the image fits behind the offset, the device afterwards holds the image
  from byte \<open>off * bs\<close> on and every other byte of it is as before.
\<close>

theorem dd_flashes_image:
  assumes "fs_in img = Some i" "feeds (i_fd i) d" "i_close_ok i"
    and "fs_out dev = Some (device old ev)" "Eio \<notin> set ev"
    and "1 \<le> bs" "bs \<le> SSIZE_MAX" "off * bs + length d \<le> length old" "off * bs < 2 ^ 63"
  shows "\<exists>g. dd_main fs_in fs_out stdin stdout [''if='' @ img, ''of='' @ dev, ''bs='' @ dec_nat bs, ''seek='' @ dec_nat off]
    = Inr \<lparr>r_ok = True, r_data = take (off * bs) old @ d @ drop (off * bs + length d) old, r_stats = g\<rparr>"
proof -
  let ?z = "dd_opts0\<lparr>infile := Some img, outfile := Some dev, ibs := bs, obs := bs, seek := of_nat off\<rparr>"
  have off: "off < 2 ^ 64" using assms(6,9) by (cases bs) auto
  have a: "dd_args [''if='' @ img, ''of='' @ dev, ''bs='' @ dec_nat bs, ''seek='' @ dec_nat off] dd_opts0 = Inr ?z"
    using assms(6,7) off by (simp add: dd_arg_simps [simplified])
  have o: "dd_open_out ?z (device old ev) = Inr (device old ev)"
    by (simp add: dd_open_out_def device_def Let_def)
  have "dd_seek ?z (device old ev) = Inr ((device old ev)\<lparr>t_pos := off * bs\<rparr>)"
    using dd_seek_device [OF assms(9,6), of ?z old ev] by simp
  then have "\<exists>g. dd_run ?z i (device old ev) = Inr \<lparr>r_ok = True, r_data = overlay (off * bs) d old, r_stats = g\<rparr>"
    using dd_run_copies [of ?z "device old ev" i d] assms(2,3,5,6)
    by (auto simp: plain_opts_def dd_opts0_def device_def)
  then show ?thesis
    using dd_main_opened [OF a, of img dev fs_in i fs_out "device old ev" "device old ev" stdin stdout] o assms(1,4,8) by (simp add: overlay_inside)
qed

lemma dd_loop_bytes:
  assumes "plain_opts z y" "ibs z = 1" "obs z = 1" "has_flag (flags z) FLAG_COUNT"
  shows "copy_inv z g \<Longrightarrow> feeds (d_in g) d \<Longrightarrow> n \<le> length d \<Longrightarrow> n < 2 ^ 64 \<Longrightarrow> in_full g + in_part g + of_nat n = cnt z \<Longrightarrow>
    \<exists>g'. dd_loop sk y z g = Inr (False, g') \<and> copy_inv z g' \<and> dd_stream g' = dd_stream g @ take n d"
proof (induction n arbitrary: g d)
  case 0
  then show ?case using assms(4) by (subst dd_loop.simps) simp
next
  case (Suc n)
  have neq: "in_full g + in_part g \<noteq> cnt z"
  proof
    assume "in_full g + in_part g = cnt z"
    then have "(of_nat (Suc n) :: u64) = 0" using Suc.prems(5) by simp
    then have "unat (of_nat (Suc n) :: u64) = 0" by simp
    moreover have "unat (of_nat (Suc n) :: u64) = Suc n" using Suc.prems(4) by (intro unat_of_nat_small) simp
    ultimately show False by simp
  qed
  obtain b f where r: "safe_read 1 (d_in g) = (Some b, f)"
    using safe_read_no_error Suc.prems(2) by (metis feeds_def)
  note b = safe_read_Some [OF r]
  have f: "feeds f (fd_data f)" "d = b @ fd_data f" "length b = 1"
    using b Suc.prems(2,3) by (auto simp: feeds_def le_Suc_eq)
  have "copy_inv z (g\<lparr>d_in := f\<rparr>)" "dd_stream (g\<lparr>d_in := f\<rparr>) = dd_stream g"
    using Suc.prems(1) by (auto simp: copy_inv_def good_def two_inv_def dd_stream_def)
  then obtain g1 where g1: "dd_block z b (g\<lparr>d_in := f\<rparr>) = (False, g1)" "copy_inv z g1"
    "dd_stream g1 = dd_stream g @ b" "d_in g1 = f" "in_full g1 + in_part g1 = in_full g + in_part g + 1"
    using dd_block_ok [OF assms(1), of "g\<lparr>d_in := f\<rparr>" b] by auto
  have "in_full g1 + in_part g1 + of_nat n = cnt z" using Suc.prems(5) g1(5) by (simp add: algebra_simps)
  then obtain g2 where "dd_loop sk y z g1 = Inr (False, g2)" "copy_inv z g2" "dd_stream g2 = dd_stream g1 @ take n (fd_data f)"
    using Suc.IH [OF g1(2), of "fd_data f"] g1(4) f Suc.prems(3,4) by auto
  moreover have "b \<noteq> []" using f(3) by auto
  ultimately show ?case
    using neq r assms g1 f(2,3) by (subst dd_loop.simps) (auto simp: dd_read_def plain_opts_def)
qed

text \<open>
  \<open>dd if=/dev/zero of=<device> bs=1 seek=446 count=64\<close>, the command that clears the partition
  table, for any offset and count: exactly \<open>count\<close> bytes of the device are replaced, by the first
  bytes of the input.
\<close>

theorem dd_clears_exactly:
  assumes "fs_in src = Some i" "feeds (i_fd i) d" "i_close_ok i" "n \<le> length d"
    and "fs_out dev = Some (device old ev)" "Eio \<notin> set ev"
    and "off + n \<le> length old" "off < 2 ^ 63" "n < 2 ^ 64"
  shows "\<exists>g. dd_main fs_in fs_out stdin stdout
      [''if='' @ src, ''of='' @ dev, ''bs='' @ dec_nat 1, ''seek='' @ dec_nat off, ''count='' @ dec_nat n]
    = Inr \<lparr>r_ok = True, r_data = take off old @ take n d @ drop (off + n) old, r_stats = g\<rparr>"
proof -
  let ?z = "dd_opts0\<lparr>infile := Some src, outfile := Some dev, ibs := 1, obs := 1, seek := of_nat off, flags := FLAG_COUNT, cnt := of_nat n\<rparr>"
  have z: "plain_opts ?z True" "ibs ?z = 1" "obs ?z = 1" "has_flag (flags ?z) FLAG_COUNT"
    by (simp_all add: plain_opts_def)
  have a: "dd_args [''if='' @ src, ''of='' @ dev, ''bs='' @ dec_nat 1, ''seek='' @ dec_nat off, ''count='' @ dec_nat n] dd_opts0 = Inr ?z"
    using assms(8,9) by (simp add: dd_arg_simps [simplified] dd_opts0_def)
  have o: "dd_open_out ?z (device old ev) = Inr (device old ev)"
    by (simp add: dd_open_out_def device_def Let_def)
  have seek: "dd_seek ?z (device old ev) = Inr ((device old ev)\<lparr>t_pos := off\<rparr>)"
    using dd_seek_device [of off 1 ?z old ev] assms(8) by simp
  have "\<exists>g. dd_run ?z i (device old ev) = Inr \<lparr>r_ok = True, r_data = overlay off (take n d) old, r_stats = g\<rparr>"
  proof -
    let ?g0 = "\<lparr>d_in = i_fd i, d_out = \<lparr>sk_data = [], sk_events = ev\<rparr>, obuf = [], out_full = 0, out_part = 0,
                 in_full = 0, in_part = 0, total_bytes = 0\<rparr>"
    have "copy_inv ?z ?g0" "dd_stream ?g0 = []"
      using assms(6) by (auto simp: copy_inv_def good_def dd_stream_def)
    then obtain g1 where g1: "dd_loop (i_seekable i) True ?z ?g0 = Inr (False, g1)" "copy_inv ?z g1" "dd_stream g1 = take n d"
      using dd_loop_bytes [OF z, of ?g0 d n] assms(2,4,9) by auto
    obtain g where "dd_flush g1 = (False, g)" "sk_data (d_out g) = take n d"
      using dd_flush_ok [OF g1(2)] g1(3) by auto
    then show ?thesis using g1(1) seek assms(3) by (simp add: dd_run_def dd_skip_def device_def dd_opts0_def)
  qed
  then show ?thesis
    using dd_main_opened [OF a, of src dev fs_in i fs_out "device old ev" "device old ev" stdin stdout] o assms(1,4,5,7) by (simp add: overlay_inside)
qed

text \<open>
  C19. A write error inside the last block goes unnoticed: \<open>full_write\<close> reports the bytes it wrote
  before the error, \<open>write_and_stats\<close> counts them as a partial record, and since nothing is left to
  write \<open>dd\<close> exits with success although the rest of the block is lost.
\<close>

theorem dd_loses_tail:
  assumes "plain_opts z True" "ibs z = obs z" "\<not> has_flag (flags z) FLAG_COUNT" "skip z = 0" "seek z = 0"
    and "0 < m" "m < length d" "length d \<le> ibs z" "i_close_ok i" "i_fd i = plain_fd d"
  shows "\<exists>g. dd_run z i (device old [Chunk (m - 1), Eio])
    = Inr \<lparr>r_ok = True, r_data = overlay 0 (take m d) old, r_stats = g\<rparr>"
proof -
  have d: "d \<noteq> []" "take m d \<noteq> []" "\<not> length d \<le> m" using assms(6,7) by auto
  have w: "full_write d \<lparr>sk_data = [], sk_events = [Chunk (m - 1), Eio]\<rparr> = (Some m, \<lparr>sk_data = take m d, sk_events = []\<rparr>)"
    using d assms(6,7)
    by (simp add: full_write_def full_write_loop.simps [of d] full_write_loop.simps [of "drop m d"] safe_write_def min_def)
  have loop: "dd_loop sk True z g = (if fd_data (d_in g) = [] then Inr (False, g) else
      (case dd_block z (fd_data (d_in g)) (g\<lparr>d_in := plain_fd []\<rparr>) of
         (True, g2) \<Rightarrow> Inr (True, g2) | (False, g2) \<Rightarrow> dd_loop sk True z g2))"
    if "fd_events (d_in g) = []" "length (fd_data (d_in g)) \<le> ibs z" for sk g
    using that assms(1,3) by (subst dd_loop.simps) (simp add: dd_read_def safe_read_def plain_opts_def split: prod.splits bool.splits)
  have blk: "dd_block z d g = write_and_stats d (obs z) (if length d = ibs z then g\<lparr>in_full := in_full g + 1\<rparr> else g\<lparr>in_part := in_part g + 1\<rparr>)" for g
    using assms(1,2) by (simp add: dd_block_def plain_opts_def Let_def)
  show ?thesis
    using assms(4,5,7-10) d w
    by (simp add: dd_run_def dd_skip_def dd_seek_def device_def loop blk write_and_stats_def full_write_or_warn_def dd_flush_def)
      blast
qed

section \<open>Witnesses\<close>

definition demo_input :: input where
  "demo_input = \<lparr>i_fd = \<lparr>fd_data = ''kernel!'', fd_events = [Chunk 1, Eintr, Chunk 0]\<rparr>, i_seekable = True, i_close_ok = True\<rparr>"

theorem dd_copies_witness:
  "\<exists>g. dd_run (dd_opts0\<lparr>ibs := 3, obs := 2, flags := FLAG_TWOBUFS, seek := 1\<rparr>) demo_input (device ''..........'' [Chunk 0, Eintr])
    = Inr \<lparr>r_ok = True, r_data = ''..kernel!.'', r_stats = g\<rparr> \<and> out_full g = 3 \<and> out_part g = 1 \<and> total_bytes g = 6"
proof -
  let ?z = "dd_opts0\<lparr>ibs := 3, obs := 2, flags := FLAG_TWOBUFS, seek := 1\<rparr>"
  let ?t = "device ''..........'' [Chunk 0, Eintr]"
  have s: "dd_seek ?z ?t = Inr (?t\<lparr>t_pos := 2\<rparr>)"
    using dd_seek_device [of 1 2 ?z "''..........''" "[Chunk 0, Eintr]"] by simp
  have "plain_opts ?z (t_fsync_ok ?t)"
    by (simp add: plain_opts_def has_flag_def dd_flags)
  then show ?thesis
    using dd_copies [OF _ _ _ _ _ _ _ s, of demo_input "''kernel!''"]
    by (simp add: demo_input_def device_def feeds_def has_flag_def dd_flags dd_opts0_def overlay_def resize_def two_counts_def)
qed

theorem dd_flashes_image_witness:
  "\<exists>g. dd_main (\<lambda>n. if n = ''uImage'' then Some demo_input else None)
      (\<lambda>n. if n = ''/dev/emmc'' then Some (device ''0123456789abcdef'' [Chunk 2]) else None) demo_input (device [] [])
      [''if='' @ ''uImage'', ''of='' @ ''/dev/emmc'', ''bs='' @ dec_nat 2, ''seek='' @ dec_nat 3]
    = Inr \<lparr>r_ok = True, r_data = ''012345kernel!def'', r_stats = g\<rparr>"
  using dd_flashes_image [of "\<lambda>n. if n = ''uImage'' then Some demo_input else None" "''uImage''" demo_input "''kernel!''"
      "\<lambda>n. if n = ''/dev/emmc'' then Some (device ''0123456789abcdef'' [Chunk 2]) else None" "''/dev/emmc''"
      "''0123456789abcdef''" "[Chunk 2]" 2 3 demo_input "device [] []"]
  by (simp add: demo_input_def feeds_def)

theorem dd_clears_exactly_witness:
  "\<exists>g. dd_main (\<lambda>n. if n = ''zero'' then Some \<lparr>i_fd = plain_fd ''00000000'', i_seekable = True, i_close_ok = True\<rparr> else None)
      (\<lambda>n. Some (device ''partition table'' [])) demo_input (device [] [])
      [''if='' @ ''zero'', ''of='' @ ''mbr'', ''bs='' @ dec_nat 1, ''seek='' @ dec_nat 4, ''count='' @ dec_nat 5]
    = Inr \<lparr>r_ok = True, r_data = ''part00000 table'', r_stats = g\<rparr>"
  using dd_clears_exactly [of "\<lambda>n. if n = ''zero'' then Some \<lparr>i_fd = plain_fd ''00000000'', i_seekable = True, i_close_ok = True\<rparr> else None"
      "''zero''" _ "''00000000''" 5 "\<lambda>n. Some (device ''partition table'' [])" "''mbr''" "''partition table''" "[]" 4
      demo_input "device [] []"]
  by (simp add: feeds_def)

theorem dd_loses_tail_witness:
  "\<exists>g. dd_run dd_opts0 \<lparr>i_fd = plain_fd ''uramdisk'', i_seekable = True, i_close_ok = True\<rparr> (device ''xxxxxxxx'' [Chunk (3 - 1), Eio])
    = Inr \<lparr>r_ok = True, r_data = ''uraxxxxx'', r_stats = g\<rparr>"
  using dd_loses_tail [of dd_opts0 3 "''uramdisk''" "\<lparr>i_fd = plain_fd ''uramdisk'', i_seekable = True, i_close_ok = True\<rparr>" "''xxxxxxxx''"]
  by (simp add: plain_opts_def dd_opts0_def overlay_def resize_def)

end
