(* ===== verification/Cut.thy ===== *)
theory Cut
  imports Lines Numbers
begin

text \<open>
  \<open>cut\<close> as in \<open>coreutils/cut.c\<close>: the lists of positions, and cutting by characters, by lines (a
  newline as delimiter) and by fields. Positions are C \<open>int\<close>s; the readers keep them between 0 and
  \<open>INT_MAX\<close>, so that they are integers here.
\<close>

record cut_list =
  startpos :: int
  endpos :: int

abbreviation BOL :: int where "BOL \<equiv> 0"
abbreviation EOL :: int where "EOL \<equiv> 2 ^ 31 - 1"
abbreviation NON_RANGE :: int where "NON_RANGE \<equiv> - 1"

section \<open>Cutting one line\<close>

text \<open>
  Characters: the inner loop over one list, and the loop over all lists. \<open>printed\<close> marks the
  positions that were printed.
\<close>

function chars_loop :: "string \<Rightarrow> cut_list \<Rightarrow> nat \<Rightarrow> bool list \<times> string \<Rightarrow> bool list \<times> string" where
  "chars_loop line l spos (printed, out) =
     (if spos < length line then
        let st = (if \<not> printed ! spos then (printed[spos := True], out @ [line ! spos]) else (printed, out)) in
        if int (Suc spos) > endpos l then st else chars_loop line l (Suc spos) st
      else (printed, out))"
  by pat_completeness auto
termination by (relation "measure (\<lambda>(line, l, spos, st). length line - spos)") (auto simp: Let_def split: if_splits)

declare chars_loop.simps [simp del]

definition cut_chars :: "cut_list list \<Rightarrow> string \<Rightarrow> string" where
  "cut_chars ls line =
     snd (fold (\<lambda>l. chars_loop line l (nat (startpos l))) ls (replicate (Suc (length line)) False, []))"

text \<open>Lines: whether line number \<open>linenum\<close> is to be printed.\<close>

function lines_loop :: "cut_list list \<Rightarrow> int \<Rightarrow> int \<Rightarrow> bool" where
  "lines_loop ls spos linenum =
     (case ls of
        [] \<Rightarrow> False
      | l # rs \<Rightarrow>
          if spos < linenum then
            (if spos + 1 > endpos l \<or> endpos l = NON_RANGE then
               (case rs of
                  [] \<Rightarrow> False
                | l2 # _ \<Rightarrow> if linenum < startpos l2 then False else lines_loop rs (startpos l2) linenum)
             else lines_loop ls (spos + 1) linenum)
          else True)"
  by pat_completeness auto
termination
  by (relation "measures [\<lambda>(ls, spos, n). length ls, \<lambda>(ls, spos, n). nat (n - spos)]") auto

declare lines_loop.simps [simp del]

definition cut_line_wanted :: "cut_list list \<Rightarrow> int \<Rightarrow> bool" where
  "cut_line_wanted ls linenum =
     (case ls of [] \<Rightarrow> False | l # _ \<Rightarrow> if linenum < startpos l then False else lines_loop ls (startpos l) linenum)"

text \<open>Fields. \<open>strsep\<close> with a one-character delimiter: the token and what is left of the line.\<close>

definition strsep :: "char \<Rightarrow> string \<Rightarrow> string \<times> string option" where
  "strsep delim l = (case split_at delim l of None \<Rightarrow> (l, None) | Some (a, b) \<Rightarrow> (a, Some b))"

record fields_state =
  f_line :: "string option"
  ndelim :: int
  f_field :: "string option"
  f_printed :: "bool list"
  nfields_printed :: nat
  f_out :: string

lemma strsep_shorter: "strsep d l = (a, Some b) \<Longrightarrow> length b < length l"
  by (auto simp: strsep_def dest!: split_at_Some split: option.splits)

function find_field :: "char \<Rightarrow> int \<Rightarrow> fields_state \<Rightarrow> fields_state" where
  "find_field delim spos st =
     (case f_line st of
        None \<Rightarrow> st
      | Some l \<Rightarrow>
          if ndelim st < spos then
            find_field delim spos (st\<lparr>f_line := snd (strsep delim l), f_field := Some (fst (strsep delim l)), ndelim := ndelim st + 1\<rparr>)
          else st)"
  by pat_completeness auto
termination by (relation "measure (\<lambda>(d, spos, st). nat (spos - ndelim st))") auto

declare find_field.simps [simp del]

definition print_field :: "char \<Rightarrow> int \<Rightarrow> fields_state \<Rightarrow> fields_state" where
  "print_field delim spos st =
     (case f_field st of
        None \<Rightarrow> st
      | Some f \<Rightarrow>
          if ndelim st = spos \<and> \<not> f_printed st ! nat (ndelim st) then
            st\<lparr>f_out := f_out st @ (if 0 < nfields_printed st then [delim] else []) @ f,
               f_printed := (f_printed st)[nat (ndelim st) := True], nfields_printed := Suc (nfields_printed st)\<rparr>
          else st)"

text \<open>The \<open>do\<close> loop over one list, and the loop over the lists while there is a line.\<close>

function fields_loop :: "char \<Rightarrow> cut_list \<Rightarrow> int \<Rightarrow> fields_state \<Rightarrow> fields_state" where
  "fields_loop delim l spos st =
     (let st' = print_field delim spos (find_field delim spos st) in
      if spos + 1 \<le> endpos l \<and> f_line st' \<noteq> None \<and> endpos l \<noteq> NON_RANGE
      then fields_loop delim l (spos + 1) st' else st')"
  by pat_completeness auto
termination by (relation "measure (\<lambda>(d, l, spos, st). nat (endpos l - spos))") auto

declare fields_loop.simps [simp del]

fun fields_lists :: "char \<Rightarrow> cut_list list \<Rightarrow> fields_state \<Rightarrow> fields_state" where
  "fields_lists delim [] st = st"
| "fields_lists delim (l # ls) st =
     (if f_line st = None then st else fields_lists delim ls (fields_loop delim l (startpos l) st))"

definition cut_fields :: "char \<Rightarrow> cut_list list \<Rightarrow> string \<Rightarrow> string" where
  "cut_fields delim ls line =
     f_out (fields_lists delim ls \<lparr>f_line = Some line, ndelim = - 1, f_field = None,
       f_printed = replicate (Suc (length line)) False, nfields_printed = 0, f_out = []\<rparr>)"

section \<open>Files and arguments\<close>

datatype cut_mode = Bytes | Chars | Fields

text \<open>
  \<open>cut_file\<close>: what is printed for each line. \<open>strchr\<close> also finds a NUL delimiter, at the end of
  the line.
\<close>

definition cut_one :: "cut_mode \<Rightarrow> bool \<Rightarrow> char \<Rightarrow> cut_list list \<Rightarrow> nat \<Rightarrow> string \<Rightarrow> string" where
  "cut_one mode suppress delim ls linenum line =
     (if mode = Bytes \<or> mode = Chars then cut_chars ls line @ [NL]
      else if delim = NL then (if cut_line_wanted ls (int linenum) then line @ [NL] else [])
      else if delim \<noteq> NUL \<and> delim \<notin> set line then (if suppress then [] else line @ [NL])
      else cut_fields delim ls line @ [NL])"

definition cut_file :: "cut_mode \<Rightarrow> bool \<Rightarrow> char \<Rightarrow> cut_list list \<Rightarrow> bytes \<Rightarrow> string" where
  "cut_file mode suppress delim ls file =
     concat (map (\<lambda>(n, line). cut_one mode suppress delim ls n line) (enumerate 0 (getlines file)))"

datatype cut_error = ExpectedList | DelimiterTooLong | SuppressNeedsFields | DelimiterNeedsFields
  | MissingList | CutNumber num_error

definition cut_num :: "string \<Rightarrow> cut_error + int" where
  "cut_num t = (case xatoi_u t of Inl e \<Rightarrow> Inl (CutNumber e) | Inr n \<Rightarrow> Inr (int n))"

text \<open>One list: \<open>N\<close>, \<open>N-\<close>, \<open>N-M\<close> or \<open>-M\<close>.\<close>

definition parse_list :: "string \<Rightarrow> cut_error + cut_list" where
  "parse_list ltok =
     (let (ntok, more) = strsep (CHR ''-'') ltok in
      and_then (if ntok = [] then Inr BOL else and_then (cut_num ntok) (\<lambda>s. Inr (if s \<noteq> 0 then s - 1 else s))) (\<lambda>s.
      and_then (case more of
          None \<Rightarrow> Inr NON_RANGE
        | Some m \<Rightarrow>
            if m = [] then Inr EOL
            else and_then (cut_num m) (\<lambda>e.
              let e' = (if e = 0 then EOL else e) - 1 in Inr (if e' = s then NON_RANGE else e'))) (\<lambda>e.
        Inr \<lparr>startpos = s, endpos = e\<rparr>)))"

function parse_lists :: "string \<Rightarrow> cut_error + cut_list list" where
  "parse_lists sopt =
     (let (ltok, more) = strsep (CHR '','') sopt in
      and_then (if ltok = [] then Inr [] else and_then (parse_list ltok) (\<lambda>l. Inr [l])) (\<lambda>ls.
        case more of None \<Rightarrow> Inr ls | Some r \<Rightarrow> and_then (parse_lists r) (\<lambda>rs. Inr (ls @ rs))))"
  by pat_completeness auto
termination by (relation "measure length") (auto dest: strsep_shorter [OF sym])

declare parse_lists.simps [simp del]

text \<open>
  \<open>cut_main\<close> after \<open>getopt32\<close>: the one of \<open>-b\<close>, \<open>-c\<close>, \<open>-f\<close> that was given with its argument (they
  exclude each other), the arguments \<open>-d\<close> and \<open>-s\<close> and the files. \<open>qsort\<close> may order lists with
  equal start in any way; the model sorts stably, and what is proved below holds for every order.
\<close>

definition cut_main :: "(string \<Rightarrow> bytes option) \<Rightarrow> (cut_mode \<times> string) option \<Rightarrow> string option \<Rightarrow> bool \<Rightarrow> string list
    \<Rightarrow> cut_error + (bool \<times> string)" where
  "cut_main files listopt dopt suppress argv0 =
     (case listopt of
        None \<Rightarrow> Inl ExpectedList
      | Some (mode, sopt) \<Rightarrow>
          if (case dopt of None \<Rightarrow> False | Some t \<Rightarrow> 1 < length t) then Inl DelimiterTooLong
          else
            let delim = (case dopt of None \<Rightarrow> CHR 0x09 | Some [] \<Rightarrow> NUL | Some (c # _) \<Rightarrow> c) in
            if mode \<noteq> Fields \<and> suppress then Inl SuppressNeedsFields
            else if mode \<noteq> Fields \<and> delim \<noteq> CHR 0x09 then Inl DelimiterNeedsFields
            else and_then (parse_lists sopt) (\<lambda>ls.
              if ls = [] then Inl MissingList
              else
                let argv = (if argv0 = [] then [''-''] else argv0);
                    sorted_ls = sort_key startpos ls
                in Inr (list_all (\<lambda>n. files n \<noteq> None) argv,
                        concat (map (\<lambda>n. case files n of None \<Rightarrow> [] | Some f \<Rightarrow> cut_file mode suppress delim sorted_ls f) argv))))"

section \<open>The positions a list selects\<close>

definition covers :: "cut_list \<Rightarrow> int \<Rightarrow> bool" where
  "covers l i \<longleftrightarrow> startpos l \<le> i \<and> (i = startpos l \<or> i \<le> endpos l)"

definition selected :: "cut_list list \<Rightarrow> int \<Rightarrow> bool" where
  "selected ls i = list_ex (\<lambda>l. covers l i) ls"

text \<open>Lists as \<open>cut_main\<close> hands them to \<open>cut_file\<close>.\<close>

definition lists_ok :: "cut_list list \<Rightarrow> bool" where
  "lists_ok ls \<longleftrightarrow> ls \<noteq> [] \<and> sorted (map startpos ls) \<and> list_all (\<lambda>l. 0 \<le> startpos l) ls"

text \<open>The elements at the selected positions, in order.\<close>

definition select :: "cut_list list \<Rightarrow> 'a list \<Rightarrow> 'a list" where
  "select ls xs = map (\<lambda>i. xs ! i) (filter (\<lambda>i. selected ls (int i)) [0..<length xs])"

fun split_fields :: "char \<Rightarrow> string \<Rightarrow> string list" where
  "split_fields d [] = [[]]"
| "split_fields d (c # s) = (if c = d then [] # split_fields d s else (case split_fields d s of [] \<Rightarrow> [] | f # fs \<Rightarrow> (c # f) # fs))"

fun join :: "char \<Rightarrow> string list \<Rightarrow> string" where
  "join d [] = []"
| "join d [f] = f"
| "join d (f # g # fs) = f @ d # join d (g # fs)"

section \<open>Characters\<close>

lemma filter_upt_split:
  assumes "\<And>i j. A i \<Longrightarrow> B j \<Longrightarrow> \<not> A j \<Longrightarrow> i < j"
  shows "filter (\<lambda>i. A i \<or> B i) [0..<n] = filter A [0..<n] @ filter (\<lambda>i. B i \<and> \<not> A i) [0..<(n::nat)]"
  by (rule sorted_distinct_set_unique)
    (auto simp: sorted_append sorted_wrt_filter intro: less_imp_le dest: assms)

lemma chars_loop_spec:
  "length printed = Suc (length line) \<Longrightarrow> chars_loop line l spos (printed, out) = (p', out') \<Longrightarrow>
     length p' = Suc (length line)
     \<and> (\<forall>i < length line. p' ! i \<longleftrightarrow> printed ! i \<or> (spos \<le> i \<and> (i = spos \<or> int i \<le> endpos l)))
     \<and> out' = out @ map ((!) line) (filter (\<lambda>i. (i = spos \<or> int i \<le> endpos l) \<and> \<not> printed ! i) [spos..<length line])"
proof (induction line l spos "(printed, out)" arbitrary: printed out rule: chars_loop.induct)
  case (1 line l spos printed out)
  show ?case
  proof (cases "spos < length line")
    case False
    then show ?thesis using 1(2,3) by (subst (asm) chars_loop.simps) auto
  next
    case True
    define st where "st = (if \<not> printed ! spos then (printed[spos := True], out @ [line ! spos]) else (printed, out))"
    obtain p1 o1 where st: "st = (p1, o1)" by fastforce
    have p1: "length p1 = Suc (length line)" "\<forall>i. i \<noteq> spos \<longrightarrow> p1 ! i = printed ! i" "p1 ! spos"
      "o1 = out @ (if printed ! spos then [] else [line ! spos])"
      using st True 1(2) by (auto simp: st_def split: if_splits)
    have upt: "[spos..<length line] = spos # [Suc spos..<length line]" using True by (simp add: upt_conv_Cons)
    have skip: "filter (\<lambda>i. Q i \<and> \<not> p1 ! i) [Suc spos..<length line] = filter (\<lambda>i. Q i \<and> \<not> printed ! i) [Suc spos..<length line]" for Q
      using p1(2) by (intro filter_cong) auto
    show ?thesis
    proof (cases "int (Suc spos) > endpos l")
      case stop: True
      then have "filter (\<lambda>i. (i = spos \<or> int i \<le> endpos l) \<and> \<not> printed ! i) [Suc spos..<length line] = []"
        by (auto simp: filter_empty_conv)
      moreover have "(p', out') = (p1, o1)"
        using 1(3) True stop st unfolding st_def by (subst (asm) chars_loop.simps) (simp add: Let_def)
      moreover have "spos \<le> i \<and> (i = spos \<or> int i \<le> endpos l) \<longleftrightarrow> i = spos" for i using stop by auto
      then have "\<forall>i. p1 ! i \<longleftrightarrow> printed ! i \<or> (spos \<le> i \<and> (i = spos \<or> int i \<le> endpos l))"
        using p1(2,3) by metis
      ultimately show ?thesis using p1 upt by auto
    next
      case False
      have rec: "chars_loop line l (Suc spos) (p1, o1) = (p', out')"
        using 1(3) True False st unfolding st_def by (subst (asm) chars_loop.simps) (simp add: Let_def)
      have e: "(i = Suc spos \<or> int i \<le> endpos l) \<longleftrightarrow> (i = spos \<or> int i \<le> endpos l)" if "Suc spos \<le> i" for i
        using that False by auto
      have "filter (\<lambda>i. (i = Suc spos \<or> int i \<le> endpos l) \<and> \<not> p1 ! i) [Suc spos..<length line]
          = filter (\<lambda>i. (i = spos \<or> int i \<le> endpos l) \<and> \<not> printed ! i) [Suc spos..<length line]"
        unfolding skip using e by (intro filter_cong) auto
      moreover have "p1 ! i \<or> (Suc spos \<le> i \<and> (i = Suc spos \<or> int i \<le> endpos l))
          \<longleftrightarrow> printed ! i \<or> (spos \<le> i \<and> (i = spos \<or> int i \<le> endpos l))" for i
        using p1(2,3) e [of i] by (cases "i = spos") (auto simp: Suc_le_eq le_less)
      ultimately show ?thesis
        using 1(1) [OF True st [unfolded st_def, symmetric] False p1(1) rec] p1(4) upt by auto
    qed
  qed
qed

lemma selected_append [simp]: "selected (xs @ ys) i \<longleftrightarrow> selected xs i \<or> selected ys i"
  by (simp add: selected_def)

text \<open>A position that a later list adds lies behind all positions of the earlier lists.\<close>

lemma added_later:
  assumes "\<And>x. x \<in> set dn \<Longrightarrow> startpos x \<le> startpos l" "selected dn i" "covers l j" "\<not> selected dn j"
  shows "i < j"
proof (rule ccontr)
  assume "\<not> i < j"
  obtain x where x: "x \<in> set dn" "covers x i" using assms(2) by (auto simp: selected_def list_ex_iff)
  then have "covers x j" using assms(1) [OF x(1)] assms(3) \<open>\<not> i < j\<close> by (auto simp: covers_def)
  then show False using x(1) assms(4) by (auto simp: selected_def list_ex_iff)
qed

lemma filter_added:
  assumes "\<And>x. x \<in> set dn \<Longrightarrow> startpos x \<le> startpos l"
  shows "filter (\<lambda>i. selected (dn @ [l]) (int i)) [0..<n]
    = filter (\<lambda>i. selected dn (int i)) [0..<n] @ filter (\<lambda>i. covers l (int i) \<and> \<not> selected dn (int i)) [0..<n]"
  using filter_upt_split [of "\<lambda>i. selected dn (int i)" "\<lambda>i. covers l (int i)" n] added_later [OF assms]
  by (fastforce simp: selected_def)

lemma select_added:
  assumes "\<And>x. x \<in> set dn \<Longrightarrow> startpos x \<le> startpos l"
  shows "select (dn @ [l]) xs
    = select dn xs @ map ((!) xs) (filter (\<lambda>i. covers l (int i) \<and> \<not> selected dn (int i)) [0..<length xs])"
  using filter_added [of dn l "length xs", OF assms] by (simp add: select_def del: selected_append)

lemma cut_chars_step:
  assumes "length printed = Suc (length line)" "\<forall>i < length line. printed ! i \<longleftrightarrow> selected dn (int i)"
    and "out = select dn line" "\<And>x. x \<in> set dn \<Longrightarrow> startpos x \<le> startpos l" "0 \<le> startpos l"
    and "chars_loop line l (nat (startpos l)) (printed, out) = (p', out')"
  shows "length p' = Suc (length line) \<and> (\<forall>i < length line. p' ! i \<longleftrightarrow> selected (dn @ [l]) (int i)) \<and> out' = select (dn @ [l]) line"
proof -
  let ?s = "nat (startpos l)" and ?n = "length line"
  note c = chars_loop_spec [OF assms(1,6)]
  have cov: "(i = ?s \<or> int i \<le> endpos l) \<longleftrightarrow> covers l (int i)" if "?s \<le> i" for i
    using that assms(5) by (auto simp: covers_def)
  have low: "\<not> covers l (int i)" if "i < ?s" for i using that by (auto simp: covers_def)
  have "filter (\<lambda>i. (i = ?s \<or> int i \<le> endpos l) \<and> \<not> printed ! i) [?s..<?n]
      = filter (\<lambda>i. covers l (int i) \<and> \<not> selected dn (int i)) [?s..<?n]"
    using cov assms(2) by (intro filter_cong) auto
  also have "\<dots> = filter (\<lambda>i. covers l (int i) \<and> \<not> selected dn (int i)) [0..<?n]"
  proof (cases "?s \<le> ?n")
    case True
    then have "[0..<?n] = [0..<?s] @ [?s..<?n]" by (metis upt_add_eq_append le_add_diff_inverse zero_le)
    moreover have "filter (\<lambda>i. covers l (int i) \<and> \<not> selected dn (int i)) [0..<?s] = []"
      using low by (auto simp: filter_empty_conv)
    ultimately show ?thesis by simp
  next
    case False
    then show ?thesis using low by (simp add: filter_empty_conv)
  qed
  finally have "out' = select (dn @ [l]) line"
    using c assms(3) select_added [of dn l line, OF assms(4)] by simp
  moreover have "p' ! i \<longleftrightarrow> selected (dn @ [l]) (int i)" if "i < ?n" for i
    using c that assms(2) cov [of i] low [of i] by (cases "?s \<le> i") (auto simp: selected_def)
  ultimately show ?thesis using c by simp
qed

lemma cut_chars_select:
  assumes "sorted (map startpos ls)" "list_all (\<lambda>l. 0 \<le> startpos l) ls"
  shows "cut_chars ls line = select ls line"
proof -
  have "length printed = Suc (length line) \<Longrightarrow> \<forall>i < length line. printed ! i \<longleftrightarrow> selected dn (int i) \<Longrightarrow> out = select dn line \<Longrightarrow>
      sorted (map startpos (dn @ ls)) \<Longrightarrow>
      snd (fold (\<lambda>l. chars_loop line l (nat (startpos l))) ls (printed, out)) = select (dn @ ls) line" for dn printed out
    using assms(2)
  proof (induction ls arbitrary: dn printed out)
    case (Cons l ls)
    obtain p' out' where c: "chars_loop line l (nat (startpos l)) (printed, out) = (p', out')" by fastforce
    have st: "\<And>x. x \<in> set dn \<Longrightarrow> startpos x \<le> startpos l" "0 \<le> startpos l" using Cons.prems by (auto simp: sorted_append)
    note s = cut_chars_step [OF Cons.prems(1-3) st c]
    have "snd (fold (\<lambda>l. chars_loop line l (nat (startpos l))) ls (p', out')) = select ((dn @ [l]) @ ls) line"
      using s Cons.prems(4,5) by (intro Cons.IH) auto
    then show ?case using c by simp
  qed simp
  from this [of "replicate (Suc (length line)) False" "[]" "[]"] assms(1) show ?thesis
    by (simp add: cut_chars_def selected_def select_def less_Suc_eq nth_Cons split: nat.splits)
qed

section \<open>Lines\<close>

lemma lines_loop_selected:
  "ls \<noteq> [] \<Longrightarrow> sorted (map startpos ls) \<Longrightarrow> startpos (hd ls) \<le> spos \<Longrightarrow> spos \<le> n \<Longrightarrow>
   (spos = startpos (hd ls) \<or> spos \<le> endpos (hd ls)) \<Longrightarrow> 0 \<le> startpos (hd ls) \<Longrightarrow> lines_loop ls spos n \<longleftrightarrow> selected ls n"
proof (induction ls spos n rule: lines_loop.induct)
  case (1 ls spos n)
  obtain l rs where ls: "ls = l # rs" using 1(3) by (cases ls) auto
  show ?case
  proof (cases "spos < n")
    case False
    then have "covers l n" using 1(5-7) ls by (auto simp: covers_def)
    then show ?thesis using False ls by (subst lines_loop.simps) (simp add: selected_def)
  next
    case lt: True
    show ?thesis
    proof (cases "spos + 1 > endpos l \<or> endpos l = NON_RANGE")
      case False
      then have "lines_loop ls (spos + 1) n \<longleftrightarrow> selected ls n"
        using 1(2) [OF ls lt False] 1(4,5,8) lt ls by simp
      then show ?thesis using lt False ls by (subst lines_loop.simps) simp
    next
      case True
      then have no: "\<not> covers l n" using lt 1(5,8) ls by (auto simp: covers_def)
      show ?thesis
      proof (cases rs)
        case Nil
        then show ?thesis using lt True ls no by (subst lines_loop.simps) (simp add: selected_def)
      next
        case (Cons l2 rs2)
        show ?thesis
        proof (cases "n < startpos l2")
          case True
          then have "\<not> selected rs n" using 1(4) ls Cons by (auto simp: selected_def list_ex_iff covers_def)
          then show ?thesis using lt \<open>spos + 1 > endpos l \<or> endpos l = NON_RANGE\<close> True ls Cons no
            by (subst lines_loop.simps) (simp add: selected_def)
        next
          case False
          have "startpos l \<le> startpos l2" using 1(4) ls Cons by simp
          then have "lines_loop rs (startpos l2) n \<longleftrightarrow> selected rs n"
            using 1(1) [OF ls lt True Cons False] 1(4,5,8) False ls Cons by auto
          then show ?thesis using lt True False ls Cons no by (subst lines_loop.simps) (simp add: selected_def)
        qed
      qed
    qed
  qed
qed

lemma cut_line_wanted_selected:
  assumes "lists_ok ls" "0 \<le> n"
  shows "cut_line_wanted ls n \<longleftrightarrow> selected ls n"
proof -
  obtain l rs where ls: "ls = l # rs" using assms(1) by (cases ls) (auto simp: lists_ok_def)
  show ?thesis
  proof (cases "n < startpos l")
    case True
    then have "\<not> selected ls n" using assms(1) ls by (auto simp: lists_ok_def selected_def list_ex_iff covers_def)
    then show ?thesis using True ls by (simp add: cut_line_wanted_def)
  next
    case False
    then have "lines_loop ls (startpos l) n \<longleftrightarrow> selected ls n"
      using assms(1) ls by (intro lines_loop_selected) (auto simp: lists_ok_def)
    then show ?thesis using False ls by (simp add: cut_line_wanted_def)
  qed
qed

section \<open>Fields\<close>

lemma split_fields_nonempty [simp]: "split_fields d s \<noteq> []"
  by (induction s) (auto split: list.splits)

lemma join_split [simp]: "join d (split_fields d s) = s"
proof (induction s)
  case (Cons c s)
  obtain f fs where f: "split_fields d s = f # fs" by (meson split_fields_nonempty neq_Nil_conv)
  then show ?case using Cons by (cases fs) auto
qed simp

lemma split_fields_chars: "f \<in> set (split_fields d s) \<Longrightarrow> d \<notin> set f"
proof (induction s arbitrary: f)
  case (Cons c s)
  obtain g gs where "split_fields d s = g # gs" by (meson split_fields_nonempty neq_Nil_conv)
  then show ?case using Cons by (auto split: if_splits)
qed simp

lemma split_fields_length: "length (split_fields d s) \<le> Suc (length s)"
  by (induction s) (auto split: list.splits)

lemma split_fields_one: "d \<notin> set s \<Longrightarrow> split_fields d s = [s]"
  by (induction s) auto

lemma split_at_append: "c \<notin> set a \<Longrightarrow> split_at c (a @ c # b) = Some (a, b)"
  by (induction a) auto

lemma strsep_join:
  assumes "k < length fs" "d \<notin> set (fs ! k)"
  shows "strsep d (join d (drop k fs)) = (fs ! k, if Suc k < length fs then Some (join d (drop (Suc k) fs)) else None)"
proof -
  have dr: "drop k fs = fs ! k # drop (Suc k) fs" using assms(1) by (simp add: Cons_nth_drop_Suc)
  show ?thesis
  proof (cases "drop (Suc k) fs")
    case Nil
    then show ?thesis using dr assms(2) split_at_None [of d "fs ! k"] by (simp add: strsep_def)
  next
    case (Cons g gs)
    then have "Suc k < length fs" by (metis drop_eq_Nil leI list.distinct(1))
    then show ?thesis using dr Cons split_at_append [OF assms(2)] by (simp add: strsep_def)
  qed
qed

lemma join_snoc: "join d (xs @ [x]) = join d xs @ (if xs = [] then [] else [d]) @ x"
  by (induction d xs rule: join.induct) auto

text \<open>The state after \<open>k\<close> fields were taken off the line and those in \<open>P\<close> were printed.\<close>

definition fields_rep :: "char \<Rightarrow> string list \<Rightarrow> nat \<Rightarrow> (nat \<Rightarrow> bool) \<Rightarrow> fields_state \<Rightarrow> bool" where
  "fields_rep d fs k P st \<longleftrightarrow> k \<le> length fs
     \<and> f_line st = (if k < length fs then Some (join d (drop k fs)) else None)
     \<and> ndelim st = int k - 1 \<and> f_field st = (if k = 0 then None else Some (fs ! (k - 1)))
     \<and> length fs \<le> length (f_printed st) \<and> (\<forall>i < length fs. f_printed st ! i = P i) \<and> (\<forall>i. P i \<longrightarrow> i < k)
     \<and> nfields_printed st = length (filter P [0..<length fs])
     \<and> f_out st = join d (map ((!) fs) (filter P [0..<length fs]))"

lemma find_field_rep:
  assumes "\<forall>f \<in> set fs. d \<notin> set f"
  shows "fields_rep d fs k P st \<Longrightarrow> fields_rep d fs (max k (min (Suc spos) (length fs))) P (find_field d (int spos) st)"
proof (induction "length fs - k" arbitrary: k st rule: less_induct)
  case less
  note r = less.prems [unfolded fields_rep_def]
  show ?case
  proof (cases "k < length fs \<and> k \<le> spos")
    case False
    then have "max k (min (Suc spos) (length fs)) = k" using r by auto
    moreover have "find_field d (int spos) st = st" using False r by (subst find_field.simps) (auto split: option.splits)
    ultimately show ?thesis using less.prems by simp
  next
    case True
    let ?st = "st\<lparr>f_line := snd (strsep d (join d (drop k fs))), f_field := Some (fst (strsep d (join d (drop k fs)))), ndelim := ndelim st + 1\<rparr>"
    have "d \<notin> set (fs ! k)" using assms True by auto
    then have s: "strsep d (join d (drop k fs)) = (fs ! k, if Suc k < length fs then Some (join d (drop (Suc k) fs)) else None)"
      using True by (intro strsep_join) auto
    have "fields_rep d fs (Suc k) P ?st" using r True s by (auto simp: fields_rep_def less_Suc_eq)
    then have "fields_rep d fs (max (Suc k) (min (Suc spos) (length fs))) P (find_field d (int spos) ?st)"
      using less.hyps [of "Suc k" ?st] True by (simp add: diff_less_mono2)
    moreover have "max (Suc k) (min (Suc spos) (length fs)) = max k (min (Suc spos) (length fs))" using True by auto
    moreover have "find_field d (int spos) st = find_field d (int spos) ?st"
      using True r by (subst find_field.simps) simp
    ultimately show ?thesis by simp
  qed
qed

lemma print_field_rep:
  assumes "fields_rep d fs k P st"
  shows "fields_rep d fs k (\<lambda>i. P i \<or> (i = spos \<and> k = Suc spos)) (print_field d (int spos) st)"
proof -
  note r = assms [unfolded fields_rep_def]
  show ?thesis
  proof (cases "k = Suc spos \<and> \<not> P spos")
    case False
    have "(\<lambda>i. P i \<or> (i = spos \<and> k = Suc spos)) = P" using False by (intro ext) auto
    moreover have "print_field d (int spos) st = st"
      using False r by (auto simp: print_field_def split: option.splits if_splits)
    ultimately show ?thesis using assms by simp
  next
    case True
    then have lt: "spos < length fs" "\<And>i. P i \<Longrightarrow> i < spos" using r by (auto simp: less_Suc_eq)
    let ?Q = "\<lambda>i. P i \<or> (i = spos \<and> k = Suc spos)"
    have "filter ?Q [0..<length fs] = filter P [0..<length fs] @ filter (\<lambda>i. i = spos \<and> \<not> P i) [0..<length fs]"
      using filter_upt_split [of P "\<lambda>i. i = spos" "length fs"] lt(2) True by simp
    also have "filter (\<lambda>i. i = spos \<and> \<not> P i) [0..<length fs] = [spos]"
    proof -
      have "[0..<length fs] = [0..<spos] @ spos # [Suc spos..<length fs]"
        using lt(1) by (metis upt_add_eq_append upt_conv_Cons le_add_diff_inverse less_imp_le_nat zero_le)
      then show ?thesis using True by (simp add: filter_empty_conv)
    qed
    finally have f: "filter ?Q [0..<length fs] = filter P [0..<length fs] @ [spos]" .
    then show ?thesis
      using r True lt by (auto simp: fields_rep_def print_field_def join_snoc nth_list_update)
  qed
qed

lemma fields_rep_line: "fields_rep d fs k P st \<Longrightarrow> f_line st = None \<longleftrightarrow> \<not> k < length fs"
  by (simp add: fields_rep_def)

text \<open>One list: \<open>s0\<close> is its start, the fields from there on that were passed have been printed.\<close>

lemma fields_loop_rep:
  assumes nd: "\<forall>f \<in> set fs. d \<notin> set f"
  shows "fields_rep d fs k P st \<Longrightarrow> (\<And>i. s0 \<le> i \<Longrightarrow> i < k \<Longrightarrow> P i) \<Longrightarrow> s0 \<le> spos \<Longrightarrow>
    (\<And>i. s0 \<le> i \<Longrightarrow> i < spos \<Longrightarrow> i < length fs \<Longrightarrow> P i) \<Longrightarrow>
    \<exists>k'. fields_rep d fs k' (\<lambda>i. P i \<or> (i < length fs \<and> spos \<le> i \<and> (i = spos \<or> int i \<le> endpos l))) (fields_loop d l (int spos) st)
      \<and> (\<forall>i. s0 \<le> i \<longrightarrow> i < k' \<longrightarrow> P i \<or> (spos \<le> i \<and> (i = spos \<or> int i \<le> endpos l)))"
proof (induction "nat (endpos l - int spos)" arbitrary: spos k P st rule: less_induct)
  case less
  define k1 where "k1 = max k (min (Suc spos) (length fs))"
  define P1 where "P1 = (\<lambda>i. P i \<or> (i = spos \<and> k1 = Suc spos))"
  define st1 where "st1 = print_field d (int spos) (find_field d (int spos) st)"
  let ?Q = "\<lambda>i. P i \<or> (i < length fs \<and> spos \<le> i \<and> (i = spos \<or> int i \<le> endpos l))"
  have r1: "fields_rep d fs k1 P1 st1"
    unfolding st1_def P1_def k1_def by (rule print_field_rep [OF find_field_rep [OF nd less.prems(1)]])
  have k1: "k1 \<le> length fs" "k \<le> k1" using r1 by (auto simp: fields_rep_def k1_def)
  have here: "P1 spos" if "spos < length fs"
    using that less.prems(2) [of spos] less.prems(3) by (cases "k \<le> spos") (auto simp: P1_def k1_def)
  have passed: "P1 i" if "s0 \<le> i" "i < k1" for i
  proof (cases "i < k")
    case True
    then show ?thesis using less.prems(2) that by (simp add: P1_def)
  next
    case False
    then have "i \<le> spos" "i < length fs" using that(2) k1(1) by (auto simp: k1_def)
    then show ?thesis using less.prems(4) [of i] that here by (cases "i = spos") (auto simp: P1_def)
  qed
  have sub: "P1 i \<Longrightarrow> ?Q i" for i using k1(1) by (auto simp: P1_def)
  show ?case
  proof (cases "int spos + 1 \<le> endpos l \<and> f_line st1 \<noteq> None \<and> endpos l \<noteq> NON_RANGE")
    case True
    have prem4: "P1 i" if "s0 \<le> i" "i < Suc spos" "i < length fs" for i
      using less.prems(4) [of i] that here by (cases "i = spos") (auto simp: P1_def)
    obtain k' where ih: "fields_rep d fs k' (\<lambda>i. P1 i \<or> (i < length fs \<and> Suc spos \<le> i \<and> (i = Suc spos \<or> int i \<le> endpos l)))
        (fields_loop d l (int (Suc spos)) st1)"
      "\<forall>i. s0 \<le> i \<longrightarrow> i < k' \<longrightarrow> P1 i \<or> (Suc spos \<le> i \<and> (i = Suc spos \<or> int i \<le> endpos l))"
      using less.hyps [OF _ r1 passed _ prem4] less.prems(3) True by fastforce
    have "(\<lambda>i. P1 i \<or> (i < length fs \<and> Suc spos \<le> i \<and> (i = Suc spos \<or> int i \<le> endpos l))) = ?Q"
      using sub here True by (intro ext) (auto simp: P1_def Suc_le_eq le_less)
    moreover have "fields_loop d l (int spos) st = fields_loop d l (int (Suc spos)) st1"
      using True by (subst fields_loop.simps) (simp add: st1_def Let_def add.commute)
    moreover have "\<forall>i. s0 \<le> i \<longrightarrow> i < k' \<longrightarrow> P i \<or> (spos \<le> i \<and> (i = spos \<or> int i \<le> endpos l))"
      using ih(2) True by (auto simp: P1_def Suc_le_eq)
    ultimately show ?thesis using ih(1) by auto
  next
    case False
    have "?Q i \<Longrightarrow> P1 i" for i
    proof -
      assume q: "?Q i"
      consider "P i" | "i = spos" "i < length fs" | "spos < i" "i < length fs" "int i \<le> endpos l" using q by fastforce
      then show ?thesis
      proof cases
        case 3
        then have "f_line st1 = None" using False by auto
        then have "length fs \<le> k1" using fields_rep_line [OF r1] by simp
        then show ?thesis using passed [of i] 3 less.prems(3) by simp
      qed (use here in \<open>auto simp: P1_def\<close>)
    qed
    then have "?Q = P1" using sub by (intro ext) blast
    moreover have "fields_loop d l (int spos) st = st1"
      using False by (subst fields_loop.simps) (auto simp: st1_def Let_def add.commute)
    ultimately have "fields_rep d fs k1 ?Q (fields_loop d l (int spos) st)" using r1 by simp
    moreover have "\<forall>i. s0 \<le> i \<longrightarrow> i < k1 \<longrightarrow> P i \<or> (spos \<le> i \<and> (i = spos \<or> int i \<le> endpos l))"
      using passed sub by blast
    ultimately show ?thesis by blast
  qed
qed

lemma fields_lists_rep:
  assumes "\<forall>f \<in> set fs. d \<notin> set f"
  shows "fields_rep d fs k (\<lambda>i. i < length fs \<and> selected dn (int i)) st \<Longrightarrow>
    (\<And>i. i < k \<Longrightarrow> (\<And>x. x \<in> set dn \<Longrightarrow> startpos x \<le> int i) \<Longrightarrow> selected dn (int i)) \<Longrightarrow>
    sorted (map startpos (dn @ ls)) \<Longrightarrow> list_all (\<lambda>l. 0 \<le> startpos l) ls \<Longrightarrow>
    f_out (fields_lists d ls st) = join d (select (dn @ ls) fs)"
proof (induction ls arbitrary: dn k st)
  case Nil
  have "filter (\<lambda>i. i < length fs \<and> selected dn (int i)) [0..<length fs] = filter (\<lambda>i. selected dn (int i)) [0..<length fs]"
    by (intro filter_cong) auto
  then show ?case using Nil.prems(1) by (simp add: fields_rep_def select_def)
next
  case (Cons l ls)
  have st: "\<And>x. x \<in> set dn \<Longrightarrow> startpos x \<le> startpos l" "0 \<le> startpos l" using Cons.prems by (auto simp: sorted_append)
  note k = Cons.prems(1) [unfolded fields_rep_def]
  show ?case
  proof (cases "f_line st = None")
    case True
    then have kl: "length fs \<le> k" using fields_rep_line [OF Cons.prems(1)] by simp
    have "selected (dn @ l # ls) (int i) \<longleftrightarrow> selected dn (int i)" if "i < length fs" for i
    proof -
      have "selected dn (int i)" if "y \<in> set (l # ls)" "covers y (int i)" for y
      proof (rule Cons.prems(2))
        show "i < k" using \<open>i < length fs\<close> kl by simp
        show "startpos x \<le> int i" if "x \<in> set dn" for x
          using Cons.prems(3) that \<open>y \<in> set (l # ls)\<close> \<open>covers y (int i)\<close> by (fastforce simp: sorted_append covers_def)
      qed
      then show ?thesis by (auto simp: selected_def list_ex_iff)
    qed
    then have "filter (\<lambda>i. selected (dn @ l # ls) (int i)) [0..<length fs] = filter (\<lambda>i. i < length fs \<and> selected dn (int i)) [0..<length fs]"
      by (intro filter_cong) auto
    then show ?thesis using True k by (simp add: select_def del: selected_append)
  next
    case False
    let ?s = "nat (startpos l)"
    let ?P = "\<lambda>i. i < length fs \<and> selected dn (int i)"
    have p: "?P i" if "?s \<le> i" "i < k" for i
      using Cons.prems(2) [of i] that st k by fastforce
    obtain k' where r: "fields_rep d fs k' (\<lambda>i. ?P i \<or> (i < length fs \<and> ?s \<le> i \<and> (i = ?s \<or> int i \<le> endpos l)))
        (fields_loop d l (int ?s) st)"
      "\<forall>i. ?s \<le> i \<longrightarrow> i < k' \<longrightarrow> ?P i \<or> (?s \<le> i \<and> (i = ?s \<or> int i \<le> endpos l))"
      using fields_loop_rep [OF assms Cons.prems(1), of ?s ?s l] p by auto
    have cov: "?s \<le> i \<and> (i = ?s \<or> int i \<le> endpos l) \<longleftrightarrow> covers l (int i)" for i using st(2) by (auto simp: covers_def)
    have "(\<lambda>i. ?P i \<or> (i < length fs \<and> ?s \<le> i \<and> (i = ?s \<or> int i \<le> endpos l))) = (\<lambda>i. i < length fs \<and> selected (dn @ [l]) (int i))"
      using cov by (intro ext) (auto simp: selected_def)
    then have r1: "fields_rep d fs k' (\<lambda>i. i < length fs \<and> selected (dn @ [l]) (int i)) (fields_loop d l (startpos l) st)"
      using r(1) st(2) by simp
    have "f_out (fields_lists d ls (fields_loop d l (startpos l) st)) = join d (select ((dn @ [l]) @ ls) fs)"
    proof (rule Cons.IH [OF r1])
      show "selected (dn @ [l]) (int i)" if "i < k'" "\<And>x. x \<in> set (dn @ [l]) \<Longrightarrow> startpos x \<le> int i" for i
        using r(2) that st(2) cov [of i] by (auto simp: selected_def nat_le_iff)
    qed (use Cons.prems in auto)
    then show ?thesis using False by auto
  qed
qed

lemma cut_fields_select:
  assumes "sorted (map startpos ls)" "list_all (\<lambda>l. 0 \<le> startpos l) ls"
  shows "cut_fields d ls line = join d (select ls (split_fields d line))"
proof -
  let ?fs = "split_fields d line"
  have "fields_rep d ?fs 0 (\<lambda>i. i < length ?fs \<and> selected [] (int i)) \<lparr>f_line = Some line, ndelim = - 1, f_field = None,
       f_printed = replicate (Suc (length line)) False, nfields_printed = 0, f_out = []\<rparr>"
    using split_fields_length [of d line] by (auto simp: fields_rep_def selected_def simp del: replicate_Suc)
  from fields_lists_rep [OF _ this, of ls] show ?thesis
    using assms split_fields_chars [of _ d line] by (simp add: cut_fields_def)
qed

section \<open>From the argument to the selection\<close>

text \<open>The documented meaning of a list: positions count from one.\<close>

datatype range = Single nat | From nat | Between nat nat | UpTo nat

fun range_text :: "range \<Rightarrow> string" where
  "range_text (Single n) = dec_nat n"
| "range_text (From n) = dec_nat n @ ''-''"
| "range_text (Between n m) = dec_nat n @ ''-'' @ dec_nat m"
| "range_text (UpTo m) = ''-'' @ dec_nat m"

fun in_range :: "nat \<Rightarrow> range \<Rightarrow> bool" where
  "in_range p (Single n) \<longleftrightarrow> p = n"
| "in_range p (From n) \<longleftrightarrow> n \<le> p"
| "in_range p (Between n m) \<longleftrightarrow> n \<le> p \<and> p \<le> m"
| "in_range p (UpTo m) \<longleftrightarrow> p \<le> m"

fun range_ok :: "range \<Rightarrow> bool" where
  "range_ok (Single n) \<longleftrightarrow> 1 \<le> n \<and> n \<le> INT_MAX"
| "range_ok (From n) \<longleftrightarrow> 1 \<le> n \<and> n \<le> INT_MAX"
| "range_ok (Between n m) \<longleftrightarrow> 1 \<le> n \<and> n \<le> m \<and> m \<le> INT_MAX"
| "range_ok (UpTo m) \<longleftrightarrow> 1 \<le> m \<and> m \<le> INT_MAX"

fun range_list :: "range \<Rightarrow> cut_list" where
  "range_list (Single n) = \<lparr>startpos = int n - 1, endpos = NON_RANGE\<rparr>"
| "range_list (From n) = \<lparr>startpos = int n - 1, endpos = EOL\<rparr>"
| "range_list (Between n m) = \<lparr>startpos = int n - 1, endpos = if n = m then NON_RANGE else int m - 1\<rparr>"
| "range_list (UpTo m) = \<lparr>startpos = 0, endpos = if m = 1 then NON_RANGE else int m - 1\<rparr>"

definition pick :: "range list \<Rightarrow> 'a list \<Rightarrow> 'a list" where
  "pick rs xs = map (\<lambda>i. xs ! i) (filter (\<lambda>i. list_ex (in_range (Suc i)) rs) [0..<length xs])"

lemma dec_nat_char: "c \<in> set (dec_nat n) \<Longrightarrow> isdigit c"
  using dec_nat_digits [of n] by (auto simp: list_all_iff is_digit_of_10)

lemma dash_not_digit: "CHR ''-'' \<notin> set (dec_nat n)" "CHR '','' \<notin> set (dec_nat n)"
  by (auto dest!: dec_nat_char simp: isdigit_def)

lemma cut_num_dec: "n \<le> INT_MAX \<Longrightarrow> cut_num (dec_nat n) = Inr (int n)"
  using xatou_dec_nat [of "[]" UINT_MAX n 0 INT_MAX "[]"]
  by (simp add: cut_num_def xatoi_u_def xatou_range_def no_digit_def multiplier_def chk_range_def)

lemma strsep_dash: "strsep (CHR ''-'') (dec_nat n) = (dec_nat n, None)"
  "strsep (CHR ''-'') (dec_nat n @ CHR ''-'' # b) = (dec_nat n, Some b)" "strsep (CHR ''-'') (CHR ''-'' # b) = ([], Some b)"
  using split_at_None [of "CHR ''-''" "dec_nat n"] split_at_append [of "CHR ''-''" "dec_nat n" b] dash_not_digit [of n]
  by (simp_all add: strsep_def)

lemma parse_range: "range_ok r \<Longrightarrow> parse_list (range_text r) = Inr (range_list r)"
  by (cases r) (auto simp: parse_list_def strsep_dash cut_num_dec dec_nat_nonempty Let_def)

lemma range_text_chars: "CHR '','' \<notin> set (range_text r)" "range_text r \<noteq> []"
  by (cases r; simp add: dash_not_digit dec_nat_nonempty)+

lemma parse_ranges:
  "rs \<noteq> [] \<Longrightarrow> list_all range_ok rs \<Longrightarrow> parse_lists (join (CHR '','') (map range_text rs)) = Inr (map range_list rs)"
proof (induction rs)
  case (Cons r rs)
  show ?case
  proof (cases rs)
    case Nil
    have "strsep (CHR '','') (range_text r) = (range_text r, None)"
      using split_at_None [of "CHR '',''" "range_text r"] range_text_chars [of r] by (simp add: strsep_def)
    then show ?thesis using Nil Cons.prems by (subst parse_lists.simps) (simp add: range_text_chars parse_range)
  next
    case (Cons r2 rs2)
    then have j: "join (CHR '','') (map range_text (r # rs)) = range_text r @ CHR '','' # join (CHR '','') (map range_text rs)" by simp
    then have "strsep (CHR '','') (join (CHR '','') (map range_text (r # rs))) = (range_text r, Some (join (CHR '','') (map range_text rs)))"
      using split_at_append [of "CHR '',''" "range_text r"] range_text_chars [of r] by (simp add: strsep_def)
    then show ?thesis
      using Cons.IH Cons.prems \<open>rs = r2 # rs2\<close> by (subst parse_lists.simps) (simp add: range_text_chars parse_range)
  qed
qed simp

lemma range_list_ok: "range_ok r \<Longrightarrow> 0 \<le> startpos (range_list r)"
  by (cases r) auto

lemma covers_range: "range_ok r \<Longrightarrow> i < INT_MAX \<Longrightarrow> covers (range_list r) (int i) \<longleftrightarrow> in_range (Suc i) r"
  by (cases r) (auto simp: covers_def)

lemma selected_ranges:
  assumes "list_all range_ok rs" "i < INT_MAX"
  shows "selected (sort_key startpos (map range_list rs)) (int i) \<longleftrightarrow> list_ex (in_range (Suc i)) rs"
  using assms covers_range [OF _ assms(2)] by (auto simp: selected_def list_ex_iff list_all_iff simp del: One_nat_def)

lemma lists_ok_ranges: "rs \<noteq> [] \<Longrightarrow> list_all range_ok rs \<Longrightarrow> lists_ok (sort_key startpos (map range_list rs))"
  by (auto simp: lists_ok_def list_all_iff range_list_ok dest: arg_cong [of _ _ set])

lemma select_ranges:
  assumes "list_all range_ok rs" "length xs \<le> INT_MAX"
  shows "select (sort_key startpos (map range_list rs)) xs = pick rs xs"
proof -
  have "filter (\<lambda>i. selected (sort_key startpos (map range_list rs)) (int i)) [0..<length xs]
      = filter (\<lambda>i. list_ex (in_range (Suc i)) rs) [0..<length xs]"
    using selected_ranges [OF assms(1)] assms(2) by (intro filter_cong) auto
  then show ?thesis by (simp add: select_def pick_def)
qed

text \<open>What \<open>cut\<close> is documented to print for line number \<open>n\<close>, counted from zero.\<close>

definition cut_spec :: "cut_mode \<Rightarrow> bool \<Rightarrow> char \<Rightarrow> range list \<Rightarrow> nat \<Rightarrow> string \<Rightarrow> string" where
  "cut_spec mode suppress delim rs n line =
     (if mode \<noteq> Fields then pick rs line @ [NL]
      else if delim = NL then (if list_ex (in_range (Suc n)) rs then line @ [NL] else [])
      else if delim \<in> set line then join delim (pick rs (split_fields delim line)) @ [NL]
      else if suppress then [] else line @ [NL])"

lemma cut_one_spec:
  assumes "rs \<noteq> []" "list_all range_ok rs" "delim \<noteq> NUL" "length line < INT_MAX" "n < INT_MAX"
  shows "cut_one mode suppress delim (sort_key startpos (map range_list rs)) n line = cut_spec mode suppress delim rs n line"
proof -
  let ?ls = "sort_key startpos (map range_list rs)"
  note ok = lists_ok_ranges [OF assms(1,2)]
  have "length (split_fields delim line) \<le> INT_MAX" using split_fields_length [of delim line] assms(4) by simp
  then have "cut_fields delim ?ls line = join delim (pick rs (split_fields delim line))"
    using cut_fields_select [of ?ls delim line] ok select_ranges [OF assms(2), of "split_fields delim line"]
    by (simp add: lists_ok_def)
  moreover have "cut_chars ?ls line = pick rs line"
    using cut_chars_select [of ?ls line] ok select_ranges [OF assms(2), of line] assms(4) by (simp add: lists_ok_def)
  moreover have "cut_line_wanted ?ls (int n) \<longleftrightarrow> list_ex (in_range (Suc n)) rs"
    using cut_line_wanted_selected [OF ok] selected_ranges [OF assms(2,5)] by simp
  ultimately show ?thesis
    using assms(3) by (cases mode) (auto simp: cut_one_def cut_spec_def)
qed

text \<open>The whole program: parsing the lists, then every file.\<close>

lemma cut_main_lists:
  assumes "rs \<noteq> []" "list_all range_ok rs" "d \<noteq> NUL" "mode = Fields \<or> (d = CHR 0x09 \<and> \<not> suppress)" "argv \<noteq> []"
    and "list_all (\<lambda>n. case files n of None \<Rightarrow> True | Some f \<Rightarrow> length f < INT_MAX) argv"
  shows "cut_main files (Some (mode, join (CHR '','') (map range_text rs))) (Some [d]) suppress argv
    = Inr (list_all (\<lambda>n. files n \<noteq> None) argv,
        concat (map (\<lambda>n. case files n of
            None \<Rightarrow> []
          | Some f \<Rightarrow> concat (map (\<lambda>(k, line). cut_spec mode suppress d rs k line) (enumerate 0 (getlines f)))) argv))"
proof -
  have fl: "cut_file mode suppress d (sort_key startpos (map range_list rs)) f
      = concat (map (\<lambda>(k, line). cut_spec mode suppress d rs k line) (enumerate 0 (getlines f)))"
    if "files n = Some f" "n \<in> set argv" for n f
  proof -
    have "cut_one mode suppress d (sort_key startpos (map range_list rs)) k line = cut_spec mode suppress d rs k line"
      if "(k, line) \<in> set (enumerate 0 (getlines f))" for k line
    proof -
      have "line \<in> set (getlines f)" "k < length (getlines f)" using that by (auto simp: in_set_enumerate_eq)
      moreover have "length f < INT_MAX"
        using assms(6) \<open>files n = Some f\<close> \<open>n \<in> set argv\<close> by (force simp: list_all_iff)
      ultimately show ?thesis
        using getlines_bounds [of f] by (intro cut_one_spec assms(1-3)) fastforce+
    qed
    then show ?thesis unfolding cut_file_def by (intro arg_cong [where f = concat] map_cong) auto
  qed
  have "sort_key startpos (map range_list rs) = [] \<longleftrightarrow> rs = []" by (metis length_0_conv length_map length_sort)
  then show ?thesis
    using parse_ranges [OF assms(1,2)] assms(1,4,5) fl
    by (auto simp: cut_main_def Let_def intro!: arg_cong [where f = concat] map_cong split: option.splits)
qed

text \<open>
  C23. \<open>cut\<close> prints what its lists select: for any lists \<open>N\<close>, \<open>N-\<close>, \<open>N-M\<close>, \<open>-M\<close>, in any order
  and overlapping or not, every line is reduced to its selected characters, or its selected fields
  joined by the delimiter, each once and in the order of the line (or, with a newline as delimiter,
  the selected lines are kept); a line without the delimiter is passed on, or dropped with \<open>-s\<close>.
  Files that cannot be opened are skipped and make the exit code a failure.
\<close>

theorem cut_main_selects:
  assumes "rs \<noteq> []" "list_all range_ok rs" "d \<noteq> NUL" "mode = Fields \<or> (d = CHR 0x09 \<and> \<not> suppress)" "argv \<noteq> []"
    and "list_all (\<lambda>n. case files n of None \<Rightarrow> True | Some f \<Rightarrow> length f < INT_MAX) argv"
  shows "cut_main files (Some (mode, join (CHR '','') (map range_text rs))) (Some [d]) suppress argv
    = Inr (list_all (\<lambda>n. files n \<noteq> None) argv,
        concat (map (\<lambda>n. case files n of
            None \<Rightarrow> []
          | Some f \<Rightarrow> concat (map (\<lambda>(k, line). cut_spec mode suppress d rs k line) (enumerate 0 (getlines f)))) argv))"
  by (rule cut_main_lists [OF assms])

theorem cut_main_selects_witness:
  "cut_main (\<lambda>n. if n = ''dev'' then Some (''179:0'' @ [NL]) else None) (Some (Fields, ''2,1'')) (Some '':'') False [''dev'']
   = Inr (True, ''179:0'' @ [NL])"
proof -
  have l: "getlines (''179:0'' @ [NL]) = [''179:0'']" using getlines_Cons [of "''179:0''" "[]"] by (simp add: line_ok_def)
  have t: "join (CHR '','') (map range_text [Single 2, Single 1]) = ''2,1''"
    by (simp add: dec_nat.simps digit_char_def char_of_digit)
  show ?thesis
    using cut_main_selects [of "[Single 2, Single 1]" "CHR '':''" Fields False "[''dev'']"
      "\<lambda>n. if n = ''dev'' then Some (''179:0'' @ [NL]) else None"] l unfolding t
    by (simp add: cut_spec_def pick_def upt_rec split: if_splits)
qed

end
