(* ===== verification/Tr.thy ===== *)
theory Tr
  imports Fdio Numbers
begin

text \<open>
  \<open>tr\<close> as in \<open>coreutils/tr.c\<close>, with the escape sequences of \<open>libbb/process_escape_sequence.c\<close>:
  the expansion of the two sets, complementing, the translation table and the loop that deletes,
  translates and squeezes. \<open>FEATURE_TR_CLASSES\<close> and \<open>FEATURE_TR_EQUIV\<close> are on. \<open>BUFSIZ\<close> of the C
  library is an argument.
\<close>

section \<open>Escape sequences\<close>

definition charmap :: "(char \<times> char) list" where
  "charmap = [(CHR ''a'', CHR 0x07), (CHR ''b'', CHR 0x08), (CHR ''e'', CHR 0x1B), (CHR ''f'', CHR 0x0C),
     (CHR ''n'', CHR 0x0A), (CHR ''r'', CHR 0x0D), (CHR ''t'', CHR 0x09), (CHR ''v'', CHR 0x0B), (CHR 0x5C, CHR 0x5C)]"

text \<open>The character a pointer into a C string points to.\<close>

definition deref :: "string \<Rightarrow> char" where
  "deref q = (case q of [] \<Rightarrow> NUL | c # _ \<Rightarrow> c)"

text \<open>The digit value as \<open>unsigned\<close> arithmetic has it.\<close>

definition esc_digit :: "char \<Rightarrow> u32" where
  "esc_digit c =
     (let d = of_char c - 48 in
      if d \<ge> 10 then (of_char c OR 0x20) - 97 + 10 else d)"

text \<open>
  The \<open>do\<close> loop; the third result is the text from \<open>q\<close> on. In base 16 \<open>--q\<close> goes back to the \<open>x\<close>.
\<close>

function esc_loop :: "u32 \<Rightarrow> nat \<Rightarrow> u32 \<Rightarrow> string \<Rightarrow> nat \<times> u32 \<times> string" where
  "esc_loop base num_digits n q =
     (let d = esc_digit (deref q) in
      if d \<ge> base then
        (if base = 16 then (if num_digits - 1 = 0 then (num_digits - 1, n, CHR ''x'' # q) else (num_digits - 1, n, q))
         else (num_digits, n, q))
      else
        let r = n * base + d in
        if r > 255 then (num_digits, n, q)
        else if Suc num_digits < 3 then esc_loop base (Suc num_digits) r (tl q)
        else (Suc num_digits, r, tl q))"
  by pat_completeness auto
termination by (relation "measure (\<lambda>(b, k, n, q). 3 - k)") auto

declare esc_loop.simps [simp del]

definition bb_process_escape_sequence :: "string \<Rightarrow> char \<times> string" where
  "bb_process_escape_sequence ptr =
     (let (k, n, q) = (if deref ptr = CHR ''x'' then esc_loop 16 1 0 (tl ptr) else esc_loop 8 0 0 ptr) in
      if k = 0 then
        (case map_of charmap (deref q) of Some c \<Rightarrow> (c, tl q) | None \<Rightarrow> (CHR 0x5C, q))
      else (char_of (unat n), q))"

section \<open>Expanding a set\<close>

definition class_names :: "string list" where
  "class_names = map (\<lambda>c. c @ '':]'') [''alpha'', ''alnum'', ''digit'', ''lower'', ''upper'', ''space'', ''blank'', ''punct'', ''cntrl'', ''xdigit'']"

definition chars_between :: "nat \<Rightarrow> nat \<Rightarrow> string" where
  "chars_between a b = map char_of [a..<Suc b]"

definition isprint_asciionly :: "nat \<Rightarrow> bool" where
  "isprint_asciionly i \<longleftrightarrow> 0x20 \<le> i \<and> i \<le> 0x7e"

definition isalnum :: "nat \<Rightarrow> bool" where
  "isalnum i \<longleftrightarrow> (48 \<le> i \<and> i \<le> 57) \<or> (65 \<le> i \<and> i \<le> 90) \<or> (97 \<le> i \<and> i \<le> 122)"

definition iscntrl :: "nat \<Rightarrow> bool" where
  "iscntrl i \<longleftrightarrow> i < 32 \<or> i = 127"

text \<open>What a class adds; \<open>j\<close> is the number of the class, counted from one.\<close>

definition class_chars :: "nat \<Rightarrow> string" where
  "class_chars j =
     (if j = 2 \<or> j = 3 \<or> j = 10 then chars_between 48 57 else [])
     @ (if j = 1 \<or> j = 2 \<or> j = 5 then chars_between 65 90 else [])
     @ (if j = 1 \<or> j = 2 \<or> j = 4 then chars_between 97 122 else [])
     @ (if j = 6 \<or> j = 7 then [CHR 0x09] @ (if j = 6 then [CHR 0x0A, CHR 0x0B, CHR 0x0C, CHR 0x0D] else []) @ [CHR '' ''] else [])
     @ (if j = 8 \<or> j = 9 then
          map char_of (filter (\<lambda>i. (j = 8 \<and> isprint_asciionly i \<and> \<not> isalnum i \<and> \<not> isspace (char_of i)) \<or> (j = 9 \<and> iscntrl i)) [0..<256])
        else [])
     @ (if j = 10 then chars_between 65 70 @ chars_between 97 102 else [])"

datatype tr_error = TrUsage | TrOverrun | EmptyString2 | TrReadError | TrWriteError

text \<open>
  One turn of the loop of \<open>expand\<close> on a non-empty argument: the characters it stores and the rest
  of the argument.
\<close>

definition expand_class :: "string \<Rightarrow> (string \<times> string) option" where
  "expand_class arg =
     (let i = 7 + (if deref arg = CHR ''x'' then 1 else 0) in
      map_option (\<lambda>j. (class_chars (Suc j), drop i arg)) (index_in_strings class_names (take i arg)))"

definition expand_step :: "string \<Rightarrow> tr_error + (string \<times> string)" where
  "expand_step arg =
     (if deref arg = CHR 0x5C then
        (case bb_process_escape_sequence (tl arg) of (c, rest) \<Rightarrow> Inr ([c], rest))
      else if deref (tl arg) = CHR ''-'' then
        (let ac = deref (tl (tl arg)) in
         if ac = NUL then Inr ([hd arg], tl arg)
         else Inr (chars_between (of_char (hd arg)) (of_char ac), drop 3 arg))
      else if deref arg = CHR ''['' \<and> deref (tl arg) = CHR '':'' then
        (case expand_class (drop 2 arg) of Some p \<Rightarrow> Inr p | None \<Rightarrow> Inr ([hd arg], tl arg))
      else if deref arg = CHR ''['' \<and> deref (tl arg) = CHR ''='' then
        (let a = drop 2 arg in
         if deref a = NUL \<or> deref (tl a) \<noteq> CHR ''='' \<or> deref (tl (tl a)) \<noteq> CHR '']'' then Inl TrUsage
         else Inr ([deref a], drop 3 a))
      else Inr ([hd arg], tl arg))"

lemma esc_loop_length:
  "esc_loop base k n q = (k', n', q') \<Longrightarrow> length q' \<le> (if base = 16 then Suc (length q) else length q)"
proof (induction base k n q rule: esc_loop.induct)
  case (1 base k n q)
  note e = 1(2) [unfolded esc_loop.simps [of base k n q] Let_def]
  show ?case using e 1(1) [OF refl _ refl] by (auto split: if_splits)
qed

lemma escape_shorter:
  assumes "bb_process_escape_sequence ptr = (c, q)"
  shows "length q \<le> length ptr"
proof -
  obtain k n q1 where e: "(if deref ptr = CHR ''x'' then esc_loop 16 1 0 (tl ptr) else esc_loop 8 0 0 ptr) = (k, n, q1)"
    using prod_cases3 by blast
  have "length q1 \<le> length ptr"
    using e esc_loop_length [of 16 1 0 "tl ptr"] esc_loop_length [of 8 0 0 ptr]
    by (cases ptr) (auto simp: deref_def split: if_splits)
  then show ?thesis
    using assms e by (auto simp: bb_process_escape_sequence_def Let_def split: if_splits option.splits)
qed

lemma expand_step_shorter: "arg \<noteq> [] \<Longrightarrow> expand_step arg = Inr (cs, rest) \<Longrightarrow> length rest < length arg"
  by (cases arg) (auto simp: expand_step_def expand_class_def Let_def dest!: escape_shorter
      split: if_splits prod.splits option.splits)

text \<open>
  \<open>expand\<close> with the growth of its buffer: before each turn there must be room for 256 characters.
  \<open>TrOverrun\<close> stands for a store behind the end of the buffer.
\<close>

function expand_loop :: "nat \<Rightarrow> string \<Rightarrow> string \<Rightarrow> tr_error + string" where
  "expand_loop sz buffer arg =
     (if arg = [] then Inr buffer
      else
        let sz' = (if length buffer + 256 > sz then sz + 256 else sz) in
        case expand_step arg of
          Inl e \<Rightarrow> Inl e
        | Inr (cs, rest) \<Rightarrow>
            if length buffer + length cs > sz' then Inl TrOverrun
            else expand_loop sz' (buffer @ cs) rest)"
  by pat_completeness auto
termination by (relation "measure (\<lambda>(sz, b, arg). length arg)") (auto dest: expand_step_shorter)

declare expand_loop.simps [simp del]

definition TR_BUFSIZ :: "nat \<Rightarrow> nat" where
  "TR_BUFSIZ bufsiz = (if bufsiz > 512 then bufsiz else 512)"

definition expand :: "nat \<Rightarrow> string \<Rightarrow> tr_error + string" where
  "expand bufsiz arg = expand_loop (TR_BUFSIZ bufsiz) [] arg"

definition complement :: "string \<Rightarrow> string" where
  "complement buffer = filter (\<lambda>c. c \<notin> set buffer) (map char_of [0..<256])"

section \<open>Translating\<close>

text \<open>\<open>map\<close>: \<open>last\<close> is what the rest of the first set maps to when the second is used up.\<close>

fun tr_map :: "string \<Rightarrow> string \<Rightarrow> char \<Rightarrow> (char \<Rightarrow> char) \<Rightarrow> char \<Rightarrow> char" where
  "tr_map [] string2 lst pvector = pvector"
| "tr_map (c # string1) [] lst pvector = tr_map string1 [] lst (pvector(c := lst))"
| "tr_map (c # string1) (d # string2) lst pvector = tr_map string1 string2 d (pvector(c := d))"

record tr_ctx =
  tr_delete :: bool
  tr_squeeze :: bool
  vector :: "char \<Rightarrow> char"
  invec :: "char \<Rightarrow> bool"
  outvec :: "char \<Rightarrow> bool"

text \<open>The characters of one buffer: the last character written and the output buffer.\<close>

fun tr_chars :: "tr_ctx \<Rightarrow> string \<Rightarrow> char option \<times> string \<Rightarrow> char option \<times> string" where
  "tr_chars x [] st = st"
| "tr_chars x (c # cs) (lst, out) =
     (if tr_delete x \<and> invec x c then tr_chars x cs (lst, out)
      else
        let coded = vector x c in
        if tr_squeeze x \<and> lst = Some coded \<and> (invec x c \<or> outvec x coded) then tr_chars x cs (lst, out)
        else tr_chars x cs (Some coded, out @ [coded]))"

text \<open>The loop over the reads; \<open>xwrite\<close> dies unless everything was written.\<close>

definition xwrite :: "bytes \<Rightarrow> sink \<Rightarrow> tr_error + sink" where
  "xwrite b s =
     (if b = [] then Inr s
      else case full_write b s of (n, s') \<Rightarrow> if n = Some (length b) then Inr s' else Inl TrWriteError)"

function tr_loop :: "nat \<Rightarrow> tr_ctx \<Rightarrow> fd \<Rightarrow> char option \<Rightarrow> sink \<Rightarrow> tr_error + sink" where
  "tr_loop bufsiz x f lst s =
     (case safe_read (TR_BUFSIZ bufsiz) f of
        (None, f') \<Rightarrow> Inl TrReadError
      | (Some b, f') \<Rightarrow>
          if b = [] then Inr s
          else
            (case tr_chars x b (lst, []) of (lst', out) \<Rightarrow>
               and_then (xwrite out s) (\<lambda>s'. tr_loop bufsiz x f' lst' s')))"
  by pat_completeness auto
termination by (relation "measure (\<lambda>(n, x, f, l, s). length (fd_data f))") (auto dest: safe_read_shrinks [OF sym])

declare tr_loop.simps [simp del]

definition tr_main :: "nat \<Rightarrow> bool \<Rightarrow> bool \<Rightarrow> bool \<Rightarrow> string list \<Rightarrow> fd \<Rightarrow> sink \<Rightarrow> tr_error + sink" where
  "tr_main bufsiz compl del squeeze argv f s =
     (case argv of
        [] \<Rightarrow> Inl TrUsage
      | a1 # rest \<Rightarrow>
          and_then (expand bufsiz a1) (\<lambda>e1.
            let str1 = (if compl then complement e1 else e1) in
            and_then (case rest of
                [] \<Rightarrow> Inr ([], id)
              | a2 # _ \<Rightarrow>
                  if a2 = [] then Inl EmptyString2
                  else and_then (expand bufsiz a2) (\<lambda>str2. Inr (str2, tr_map str1 str2 (CHR ''0'') id)))
              (\<lambda>(str2, vec).
                tr_loop bufsiz \<lparr>tr_delete = del, tr_squeeze = squeeze, vector = vec, invec = (\<lambda>c. c \<in> set str1),
                  outvec = (\<lambda>c. c \<in> set str2)\<rparr> f None s)))"

section \<open>The sets\<close>

lemma length_chars_between: "length (chars_between (of_char a) (of_char b)) \<le> 256"
proof -
  have "of_char b < (256 :: nat)" by simp
  then show ?thesis unfolding chars_between_def length_map length_upt by linarith
qed

lemma class_chars_room: "length (class_chars j) \<le> 256"
proof (cases "j = 8 \<or> j = 9")
  case True
  have "length (filter P [0..<256]) \<le> 256" for P :: "nat \<Rightarrow> bool"
    using length_filter_le [of P "[0..<256]"] by simp
  then show ?thesis using True by (auto simp: class_chars_def)
next
  case False
  then show ?thesis by (auto simp: class_chars_def chars_between_def)
qed

lemma expand_step_room: "expand_step arg = Inr (cs, rest) \<Longrightarrow> length cs \<le> 256"
  by (auto simp: expand_step_def expand_class_def Let_def length_chars_between class_chars_room
      split: if_splits prod.splits option.splits)

lemma expand_loop_room: "length buffer \<le> sz \<Longrightarrow> expand_loop sz buffer arg \<noteq> Inl TrOverrun"
proof (induction sz buffer arg rule: expand_loop.induct)
  case (1 sz buffer arg)
  show ?case
  proof (cases "expand_step arg")
    case (Inl e)
    then have "e \<noteq> TrOverrun" by (auto simp: expand_step_def Let_def split: if_splits prod.splits option.splits)
    then show ?thesis using Inl by (subst expand_loop.simps) simp
  next
    case (Inr p)
    obtain cs rest where p: "p = (cs, rest)" by fastforce
    then have "length cs \<le> 256" using Inr expand_step_room by simp
    then show ?thesis using 1 Inr p by (subst expand_loop.simps) (auto simp: Let_def)
  qed
qed

text \<open>
  C25. The expansion of a set never stores behind its buffer: whatever ranges, classes and escapes
  the argument holds, and however long it is, there is room for every character when it is stored.
\<close>

theorem tr_expand_in_bounds: "expand bufsiz arg \<noteq> Inl TrOverrun"
  unfolding expand_def by (rule expand_loop_room) simp

text \<open>The two characters below \<open>A\<close> and \<open>a\<close> are taken as the hexadecimal digit nine.\<close>

lemma escape_hex_at:
  "bb_process_escape_sequence ''x@'' = (CHR 0x09, [])" "bb_process_escape_sequence [CHR ''x'', CHR 0x60] = (CHR 0x09, [])"
  by (simp_all add: bb_process_escape_sequence_def deref_def esc_loop.simps esc_digit_def char_of_def bit_Suc_0_iff)

section \<open>What tr writes\<close>

lemma tr_chars_out: "tr_chars x cs (l, p @ u) = (fst (tr_chars x cs (l, u)), p @ snd (tr_chars x cs (l, u)))"
  by (induction cs arbitrary: l u) (auto simp: Let_def)

lemma tr_chars_append: "tr_chars x (a @ b) st = tr_chars x b (tr_chars x a st)"
  by (induction x a st rule: tr_chars.induct) (auto simp: Let_def)

lemma xwrite_ok:
  assumes "Eio \<notin> set (sk_events s)"
  shows "\<exists>s'. xwrite b s = Inr s' \<and> sk_data s' = sk_data s @ b \<and> Eio \<notin> set (sk_events s')"
proof (cases "b = []")
  case True
  then show ?thesis using assms by (simp add: xwrite_def)
next
  case False
  obtain s1 where s1: "full_write b s = (Some (length b), s1)" "sk_data s1 = sk_data s @ b"
      "set (sk_events s1) \<subseteq> set (sk_events s)"
    using full_write_ok [OF assms, of b] by auto
  then have "Eio \<notin> set (sk_events s1)" using assms by auto
  then show ?thesis using s1 False by (simp add: xwrite_def)
qed

lemma tr_loop_all:
  "feeds f d \<Longrightarrow> Eio \<notin> set (sk_events s) \<Longrightarrow>
   \<exists>s'. tr_loop bufsiz x f l s = Inr s' \<and> sk_data s' = sk_data s @ snd (tr_chars x d (l, []))"
proof (induction "length d" arbitrary: d f l s rule: less_induct)
  case less
  obtain b f1 where r: "safe_read (TR_BUFSIZ bufsiz) f = (Some b, f1)"
    using safe_read_no_error less.prems(1) by (metis feeds_def)
  note b = safe_read_Some [OF r]
  have f1: "feeds f1 (fd_data f1)" "d = b @ fd_data f1" using b less.prems(1) by (auto simp: feeds_def)
  show ?case
  proof (cases "b = []")
    case True
    then have "d = []" using b less.prems(1) by (auto simp: feeds_def TR_BUFSIZ_def split: if_splits)
    then show ?thesis using True r by (subst tr_loop.simps) simp
  next
    case False
    obtain l1 o1 where t: "tr_chars x b (l, []) = (l1, o1)" by fastforce
    obtain s1 where w: "xwrite o1 s = Inr s1" "sk_data s1 = sk_data s @ o1" "Eio \<notin> set (sk_events s1)"
      using xwrite_ok [OF less.prems(2)] by blast
    have "length (fd_data f1) < length d" using f1(2) False by simp
    then obtain s2 where ih: "tr_loop bufsiz x f1 l1 s1 = Inr s2" "sk_data s2 = sk_data s1 @ snd (tr_chars x (fd_data f1) (l1, []))"
      using less.hyps f1(1) w(3) by blast
    have "snd (tr_chars x d (l, [])) = o1 @ snd (tr_chars x (fd_data f1) (l1, []))"
      using t tr_chars_out [of x "fd_data f1" l1 o1 "[]"] f1(2) by (simp add: tr_chars_append)
    then show ?thesis using False r t w ih by (subst tr_loop.simps) simp
  qed
qed

text \<open>The documented translation: the second set, continued by its last character, for the first.\<close>

definition translate :: "string \<Rightarrow> string \<Rightarrow> char \<Rightarrow> char" where
  "translate s1 s2 c =
     (case map_of (rev (zip s1 (s2 @ replicate (length s1) (last s2)))) c of None \<Rightarrow> c | Some d \<Rightarrow> d)"

lemma tr_map_lookup:
  "tr_map s1 s2 l vec c =
     (case map_of (rev (zip s1 (s2 @ replicate (length s1) (if s2 = [] then l else last s2)))) c of
        None \<Rightarrow> vec c | Some d \<Rightarrow> d)"
proof (induction s1 s2 l vec rule: tr_map.induct)
  case (3 c1 s1 d s2 l vec)
  have z: "zip s1 (s2 @ replicate (Suc (length s1)) y) = zip s1 (s2 @ replicate (length s1) y)" for y
    by (rule nth_equalityI) (auto simp: nth_append simp del: replicate_Suc)
  define y where "y = (if s2 = [] then d else last s2)"
  have ih: "tr_map s1 s2 d (vec(c1 := d)) c =
      (case map_of (rev (zip s1 (s2 @ replicate (length s1) y))) c of None \<Rightarrow> (vec(c1 := d)) c | Some d \<Rightarrow> d)"
    unfolding y_def by (rule 3)
  have "zip (c1 # s1) ((d # s2) @ replicate (length (c1 # s1)) y) = (c1, d) # zip s1 (s2 @ replicate (length s1) y)"
    using z [of y] by (simp del: replicate_Suc)
  moreover have "(if d # s2 = [] then l else last (d # s2)) = y" by (simp add: y_def)
  ultimately show ?case
    unfolding tr_map.simps ih by (simp add: map_add_def del: replicate_Suc split: option.split)
qed (auto simp: map_add_def fun_upd_def split: option.splits)

lemma tr_map_translate: "s2 \<noteq> [] \<Longrightarrow> tr_map s1 s2 l id = translate s1 s2"
  by (intro ext) (simp add: tr_map_lookup translate_def split: option.splits)

lemma tr_main_translates:
  assumes "expand bufsiz a1 = Inr e1" "expand bufsiz a2 = Inr e2" "e2 \<noteq> []" "a2 \<noteq> []"
    and "feeds f d" "Eio \<notin> set (sk_events s)" "S = (if compl then complement e1 else e1)"
  shows "\<exists>s'. tr_main bufsiz compl False False [a1, a2] f s = Inr s' \<and> sk_data s' = sk_data s @ map (translate S e2) d"
proof -
  have "snd (tr_chars x d (l, u)) = u @ map (vector x) d" if "\<not> tr_delete x" "\<not> tr_squeeze x" for x l u
    using that by (induction d arbitrary: l u) (auto simp: Let_def)
  then show ?thesis
    using tr_loop_all [OF assms(5,6), of bufsiz "\<lparr>tr_delete = False, tr_squeeze = False, vector = translate S e2,
        invec = (\<lambda>c. c \<in> set S), outvec = (\<lambda>c. c \<in> set e2)\<rparr>" None] assms(1-4,7) tr_map_translate [OF assms(3)]
    by (auto simp: tr_main_def Let_def)
qed

text \<open>Squeezing replaces every run of a character of the set by one.\<close>

fun runs :: "string \<Rightarrow> string list" where
  "runs [] = []"
| "runs (c # s) = (case runs s of [] \<Rightarrow> [[c]] | g # gs \<Rightarrow> if hd g = c then (c # g) # gs else [c] # g # gs)"

definition squeezed :: "(char \<Rightarrow> bool) \<Rightarrow> string list \<Rightarrow> string" where
  "squeezed S gs = concat (map (\<lambda>g. if S (hd g) then [hd g] else g) gs)"

lemma runs_nonempty: "g \<in> set (runs s) \<Longrightarrow> g \<noteq> []"
  by (induction s arbitrary: g) (auto split: list.splits if_splits)

lemma runs_hd: "runs s = g # gs \<Longrightarrow> s \<noteq> [] \<and> hd g = hd s"
  by (cases s) (auto split: list.splits if_splits)

lemma runs_Cons_not_Nil [simp]: "runs (c # s) \<noteq> []"
  by (auto split: list.splits)

lemma tr_chars_squeeze:
  assumes "\<not> tr_delete x" "tr_squeeze x" "vector x = id" "\<And>c. \<not> outvec x c"
  shows "snd (tr_chars x d (l, u)) = u @ (case runs d of
      [] \<Rightarrow> []
    | g # gs \<Rightarrow> (if l = Some (hd g) \<and> invec x (hd g) then squeezed (invec x) gs else squeezed (invec x) (g # gs)))"
proof (induction d arbitrary: l u)
  case (Cons c d)
  show ?case
  proof (cases "runs d")
    case Nil
    then have "d = []" using runs_Cons_not_Nil by (cases d) auto
    then show ?thesis using assms by (auto simp: squeezed_def)
  next
    case (Cons g gs)
    have g: "g \<noteq> []" using runs_nonempty [of g d] Cons by simp
    show ?thesis
      using Cons.IH [of "Some c" "u @ [c]"] Cons.IH [of l u] assms Cons g
      by (auto simp: squeezed_def Let_def)
  qed
qed simp



end
