(* ===== verification/Test.thy ===== *)
theory Test
  imports Numbers
begin

text \<open>
  \<open>test\<close> and \<open>[\<close> as in \<open>coreutils/test.c\<close>, the builtin that decides every branch of the flash
  script: the operator table, the recursive descent over the argument vector, integer, string and
  file operators. \<open>FEATURE_TEST_64\<close> is on. The file system, the identity of the process and its
  terminals are an argument. A read behind the argument vector is the error \<open>BadAccess\<close>; the
  \<open>longjmp\<close> of \<open>syntax\<close> is the error \<open>Syntax\<close>.
\<close>

section \<open>Operators\<close>

datatype token =
    EOI
  | FILRD | FILWR | FILEX
  | FILEXIST
  | FILREG | FILDIR | FILCDEV | FILBDEV | FILFIFO | FILSOCK
  | FILSYM | FILGZ | FILTT
  | FILSUID | FILSGID | FILSTCK
  | FILNT | FILOT | FILEQ
  | FILUID | FILGID
  | STREZ | STRNZ | STREQ | STRNE | STRLT | STRGT
  | INTEQ | INTNE | INTGE | INTGT | INTLE | INTLT
  | UNOT | BAND | BOR | LPAREN | RPAREN | OPERAND

definition is_int_op :: "token \<Rightarrow> bool" where
  "is_int_op a \<longleftrightarrow> a \<in> {INTEQ, INTNE, INTGE, INTGT, INTLE, INTLT}"

definition is_str_op :: "token \<Rightarrow> bool" where
  "is_str_op a \<longleftrightarrow> a \<in> {STREZ, STRNZ, STREQ, STRNE, STRLT, STRGT}"

definition is_file_access :: "token \<Rightarrow> bool" where
  "is_file_access a \<longleftrightarrow> a \<in> {FILRD, FILWR, FILEX}"

definition is_file_type :: "token \<Rightarrow> bool" where
  "is_file_type a \<longleftrightarrow> a \<in> {FILREG, FILDIR, FILCDEV, FILBDEV, FILFIFO, FILSOCK}"

definition is_file_bit :: "token \<Rightarrow> bool" where
  "is_file_bit a \<longleftrightarrow> a \<in> {FILSUID, FILSGID, FILSTCK}"

datatype optype = UNOP | BINOP | BUNOP | BBINOP | PAREN

definition ops_table :: "(token \<times> optype) list" where
  "ops_table = [
     (FILRD, UNOP), (FILWR, UNOP), (FILEX, UNOP), (FILEXIST, UNOP), (FILREG, UNOP), (FILDIR, UNOP),
     (FILCDEV, UNOP), (FILBDEV, UNOP), (FILFIFO, UNOP), (FILSUID, UNOP), (FILSGID, UNOP), (FILSTCK, UNOP),
     (FILGZ, UNOP), (FILTT, UNOP), (STREZ, UNOP), (STRNZ, UNOP), (FILSYM, UNOP),
     (FILUID, UNOP), (FILGID, UNOP), (FILSYM, UNOP), (FILSOCK, UNOP),
     (STREQ, BINOP), (STREQ, BINOP), (STRNE, BINOP), (STRLT, BINOP), (STRGT, BINOP),
     (INTEQ, BINOP), (INTNE, BINOP), (INTGE, BINOP), (INTGT, BINOP), (INTLE, BINOP), (INTLT, BINOP),
     (FILNT, BINOP), (FILOT, BINOP), (FILEQ, BINOP),
     (UNOT, BUNOP), (BAND, BBINOP), (BOR, BBINOP), (LPAREN, PAREN), (RPAREN, PAREN)]"

definition ops_texts :: "string list" where
  "ops_texts = [
     ''-r'', ''-w'', ''-x'', ''-e'', ''-f'', ''-d'',
     ''-c'', ''-b'', ''-p'', ''-u'', ''-g'', ''-k'',
     ''-s'', ''-t'', ''-z'', ''-n'', ''-h'',
     ''-O'', ''-G'', ''-L'', ''-S'',
     ''='', ''=='', ''!='', ''<'', ''>'',
     ''-eq'', ''-ne'', ''-ge'', ''-gt'', ''-le'', ''-lt'',
     ''-nt'', ''-ot'', ''-ef'',
     ''!'', ''-a'', ''-o'', ''('', '')'']"

section \<open>State and environment\<close>

datatype test_error = Syntax | BadAccess | OutOfFuel

text \<open>\<open>args\<close> is the index of the current argument; \<open>None\<close> as operator is the entry \<open>no_op\<close>.\<close>

record test_statics =
  args :: nat
  last_operator :: "(token \<times> optype) option"
  group_array :: "nat list"
  ngroups :: int

record stat_buf =
  st_mode :: u32
  st_uid :: nat
  st_gid :: nat
  st_size :: int
  st_mtime :: int
  st_dev :: nat
  st_ino :: nat

record test_env =
  do_stat :: "string \<Rightarrow> stat_buf option"
  do_lstat :: "string \<Rightarrow> stat_buf option"
  geteuid :: nat
  getegid :: nat
  getgid :: nat
  supplementary :: "nat list"
  isatty :: "int \<Rightarrow> bool"

text \<open>Reading \<open>args[i]\<close>; the vector ends with its null pointer.\<close>

definition arg :: "string option list \<Rightarrow> nat \<Rightarrow> test_error + string option" where
  "arg av i = (if i < length av then Inr (av ! i) else Inl BadAccess)"

definition check_operator :: "string option \<Rightarrow> test_statics \<Rightarrow> token \<times> test_statics" where
  "check_operator s st =
     (case s of
        None \<Rightarrow> (EOI, st\<lparr>last_operator := None\<rparr>)
      | Some t \<Rightarrow>
          (case index_in_strings ops_texts t of
             None \<Rightarrow> (OPERAND, st\<lparr>last_operator := None\<rparr>)
           | Some n \<Rightarrow> (fst (ops_table ! n), st\<lparr>last_operator := Some (ops_table ! n)\<rparr>)))"

definition op_type :: "test_statics \<Rightarrow> optype option" where
  "op_type st = map_option snd (last_operator st)"

text \<open>\<open>*++args\<close>, and \<open>check_operator(*++args)\<close>.\<close>

definition next_arg :: "string option list \<Rightarrow> test_statics \<Rightarrow> test_error + (string option \<times> test_statics)" where
  "next_arg av st = and_then (arg av (args st + 1)) (\<lambda>a. Inr (a, st\<lparr>args := args st + 1\<rparr>))"

definition check_next :: "string option list \<Rightarrow> test_statics \<Rightarrow> test_error + (token \<times> test_statics)" where
  "check_next av st = and_then (next_arg av st) (\<lambda>(a, st'). Inr (check_operator a st'))"

section \<open>Numbers\<close>

text \<open>\<open>strtoll(s, &p, 10)\<close>: the value, \<open>None\<close> when it is out of range, and the text at \<open>p\<close>.\<close>

definition strtoll10 :: "string \<Rightarrow> int option \<times> string" where
  "strtoll10 s =
     (let s1 = dropWhile isspace s;
          s2 = (if s1 \<noteq> [] \<and> (hd s1 = CHR ''-'' \<or> hd s1 = CHR ''+'') then tl s1 else s1);
          digs = takeWhile isdigit s2;
          v = (if s1 \<noteq> [] \<and> hd s1 = CHR ''-'' then - int (digits_value 10 digs) else int (digits_value 10 digs))
      in if digs = [] then (Some 0, s)
         else (if - (2 ^ 63) \<le> v \<and> v < 2 ^ 63 then Some v else None, dropWhile isdigit s2))"

definition skip_whitespace :: "string \<Rightarrow> string" where
  "skip_whitespace s = dropWhile (\<lambda>c. c = CHR '' '' \<or> (of_char c - 9 :: u8) \<le> 13 - 9) s"

definition getn :: "string \<Rightarrow> test_error + int" where
  "getn s =
     (case strtoll10 s of
        (None, p) \<Rightarrow> Inl Syntax
      | (Some r, p) \<Rightarrow> if p = s \<or> skip_whitespace p \<noteq> [] then Inl Syntax else Inr r)"

section \<open>Binary operators\<close>

definition int_cmp :: "token \<Rightarrow> int \<Rightarrow> int \<Rightarrow> bool" where
  "int_cmp opn val1 val2 =
     (if opn = INTEQ then val1 = val2
      else if opn = INTNE then val1 \<noteq> val2
      else if opn = INTGE then val1 \<ge> val2
      else if opn = INTGT then val1 > val2
      else if opn = INTLE then val1 \<le> val2
      else val1 < val2)"

definition str_cmp :: "token \<Rightarrow> string \<Rightarrow> string \<Rightarrow> bool" where
  "str_cmp opn opnd1 opnd2 =
     (let val1 = strcmp opnd1 opnd2 in
      if opn = STREQ then val1 = 0
      else if opn = STRNE then val1 \<noteq> 0
      else if opn = STRLT then val1 < 0
      else val1 > 0)"

definition file_cmp :: "test_env \<Rightarrow> token \<Rightarrow> string \<Rightarrow> string \<Rightarrow> bool" where
  "file_cmp e opn opnd1 opnd2 =
     (case (do_stat e opnd1, do_stat e opnd2) of
        (Some b1, Some b2) \<Rightarrow>
          if opn = FILNT then st_mtime b1 > st_mtime b2
          else if opn = FILOT then st_mtime b1 < st_mtime b2
          else st_dev b1 = st_dev b2 \<and> st_ino b1 = st_ino b2
      | _ \<Rightarrow> False)"

definition binop_value :: "test_env \<Rightarrow> token \<Rightarrow> string \<Rightarrow> string \<Rightarrow> test_error + bool" where
  "binop_value e opn opnd1 opnd2 =
     (if is_int_op opn then
        and_then (getn opnd1) (\<lambda>val1. and_then (getn opnd2) (\<lambda>val2. Inr (int_cmp opn val1 val2)))
      else if is_str_op opn then Inr (str_cmp opn opnd1 opnd2)
      else Inr (file_cmp e opn opnd1 opnd2))"

definition binop :: "string option list \<Rightarrow> test_env \<Rightarrow> test_statics \<Rightarrow> test_error + (bool \<times> test_statics)" where
  "binop av e st =
     and_then (arg av (args st)) (\<lambda>opnd1.
     and_then (check_next av st) (\<lambda>(_, st1).
     and_then (next_arg av st1) (\<lambda>(opnd2, st2).
       (case (opnd1, opnd2, last_operator st1) of
          (_, None, _) \<Rightarrow> Inl Syntax
        | (Some o1, Some o2, Some (opn, _)) \<Rightarrow> and_then (binop_value e opn o1 o2) (\<lambda>b. Inr (b, st2))
        | _ \<Rightarrow> Inl BadAccess))))"

section \<open>File operators\<close>

text \<open>\<open>getgroups(n)\<close>: the number of groups, or -1 when there are more than \<open>n\<close>; zero only asks.\<close>

definition getgroups :: "test_env \<Rightarrow> int \<Rightarrow> int" where
  "getgroups e n =
     (let k = int (length (supplementary e)) in if n = 0 \<or> k \<le> n then k else -1)"

function initialize_group_array :: "test_env \<Rightarrow> int \<Rightarrow> test_statics \<Rightarrow> test_statics" where
  "initialize_group_array e n st =
     (let k = getgroups e n in
      if k > n then initialize_group_array e k st
      else st\<lparr>group_array := take (nat k) (supplementary e), ngroups := k\<rparr>)"
  by pat_completeness auto
termination
  by (relation "measure (\<lambda>(e, n, st). if n < int (length (supplementary e)) then nat (int (length (supplementary e)) - n) else 0)")
    (auto simp: getgroups_def Let_def split: if_splits)

declare initialize_group_array.simps [simp del]

definition is_a_group_member :: "test_env \<Rightarrow> nat \<Rightarrow> test_statics \<Rightarrow> bool \<times> test_statics" where
  "is_a_group_member e gid st =
     (if gid = getgid e \<or> gid = getegid e then (True, st)
      else
        let st' = (if ngroups st = 0 then initialize_group_array e 32 st else st) in
        (gid \<in> set (take (nat (ngroups st')) (group_array st')), st'))"

definition test_eaccess :: "test_env \<Rightarrow> string \<Rightarrow> u32 \<Rightarrow> test_statics \<Rightarrow> bool \<times> test_statics" where
  "test_eaccess e path mode st =
     (case do_stat e path of
        None \<Rightarrow> (False, st)
      | Some b \<Rightarrow>
          if geteuid e = 0 \<and> (mode \<noteq> 1 \<or> st_mode b AND 0x49 \<noteq> 0) then (True, st)
          else
            let (mode', st') =
              (if st_uid b = geteuid e then (push_bit 6 mode, st)
               else case is_a_group_member e (st_gid b) st of
                 (m, st1) \<Rightarrow> (if m then push_bit 3 mode else mode, st1))
            in (st_mode b AND mode' \<noteq> 0, st'))"

definition file_type_bits :: "token \<Rightarrow> u32" where
  "file_type_bits mode =
     (if mode = FILREG then 0x8000 else if mode = FILDIR then 0x4000 else if mode = FILCDEV then 0x2000
      else if mode = FILBDEV then 0x6000 else if mode = FILFIFO then 0x1000 else 0xC000)"

definition filstat :: "test_env \<Rightarrow> string \<Rightarrow> token \<Rightarrow> test_statics \<Rightarrow> bool \<times> test_statics" where
  "filstat e nm mode st =
     (if mode = FILSYM then
        (case do_lstat e nm of Some s \<Rightarrow> (st_mode s AND 0xF000 = 0xA000, st) | None \<Rightarrow> (False, st))
      else
        case do_stat e nm of
          None \<Rightarrow> (False, st)
        | Some s \<Rightarrow>
            if mode = FILEXIST then (True, st)
            else if is_file_access mode then
              test_eaccess e nm (if mode = FILRD then 4 else if mode = FILWR then 2 else 1) st
            else if is_file_type mode then (st_mode s AND 0xF000 = file_type_bits mode, st)
            else if is_file_bit mode then
              (st_mode s AND (if mode = FILSUID then 0x800 else if mode = FILSGID then 0x400 else 0x200) \<noteq> 0, st)
            else if mode = FILGZ then (st_size s > 0, st)
            else if mode = FILUID then (st_uid s = geteuid e, st)
            else if mode = FILGID then (st_gid s = getegid e, st)
            else (True, st))"

section \<open>The parser\<close>

text \<open>The part of \<open>primary\<close> behind the parenthesis: binary, unary and plain operands.\<close>

definition check_emptiness :: "string option list \<Rightarrow> test_statics \<Rightarrow> test_error + (bool \<times> test_statics)" where
  "check_emptiness av st =
     and_then (arg av (args st)) (\<lambda>a. case a of None \<Rightarrow> Inl BadAccess | Some s \<Rightarrow> Inr (s \<noteq> [], st))"

definition unary :: "test_env \<Rightarrow> token \<Rightarrow> string \<Rightarrow> test_statics \<Rightarrow> test_error + (bool \<times> test_statics)" where
  "unary e n s st =
     (if n = STREZ then Inr (s = [], st)
      else if n = STRNZ then Inr (s \<noteq> [], st)
      else if n = FILTT then and_then (getn s) (\<lambda>v. Inr (isatty e (sint (word_of_int v :: u32)), st))
      else Inr (filstat e s n st))"

definition primary_leaf :: "string option list \<Rightarrow> test_env \<Rightarrow> token \<Rightarrow> test_statics \<Rightarrow> test_error + (bool \<times> test_statics)" where
  "primary_leaf av e n st =
     and_then (arg av (args st + 1)) (\<lambda>a1.
       let (t1, st1) = check_operator a1 st in
       and_then (if t1 \<noteq> EOI then arg av (args st + 2) else Inr None) (\<lambda>a2.
         if a2 \<noteq> None \<and> op_type st1 = Some BINOP then binop av e st1
         else if op_type st = Some UNOP then
           (case a1 of
              None \<Rightarrow> check_emptiness av st1
            | Some s \<Rightarrow> unary e n s (st1\<lparr>args := args st1 + 1\<rparr>))
         else if op_type st1 = Some BINOP then binop av e st1
         else check_emptiness av st1))"

text \<open>The four mutually recursive functions; the first argument bounds the depth of the calls.\<close>

function (sequential) primary :: "nat \<Rightarrow> string option list \<Rightarrow> test_env \<Rightarrow> token \<Rightarrow> test_statics \<Rightarrow> test_error + (bool \<times> test_statics)"
  and nexpr :: "nat \<Rightarrow> string option list \<Rightarrow> test_env \<Rightarrow> token \<Rightarrow> test_statics \<Rightarrow> test_error + (bool \<times> test_statics)"
  and aexpr :: "nat \<Rightarrow> string option list \<Rightarrow> test_env \<Rightarrow> token \<Rightarrow> test_statics \<Rightarrow> test_error + (bool \<times> test_statics)"
  and oexpr :: "nat \<Rightarrow> string option list \<Rightarrow> test_env \<Rightarrow> token \<Rightarrow> test_statics \<Rightarrow> test_error + (bool \<times> test_statics)" where
  "primary 0 av e n st = Inl OutOfFuel"
| "primary (Suc k) av e n st =
     (if n = EOI then Inl Syntax
      else if n = LPAREN then
        and_then (check_next av st) (\<lambda>(n1, st1).
        and_then (oexpr k av e n1 st1) (\<lambda>(res, st2).
        and_then (check_next av st2) (\<lambda>(t, st3). if t \<noteq> RPAREN then Inl Syntax else Inr (res, st3))))
      else primary_leaf av e n st)"
| "nexpr 0 av e n st = Inl OutOfFuel"
| "nexpr (Suc k) av e n st =
     (if n = UNOT then
        and_then (check_next av st) (\<lambda>(n1, st1).
          if n1 = EOI then Inr (True, st1)
          else and_then (nexpr k av e n1 st1) (\<lambda>(res, st2). Inr (\<not> res, st2)))
      else primary k av e n st)"
| "aexpr 0 av e n st = Inl OutOfFuel"
| "aexpr (Suc k) av e n st =
     and_then (nexpr k av e n st) (\<lambda>(res, st1).
     and_then (check_next av st1) (\<lambda>(t, st2).
       if t = BAND then
         and_then (check_next av st2) (\<lambda>(n1, st3).
         and_then (aexpr k av e n1 st3) (\<lambda>(res2, st4). Inr (res2 \<and> res, st4)))
       else Inr (res, st2\<lparr>args := args st2 - 1\<rparr>)))"
| "oexpr 0 av e n st = Inl OutOfFuel"
| "oexpr (Suc k) av e n st =
     and_then (aexpr k av e n st) (\<lambda>(res, st1).
     and_then (check_next av st1) (\<lambda>(t, st2).
       if t = BOR then
         and_then (check_next av st2) (\<lambda>(n1, st3).
         and_then (oexpr k av e n1 st3) (\<lambda>(res2, st4). Inr (res2 \<or> res, st4)))
       else Inr (res, st2\<lparr>args := args st2 - 1\<rparr>)))"
  by pat_completeness auto
termination
  by (relation "measure (\<lambda>x. case x of
      Inl (Inl (k, _)) \<Rightarrow> k | Inl (Inr (k, _)) \<Rightarrow> k | Inr (Inl (k, _)) \<Rightarrow> k | Inr (Inr (k, _)) \<Rightarrow> k)") simp_all

definition bb_basename :: "string \<Rightarrow> string" where
  "bb_basename nam = rev (takeWhile (\<lambda>c. c \<noteq> CHR ''/'') (rev nam))"

text \<open>\<open>test_main\<close> behind \<open>argv++\<close>, on the vector with its null pointers; the result is the exit status.\<close>

definition test_run :: "test_env \<Rightarrow> string option list \<Rightarrow> test_error + nat" where
  "test_run e av =
     and_then (arg av 1) (\<lambda>a.
       if a = None then Inr 1
       else
         let st0 = \<lparr>args = 1, last_operator = None, group_array = [], ngroups = 0\<rparr>;
             (n, st1) = check_operator a st0
         in case oexpr (4 * length av + 4) av e n st1 of
              Inl Syntax \<Rightarrow> Inr 2
            | Inl err \<Rightarrow> Inl err
            | Inr (res, st2) \<Rightarrow>
                and_then (arg av (args st2)) (\<lambda>a2.
                  if a2 = None then Inr (if res then 0 else 1)
                  else and_then (arg av (args st2 + 1)) (\<lambda>a3.
                    if a3 \<noteq> None then Inr 2 else Inr (if res then 0 else 1))))"

definition test_main :: "test_env \<Rightarrow> string list \<Rightarrow> test_error + nat" where
  "test_main e argv =
     (let arg0 = bb_basename (hd argv); av = map Some argv @ [None]; argc = length argv - 1 in
      if arg0 \<noteq> [] \<and> hd arg0 = CHR ''['' then
        (if tl arg0 = [] then
           (if argv ! argc \<noteq> '']'' then Inr 2 else test_run e (av[argc := None]))
         else
           (if argv ! argc \<noteq> '']]'' then Inr 2 else test_run e (av[argc := None])))
      else test_run e av)"

section \<open>The operator table\<close>

definition operator_of :: "string option \<Rightarrow> (token \<times> optype) option" where
  "operator_of s = (case s of None \<Rightarrow> None | Some t \<Rightarrow> map_of (zip ops_texts ops_table) t)"

definition token_of :: "string option \<Rightarrow> token" where
  "token_of s = (if s = None then EOI else case operator_of s of None \<Rightarrow> OPERAND | Some p \<Rightarrow> fst p)"

lemma index_in_strings_map_of:
  "length xs = length ys \<Longrightarrow> map_option ((!) ys) (index_in_strings xs t) = map_of (zip xs ys) t"
proof (induction xs ys rule: list_induct2)
  case (Cons x xs y ys)
  have "map_option ((!) (y # ys)) (map_option Suc r) = map_option ((!) ys) r" for r
    by (cases r) auto
  then show ?case using Cons by auto
qed simp

lemma check_operator_eq: "check_operator s st = (token_of s, st\<lparr>last_operator := operator_of s\<rparr>)"
proof (cases s)
  case (Some t)
  have "operator_of s = map_option ((!) ops_table) (index_in_strings ops_texts t)"
    unfolding operator_of_def Some
    by (simp add: index_in_strings_map_of [of ops_texts ops_table] ops_texts_def ops_table_def)
  then show ?thesis
    using Some by (cases "index_in_strings ops_texts t") (auto simp: check_operator_def token_of_def)
qed (simp add: check_operator_def token_of_def operator_of_def)

lemma operator_of_mem: "operator_of s = Some p \<Longrightarrow> \<exists>t. s = Some t \<and> (t, p) \<in> set (zip ops_texts ops_table)"
  by (auto simp: operator_of_def dest: map_of_SomeD split: option.splits)

lemma operator_of_None [simp]: "operator_of None = None"
  by (simp add: operator_of_def)

lemma token_of_EOI [simp]: "token_of s = EOI \<longleftrightarrow> s = None"
proof (cases "operator_of s")
  case (Some p)
  then obtain t where "s = Some t" "(t, p) \<in> set (zip ops_texts ops_table)" using operator_of_mem by blast
  then show ?thesis using Some by (auto simp: token_of_def ops_texts_def ops_table_def)
qed (simp add: token_of_def)

lemma token_of_text:
  assumes "token_of s = n" "n \<noteq> EOI" "n \<noteq> OPERAND"
  shows "\<exists>t p. s = Some t \<and> operator_of s = Some (n, p) \<and> (t, n, p) \<in> set (zip ops_texts ops_table)"
proof (cases "operator_of s")
  case None
  then show ?thesis using assms by (auto simp: token_of_def split: if_splits)
next
  case (Some q)
  then show ?thesis using operator_of_mem [OF Some] assms by (cases q) (auto simp: token_of_def)
qed

lemma token_of_special:
  "token_of s = UNOT \<longleftrightarrow> s = Some ''!''"
  "token_of s = BAND \<longleftrightarrow> s = Some ''-a''"
  "token_of s = BOR \<longleftrightarrow> s = Some ''-o''"
  "token_of s = LPAREN \<longleftrightarrow> s = Some ''(''"
  "token_of s = RPAREN \<longleftrightarrow> s = Some '')''"
proof -
  have "token_of (Some ''!'') = UNOT" "token_of (Some ''-a'') = BAND" "token_of (Some ''-o'') = BOR"
    "token_of (Some ''('') = LPAREN" "token_of (Some '')'') = RPAREN"
    by (simp_all add: token_of_def operator_of_def ops_texts_def ops_table_def)
  moreover have "n \<in> {UNOT, BAND, BOR, LPAREN, RPAREN} \<Longrightarrow> token_of s = n \<Longrightarrow>
      s = Some (if n = UNOT then ''!'' else if n = BAND then ''-a'' else if n = BOR then ''-o'' else if n = LPAREN then ''('' else '')'')" for n
    using token_of_text [of s n] by (auto simp: ops_texts_def ops_table_def)
  ultimately show "token_of s = UNOT \<longleftrightarrow> s = Some ''!''" "token_of s = BAND \<longleftrightarrow> s = Some ''-a''"
    "token_of s = BOR \<longleftrightarrow> s = Some ''-o''" "token_of s = LPAREN \<longleftrightarrow> s = Some ''(''" "token_of s = RPAREN \<longleftrightarrow> s = Some '')''"
    by force+
qed

section \<open>Every bracket test ends within its arguments\<close>

text \<open>
  The vector holds arguments below \<open>L\<close> and null pointers from there on; there are two of them, as
  behind a removed bracket, or the last argument is not an exclamation mark.
\<close>

definition vec_ok :: "string option list \<Rightarrow> nat \<Rightarrow> bool" where
  "vec_ok av L \<longleftrightarrow> L < length av \<and> (\<forall>i < length av. av ! i = None \<longleftrightarrow> L \<le> i)
     \<and> (L + 1 < length av \<or> (0 < L \<longrightarrow> av ! (L - 1) \<noteq> Some ''!''))"

definition settled :: "string option list \<Rightarrow> nat \<Rightarrow> nat \<Rightarrow> test_error + (bool \<times> test_statics) \<Rightarrow> bool" where
  "settled av L p r \<longleftrightarrow> (case r of
      Inl err \<Rightarrow> err = Syntax
    | Inr (b, st) \<Rightarrow> p \<le> args st \<and> args st \<le> L \<and> args st + 1 < length av)"

text \<open>The state \<open>check_operator\<close> leaves at the current argument.\<close>

definition scanned :: "string option list \<Rightarrow> token \<Rightarrow> test_statics \<Rightarrow> bool" where
  "scanned av n st \<longleftrightarrow> args st < length av \<and> n = token_of (av ! args st) \<and> last_operator st = operator_of (av ! args st)"

lemma settled_simps [simp]:
  "settled av L p (Inl err) \<longleftrightarrow> err = Syntax"
  "settled av L p (Inr (b, st)) \<longleftrightarrow> p \<le> args st \<and> args st \<le> L \<and> args st + 1 < length av"
  by (simp_all add: settled_def)

lemma settled_bind:
  assumes "settled av L q r"
    and "\<And>b st. q \<le> args st \<Longrightarrow> args st \<le> L \<Longrightarrow> args st + 1 < length av \<Longrightarrow> settled av L p (f (b, st))"
  shows "settled av L p (and_then r f)"
  using assms by (cases r) (auto simp: settled_def)

lemma settled_mono: "settled av L q r \<Longrightarrow> p \<le> q \<Longrightarrow> settled av L p r"
  by (auto simp: settled_def split: sum.splits)

lemma vec_None: "vec_ok av L \<Longrightarrow> i < length av \<Longrightarrow> av ! i = None \<longleftrightarrow> L \<le> i"
  by (simp add: vec_ok_def)

lemma getn_error: "getn s = Inl err \<Longrightarrow> err = Syntax"
  by (auto simp: getn_def split: prod.splits option.splits if_splits)

lemma binop_settled:
  assumes "vec_ok av L" "args st + 1 < L" "last_operator st \<noteq> None" "last_operator st = operator_of (av ! (args st + 1))"
  shows "settled av L (args st) (binop av e st)"
proof -
  have len: "args st + 2 < length av" "args st + 1 < length av" "args st < length av" using assms by (auto simp: vec_ok_def)
  obtain o1 where o1: "av ! args st = Some o1" using vec_None [OF assms(1) len(3)] assms(2) by fastforce
  obtain opn ty where l: "operator_of (av ! Suc (args st)) = Some (opn, ty)" using assms(3,4) by auto
  have "args st + 2 < L" if "av ! (args st + 2) \<noteq> None" using that vec_None [OF assms(1) len(1)] by auto
  moreover have "L < length av" using assms(1) by (simp add: vec_ok_def)
  ultimately show ?thesis
    using len o1 l
    by (auto simp: binop_def arg_def check_next_def next_arg_def check_operator_eq and_then_def settled_def
        binop_value_def dest: getn_error split: option.splits sum.splits if_splits)
qed

lemma check_emptiness_settled:
  assumes "vec_ok av L" "args st < L"
  shows "settled av L (args st) (check_emptiness av st)"
proof -
  have "args st < length av" "args st + 1 < length av" using assms by (auto simp: vec_ok_def)
  then show ?thesis using vec_None [OF assms(1), of "args st"] assms(2) by (auto simp: check_emptiness_def arg_def)
qed

lemma group_member_args: "is_a_group_member e g st = (b, st') \<Longrightarrow> args st' = args st"
proof -
  have "args (initialize_group_array e n st) = args st" for n
    by (induction e n st rule: initialize_group_array.induct) (subst initialize_group_array.simps, auto simp: Let_def)
  then show "is_a_group_member e g st = (b, st') \<Longrightarrow> args st' = args st"
    by (auto simp: is_a_group_member_def Let_def split: if_splits)
qed

lemma filstat_args [simp]: "args (snd (filstat e s n st)) = args st"
proof -
  have "args (snd (test_eaccess e s m st)) = args st" for m
    by (auto simp: test_eaccess_def Let_def split: option.split prod.split dest: group_member_args)
  then show ?thesis by (simp add: filstat_def split: option.split)
qed

lemma unary_settled:
  assumes "args st \<le> L" "args st + 1 < length av"
  shows "settled av L (args st) (unary e n s st)"
  using assms filstat_args [of e s n st]
  by (cases "filstat e s n st") (auto simp: unary_def and_then_def dest: getn_error split: sum.splits)

lemma primary_leaf_settled:
  assumes "vec_ok av L" "scanned av n st" "args st < L"
  shows "settled av L (args st) (primary_leaf av e n st)"
proof -
  have len: "args st + 1 < length av" "L < length av" using assms by (auto simp: vec_ok_def)
  define st1 where "st1 = st\<lparr>last_operator := operator_of (av ! (args st + 1))\<rparr>"
  have a1: "arg av (args st + 1) = Inr (av ! (args st + 1))" using len by (simp add: arg_def)
  have emp: "settled av L (args st) (check_emptiness av st1)"
    using check_emptiness_settled [OF assms(1), of st1] assms(3) by (simp add: st1_def)
  show ?thesis
  proof (cases "av ! (args st + 1)")
    case None
    then have "op_type st1 \<noteq> Some BINOP" by (simp add: st1_def op_type_def)
    then show ?thesis
      using None emp a1 by (simp add: primary_leaf_def check_operator_eq Let_def st1_def)
  next
    case (Some s)
    then have lt: "args st + 1 < L" using vec_None [OF assms(1) len(1)] by simp
    then have a2: "arg av (args st + 2) = Inr (av ! (args st + 2))" using len by (simp add: arg_def)
    have bin: "op_type st1 = Some BINOP \<Longrightarrow> settled av L (args st) (binop av e st1)"
      using binop_settled [OF assms(1), of st1] lt by (auto simp: st1_def op_type_def)
    have "settled av L (Suc (args st)) (unary e n s (st1\<lparr>args := Suc (args st1)\<rparr>))"
      using unary_settled [of "st1\<lparr>args := Suc (args st1)\<rparr>" L av e n s] lt len by (simp add: st1_def)
    then have un: "settled av L (args st) (unary e n s (st1\<lparr>args := Suc (args st1)\<rparr>))"
      by (rule settled_mono) simp
    show ?thesis
      using a1 a2 Some emp bin un by (simp add: primary_leaf_def check_operator_eq Let_def st1_def)
  qed
qed

lemma vec_bound:
  assumes "vec_ok av L" "i < length av" "token_of (av ! i) \<noteq> EOI"
  shows "i < L" "i + 1 < length av"
  using vec_None [OF assms(1,2)] assms(1,3) by (auto simp: vec_ok_def)

lemma settled_check_next:
  assumes "vec_ok av L" "args st + 1 < length av"
    and "\<And>t st'. args st' = args st + 1 \<Longrightarrow> scanned av t st' \<Longrightarrow>
      t = EOI \<or> args st' < L \<and> args st' + 1 < length av \<Longrightarrow> settled av L p (f (t, st'))"
  shows "settled av L p (and_then (check_next av st) f)"
proof -
  let ?st = "st\<lparr>args := args st + 1, last_operator := operator_of (av ! (args st + 1))\<rparr>"
  have "settled av L p (f (token_of (av ! (args st + 1)), ?st))"
    using assms(2) vec_bound [OF assms(1,2)] by (intro assms(3)) (auto simp: scanned_def)
  then show ?thesis using assms(2) by (simp add: check_next_def next_arg_def arg_def check_operator_eq)
qed

lemma parser_settled:
  assumes "vec_ok av L"
  shows "scanned av n st \<Longrightarrow> args st \<le> L \<Longrightarrow> p \<le> args st \<Longrightarrow>
      (4 * (L - args st) + 1 \<le> k \<longrightarrow> settled av L p (primary k av e n st))
    \<and> (4 * (L - args st) + 2 \<le> k \<longrightarrow> settled av L p (nexpr k av e n st))
    \<and> (4 * (L - args st) + 3 \<le> k \<longrightarrow> settled av L p (aexpr k av e n st))
    \<and> (4 * (L - args st) + 4 \<le> k \<longrightarrow> settled av L p (oexpr k av e n st))"
proof (induction k arbitrary: n st p)
  case (Suc k)
  note sc = Suc.prems(1)
  have here: "args st < length av" "n = token_of (av ! args st)" using sc by (simp_all add: scanned_def)
  have lt: "args s < L" "args s + 1 < length av" if "scanned av m s" "m \<noteq> EOI" for m s
    using vec_bound [OF assms, of "args s"] that by (simp_all add: scanned_def)
  note ih = Suc.IH
  have P: "settled av L p (primary (Suc k) av e n st)" if "4 * (L - args st) + 1 \<le> Suc k"
  proof (cases "n = EOI \<or> n \<noteq> LPAREN")
    case True
    then show ?thesis using settled_mono [OF primary_leaf_settled [OF assms sc] Suc.prems(3)] lt [OF sc] by auto
  next
    case False
    then have l: "args st < L" "args st + 1 < length av" using lt [OF sc] by simp_all
    have "settled av L p (oexpr k av e m s)" if "args s = args st + 1" "scanned av m s" for m s
      using ih [OF that(2), of p] that(1) l(1) \<open>4 * (L - args st) + 1 \<le> Suc k\<close> Suc.prems(3) by simp
    then show ?thesis
      using False l(2) Suc.prems(3)
      by (auto intro!: settled_check_next [OF assms] settled_bind [where q = p])
  qed
  have N: "settled av L p (nexpr (Suc k) av e n st)" if "4 * (L - args st) + 2 \<le> Suc k"
  proof (cases "n = UNOT")
    case True
    then have l: "args st < L" "args st + 1 < length av" using lt [OF sc] by simp_all
    have fin: "Suc (Suc (args st)) < length av"
      using True here(2) l(1) assms by (cases "args st + 1 = L") (auto simp: token_of_special vec_ok_def)
    have "settled av L p (nexpr k av e m s)" if "args s = args st + 1" "scanned av m s" for m s
      using ih [OF that(2), of p] that(1) l(1) \<open>4 * (L - args st) + 2 \<le> Suc k\<close> Suc.prems(3) by simp
    then show ?thesis
      using True l fin Suc.prems(3)
      by (auto intro!: settled_check_next [OF assms] settled_bind [where q = p])
  next
    case False
    then show ?thesis using ih [OF Suc.prems] that by simp
  qed
  have A: "settled av L p (aexpr (Suc k) av e n st)" if "4 * (L - args st) + 3 \<le> Suc k"
  proof -
    have "settled av L (args st) (nexpr k av e n st)" using ih [OF sc Suc.prems(2), of "args st"] that by simp
    moreover have "settled av L p (aexpr k av e m s)" if "args st < args s" "args s \<le> L" "scanned av m s" for m s
      using ih [OF that(3), of p] that(1,2) \<open>4 * (L - args st) + 3 \<le> Suc k\<close> Suc.prems(3) by simp
    ultimately show ?thesis
      using Suc.prems(3) by (auto intro!: settled_check_next [OF assms] settled_bind [where q = p] elim!: settled_bind)
  qed
  have O: "settled av L p (oexpr (Suc k) av e n st)" if "4 * (L - args st) + 4 \<le> Suc k"
  proof -
    have "settled av L (args st) (aexpr k av e n st)" using ih [OF sc Suc.prems(2), of "args st"] that by simp
    moreover have "settled av L p (oexpr k av e m s)" if "args st < args s" "args s \<le> L" "scanned av m s" for m s
      using ih [OF that(3), of p] that(1,2) \<open>4 * (L - args st) + 4 \<le> Suc k\<close> Suc.prems(3) by simp
    ultimately show ?thesis
      using Suc.prems(3) by (auto intro!: settled_check_next [OF assms] settled_bind [where q = p] elim!: settled_bind)
  qed
  show ?case using P N A O by blast
qed simp

lemma test_run_settled:
  assumes "vec_ok av L" "1 \<le> L"
  shows "\<exists>n \<le> 2. test_run e av = Inr n"
proof (cases "av ! 1")
  case None
  then show ?thesis using assms by (auto simp: test_run_def arg_def vec_ok_def)
next
  case (Some s)
  define st where "st = \<lparr>args = 1, last_operator = operator_of (av ! 1), group_array = [], ngroups = 0\<rparr>"
  have len: "1 < length av" using assms by (simp add: vec_ok_def)
  have "settled av L 1 (oexpr (4 * length av + 4) av e (token_of (av ! 1)) st)"
    using parser_settled [OF assms(1), of "token_of (av ! 1)" st 1 "4 * length av + 4" e] assms len
    by (auto simp: st_def scanned_def vec_ok_def)
  then show ?thesis
    using Some len by (auto simp: test_run_def arg_def check_operator_eq settled_def and_then_def st_def split: sum.splits)
qed

lemma vec_ok_words:
  assumes "z \<noteq> [] \<or> ws = [] \<or> last ws \<noteq> ''!''" "list_all (\<lambda>x. x = None) z" "c \<noteq> ''!''"
  shows "vec_ok (Some c # map Some ws @ None # z) (Suc (length ws))"
proof -
  let ?av = "Some c # map Some ws @ None # z"
  have "?av ! i = None \<longleftrightarrow> Suc (length ws) \<le> i" if "i < length ?av" for i
    using that assms(2) by (cases i) (auto simp: nth_append nth_Cons' list_all_length)
  moreover have "?av ! length ws = Some (if ws = [] then c else last ws)"
    by (cases ws rule: rev_cases) (auto simp: nth_append)
  ultimately show ?thesis
    using assms(1,3) by (cases "ws = []") (auto simp: vec_ok_def)
qed

text \<open>
  C34. Whatever its arguments are, \<open>[\<close> gives one of the three exit statuses after finitely many
  steps and never reads behind its argument vector; \<open>test\<close> does so too unless its last argument is
  an exclamation mark: then it reads behind the vector, as a lone exclamation mark shows.
\<close>

theorem test_total:
  "(\<exists>n \<le> 2. test_main e (''['' # ws) = Inr n)
   \<and> ((\<exists>n \<le> 2. test_main e (''test'' # ws) = Inr n) \<or> (\<exists>us. ws = us @ [''!'']))
   \<and> test_main e [''test'', ''!''] = Inl BadAccess"
proof (intro conjI)
  show "\<exists>n \<le> 2. test_main e (''['' # ws) = Inr n"
  proof (cases "\<exists>us. ws = us @ ['']'']")
    case True
    then obtain us where us: "ws = us @ ['']'']" by blast
    have "(map Some (''['' # ws) @ [None])[length ws := None] = Some ''['' # map Some us @ None # [None]"
      by (simp add: us list_update_append)
    then have "test_main e (''['' # ws) = test_run e (Some ''['' # map Some us @ None # [None])"
      using us by (simp add: test_main_def bb_basename_def Let_def nth_append)
    then show ?thesis using test_run_settled [OF vec_ok_words [of "[None]" us "''[''"]] by simp
  next
    case False
    then have "(''['' # ws) ! length ws \<noteq> '']''" by (cases ws rule: rev_cases) (auto simp: nth_append)
    then show ?thesis by (auto simp: test_main_def bb_basename_def Let_def)
  qed
  have "test_main e (''test'' # ws) = test_run e (Some ''test'' # map Some ws @ None # [])"
    by (simp add: test_main_def bb_basename_def Let_def)
  then show "(\<exists>n \<le> 2. test_main e (''test'' # ws) = Inr n) \<or> (\<exists>us. ws = us @ [''!''])"
    using test_run_settled [OF vec_ok_words [of "[]" ws "''test''"]] by (cases ws rule: rev_cases) auto
  show "test_main e [''test'', ''!''] = Inl BadAccess"
    by (simp add: test_main_def bb_basename_def test_run_def arg_def check_operator_eq token_of_special
        check_next_def next_arg_def numeral_eq_Suc)
qed

section \<open>The grammar\<close>

text \<open>
  The documented grammar as trees: \<open>primary\<close>, \<open>nexpr\<close>, \<open>aexpr\<close> and \<open>oexpr\<close>, their arguments and
  their values. All operands are evaluated, so an invalid number anywhere is an error.
\<close>

datatype prim_x = Word string | UnaryX string string | BinaryX string string string | Parens or_x
  and not_x = Prim prim_x | Not not_x
  and and_x = LastA not_x | And not_x and_x
  and or_x = LastO and_x | Or and_x or_x

primrec prim_words :: "prim_x \<Rightarrow> string list"
  and not_words :: "not_x \<Rightarrow> string list"
  and and_words :: "and_x \<Rightarrow> string list"
  and or_words :: "or_x \<Rightarrow> string list" where
  "prim_words (Word w) = [w]"
| "prim_words (UnaryX t s) = [t, s]"
| "prim_words (BinaryX a t b) = [a, t, b]"
| "prim_words (Parens x) = ''('' # or_words x @ ['')'']"
| "not_words (Prim x) = prim_words x"
| "not_words (Not x) = ''!'' # not_words x"
| "and_words (LastA x) = not_words x"
| "and_words (And x y) = not_words x @ ''-a'' # and_words y"
| "or_words (LastO x) = and_words x"
| "or_words (Or x y) = and_words x @ ''-o'' # or_words y"

definition optype_of :: "string \<Rightarrow> optype option" where
  "optype_of s = map_option snd (operator_of (Some s))"

text \<open>When operands cannot be taken for operators.\<close>

primrec prim_ok :: "prim_x \<Rightarrow> bool"
  and not_ok :: "not_x \<Rightarrow> bool"
  and and_ok :: "and_x \<Rightarrow> bool"
  and or_ok :: "or_x \<Rightarrow> bool" where
  "prim_ok (Word w) = (optype_of w = None)"
| "prim_ok (UnaryX t s) = (optype_of t = Some UNOP \<and> optype_of s \<noteq> Some BINOP)"
| "prim_ok (BinaryX a t b) = (optype_of t = Some BINOP \<and> a \<noteq> ''!'' \<and> a \<noteq> ''('')"
| "prim_ok (Parens x) = or_ok x"
| "not_ok (Prim x) = prim_ok x"
| "not_ok (Not x) = not_ok x"
| "and_ok (LastA x) = not_ok x"
| "and_ok (And x y) = (not_ok x \<and> and_ok y)"
| "or_ok (LastO x) = and_ok x"
| "or_ok (Or x y) = (and_ok x \<and> or_ok y)"

definition fresh :: test_statics where
  "fresh = \<lparr>args = 0, last_operator = None, group_array = [], ngroups = 0\<rparr>"

primrec prim_value :: "test_env \<Rightarrow> prim_x \<Rightarrow> test_error + bool"
  and not_value :: "test_env \<Rightarrow> not_x \<Rightarrow> test_error + bool"
  and and_value :: "test_env \<Rightarrow> and_x \<Rightarrow> test_error + bool"
  and or_value :: "test_env \<Rightarrow> or_x \<Rightarrow> test_error + bool" where
  "prim_value e (Word w) = Inr (w \<noteq> [])"
| "prim_value e (UnaryX t s) = and_then (unary e (token_of (Some t)) s fresh) (\<lambda>r. Inr (fst r))"
| "prim_value e (BinaryX a t b) = binop_value e (token_of (Some t)) a b"
| "prim_value e (Parens x) = or_value e x"
| "not_value e (Prim x) = prim_value e x"
| "not_value e (Not x) = and_then (not_value e x) (\<lambda>b. Inr (\<not> b))"
| "and_value e (LastA x) = not_value e x"
| "and_value e (And x y) = and_then (not_value e x) (\<lambda>a. and_then (and_value e y) (\<lambda>b. Inr (a \<and> b)))"
| "or_value e (LastO x) = and_value e x"
| "or_value e (Or x y) = and_then (and_value e x) (\<lambda>a. and_then (or_value e y) (\<lambda>b. Inr (a \<or> b)))"

text \<open>The cached list of groups never changes an answer.\<close>

definition members :: "test_env \<Rightarrow> nat set" where
  "members e = (if length (supplementary e) \<le> 32 then set (supplementary e) else {})"

definition cache_ok :: "test_env \<Rightarrow> test_statics \<Rightarrow> bool" where
  "cache_ok e st \<longleftrightarrow> ngroups st = 0 \<or> set (take (nat (ngroups st)) (group_array st)) = members e"

lemma initialize_members:
  "set (take (nat (ngroups (initialize_group_array e 32 st))) (group_array (initialize_group_array e 32 st))) = members e"
  by (subst (1 2) initialize_group_array.simps) (auto simp: getgroups_def members_def Let_def)

lemma is_a_group_member_cached:
  assumes "cache_ok e st" "is_a_group_member e g st = (b, st')"
  shows "b \<longleftrightarrow> g = getgid e \<or> g = getegid e \<or> g \<in> members e" "cache_ok e st'"
  using assms initialize_members [of e st]
  by (auto simp: is_a_group_member_def cache_ok_def Let_def split: if_splits)

lemma test_eaccess_cached:
  assumes "cache_ok e st" "cache_ok e st0"
  shows "fst (test_eaccess e s m st) = fst (test_eaccess e s m st0) \<and> cache_ok e (snd (test_eaccess e s m st))"
proof (cases "do_stat e s")
  case (Some b)
  obtain m1 s1 where 1: "is_a_group_member e (st_gid b) st = (m1, s1)" by fastforce
  obtain m2 s2 where 2: "is_a_group_member e (st_gid b) st0 = (m2, s2)" by fastforce
  show ?thesis
    using Some 1 2 assms is_a_group_member_cached [OF assms(1) 1] is_a_group_member_cached [OF assms(2) 2]
    by (simp add: test_eaccess_def Let_def)
qed (simp add: test_eaccess_def assms)

lemma filstat_cached:
  "cache_ok e st \<Longrightarrow> cache_ok e st0 \<Longrightarrow>
   fst (filstat e s n st) = fst (filstat e s n st0) \<and> cache_ok e (snd (filstat e s n st))"
  using test_eaccess_cached [of e st st0 s] by (simp add: filstat_def split: option.split)

lemma cache_fresh [simp]: "cache_ok e fresh"
  by (simp add: cache_ok_def fresh_def)

lemma cache_ok_update [simp]:
  "cache_ok e (st\<lparr>args := a\<rparr>) = cache_ok e st" "cache_ok e (st\<lparr>last_operator := l\<rparr>) = cache_ok e st"
  by (simp_all add: cache_ok_def)

section \<open>The parser follows the grammar\<close>

text \<open>The call has read all but \<open>vs\<close> and stands at the argument before it.\<close>

definition yields :: "test_env \<Rightarrow> string option list \<Rightarrow> string option list \<Rightarrow> test_error + bool \<Rightarrow> test_error + (bool \<times> test_statics) \<Rightarrow> bool" where
  "yields e av vs v r \<longleftrightarrow> (case v of
      Inl err \<Rightarrow> r = Inl err
    | Inr b \<Rightarrow> \<exists>st x. r = Inr (b, st) \<and> drop (args st) av = x # vs \<and> cache_ok e st)"

lemma yields_bind:
  assumes "yields e av us v r"
    and "\<And>b st x. drop (args st) av = x # us \<Longrightarrow> cache_ok e st \<Longrightarrow> yields e av vs (g b) (f (b, st))"
  shows "yields e av vs (and_then v g) (and_then r f)"
proof (cases v)
  case (Inl err)
  then show ?thesis using assms(1) by (simp add: yields_def)
next
  case (Inr b)
  then obtain st x where "r = Inr (b, st)" "drop (args st) av = x # us" "cache_ok e st"
    using assms(1) by (auto simp: yields_def)
  then show ?thesis using assms(2) Inr by simp
qed

lemma yields_Inr [simp]:
  "yields e av vs (Inr b) (Inr (b', st)) \<longleftrightarrow> b = b' \<and> (\<exists>x. drop (args st) av = x # vs) \<and> cache_ok e st"
  by (auto simp: yields_def)

lemma arg_drop:
  assumes "drop i av = xs" "j < length xs"
  shows "arg av (i + j) = Inr (xs ! j)"
  using assms by (auto simp: arg_def)

definition placed :: "test_env \<Rightarrow> string option list \<Rightarrow> test_statics \<Rightarrow> token \<Rightarrow> string option list \<Rightarrow> bool" where
  "placed e av st n xs \<longleftrightarrow> drop (args st) av = xs \<and> n = token_of (hd xs) \<and> last_operator st = operator_of (hd xs) \<and> cache_ok e st"

lemma yields_next:
  assumes "drop (args st) av = x # y # r" "cache_ok e st"
    and "\<And>st'. placed e av st' (token_of y) (y # r) \<Longrightarrow> args st' = Suc (args st) \<Longrightarrow> yields e av vs v (f (token_of y, st'))"
  shows "yields e av vs v (and_then (check_next av st) f)"
proof -
  have "arg av (Suc (args st)) = Inr y" using arg_drop [OF assms(1), of 1] by simp
  moreover have "drop (Suc (args st)) av = y # r" using assms(1) by (simp add: drop_Suc drop_tl)
  ultimately show ?thesis
    using assms(2) assms(3) [of "st\<lparr>args := Suc (args st), last_operator := operator_of y\<rparr>"]
    by (simp add: check_next_def next_arg_def check_operator_eq placed_def)
qed

text \<open>What may follow an operand.\<close>

definition follows :: "string option list \<Rightarrow> bool" where
  "follows vs \<longleftrightarrow> vs \<noteq> [] \<and> last vs = None \<and> map_option snd (operator_of (hd vs)) \<noteq> Some BINOP"

lemma follows_words:
  "follows [None]" "follows (Some ''-a'' # vs) = (vs \<noteq> [] \<and> last vs = None)"
  "follows (Some ''-o'' # vs) = (vs \<noteq> [] \<and> last vs = None)"  "follows (Some '')'' # vs) = (vs \<noteq> [] \<and> last vs = None)"
  by (auto simp: follows_def operator_of_def ops_texts_def ops_table_def)

lemma placed_arg:
  assumes "placed e av st n xs" "j < length xs"
  shows "arg av (args st + j) = Inr (xs ! j)"
  using arg_drop assms by (simp add: placed_def)

lemma follows_second: "follows vs \<Longrightarrow> hd vs \<noteq> None \<Longrightarrow> \<exists>y v vs'. vs = Some y # v # vs'"
  by (cases vs; cases "tl vs") (auto simp: follows_def)

lemma leaf_word:
  assumes "prim_ok (Word w)" "placed e av st n (Some w # vs)" "follows vs"
  shows "yields e av vs (prim_value e (Word w)) (primary_leaf av e n st)"
proof -
  have no: "operator_of (Some w) = None" using assms(1) by (simp add: optype_of_def)
  have a: "arg av (args st) = Inr (Some w)" "arg av (Suc (args st)) = Inr (hd vs)"
    using placed_arg [OF assms(2), of 0] placed_arg [OF assms(2), of 1] assms(3) by (simp_all add: follows_def hd_conv_nth)
  have b: "hd vs \<noteq> None \<Longrightarrow> \<exists>x. arg av (Suc (Suc (args st))) = Inr x"
    using placed_arg [OF assms(2), of 2] follows_second [OF assms(3)] by auto
  show ?thesis
    using a b assms(2,3) no
    by (cases "hd vs = None")
      (auto simp: primary_leaf_def check_operator_eq check_emptiness_def op_type_def placed_def follows_def)
qed

lemma leaf_unary:
  assumes "prim_ok (UnaryX t s)" "placed e av st n (Some t # Some s # vs)" "follows vs"
  shows "yields e av vs (prim_value e (UnaryX t s)) (primary_leaf av e n st)"
proof -
  let ?st = "st\<lparr>last_operator := operator_of (Some s), args := Suc (args st)\<rparr>"
  have a: "arg av (Suc (args st)) = Inr (Some s)" "arg av (Suc (Suc (args st))) = Inr (hd vs)"
    using placed_arg [OF assms(2), of 1] placed_arg [OF assms(2), of 2] assms(3)
    by (simp_all add: follows_def hd_conv_nth)
  have "n = token_of (Some t)" "op_type st = Some UNOP" "map_option snd (operator_of (Some s)) \<noteq> Some BINOP"
    using assms(1,2) by (auto simp: placed_def op_type_def optype_of_def)
  then have e: "primary_leaf av e n st = unary e (token_of (Some t)) s ?st"
    using a by (simp add: primary_leaf_def check_operator_eq op_type_def)
  have d: "drop (args ?st) av = Some s # vs" "cache_ok e ?st"
    using assms(2) by (auto simp: placed_def drop_Suc drop_tl)
  obtain b st' where f: "filstat e s (token_of (Some t)) ?st = (b, st')" by fastforce
  have "args st' = args ?st" "cache_ok e st'" "b = fst (filstat e s (token_of (Some t)) fresh)"
    using f filstat_args [of e s "token_of (Some t)" ?st] filstat_cached [OF d(2) cache_fresh, of s "token_of (Some t)"]
    by auto
  then show ?thesis
    unfolding e using d f by (auto simp: unary_def and_then_def yields_def split: sum.splits)
qed

lemma leaf_binary:
  assumes "prim_ok (BinaryX a t b)" "placed e av st n (Some a # Some t # Some b # vs)"
  shows "yields e av vs (prim_value e (BinaryX a t b)) (primary_leaf av e n st)"
proof -
  obtain opn where o: "operator_of (Some t) = Some (opn, BINOP)" "token_of (Some t) = opn"
    using assms(1) by (auto simp: optype_of_def token_of_def)
  let ?st = "st\<lparr>last_operator := operator_of (Some t)\<rparr>"
  have x: "arg av (args st) = Inr (Some a)" "arg av (Suc (args st)) = Inr (Some t)" "arg av (Suc (Suc (args st))) = Inr (Some b)"
    using placed_arg [OF assms(2), of 0] placed_arg [OF assms(2), of 1] placed_arg [OF assms(2), of 2] by simp_all
  have "token_of (Some t) \<noteq> EOI" by simp
  then have "primary_leaf av e n st = binop av e ?st"
    using x o by (simp add: primary_leaf_def check_operator_eq op_type_def)
  moreover have "drop (Suc (Suc (args st))) av = Some b # vs" "cache_ok e st"
    using assms(2) by (auto simp: placed_def drop_Suc drop_tl)
  ultimately show ?thesis
    using x o by (auto simp: binop_def check_next_def next_arg_def check_operator_eq yields_def and_then_def split: sum.splits)
qed

lemma words_Cons:
  "\<exists>w ws. prim_words p = w # ws" "\<exists>w ws. not_words q = w # ws" "\<exists>w ws. and_words a = w # ws" "\<exists>w ws. or_words o' = w # ws"
  by (induction p and q and a and o') auto

lemma unop_token: "optype_of t = Some UNOP \<Longrightarrow> token_of (Some t) \<noteq> LPAREN \<and> token_of (Some t) \<noteq> UNOT"
  unfolding token_of_special by (auto simp: optype_of_def operator_of_def ops_texts_def ops_table_def)

lemma prim_first:
  assumes "prim_ok p" "prim_words p = w # ws"
  shows "w \<noteq> ''!'' \<and> (w = ''('' \<longrightarrow> (\<exists>x. p = Parens x))"
proof -
  have "optype_of ''!'' = Some BUNOP" "optype_of ''('' = Some PAREN"
    by (simp_all add: optype_of_def operator_of_def ops_texts_def ops_table_def)
  then show ?thesis using assms by (cases p) auto
qed

definition fits :: "test_env \<Rightarrow> (nat \<Rightarrow> string option list \<Rightarrow> test_env \<Rightarrow> token \<Rightarrow> test_statics \<Rightarrow> test_error + (bool \<times> test_statics))
    \<Rightarrow> token set \<Rightarrow> nat \<Rightarrow> string list \<Rightarrow> test_error + bool \<Rightarrow> bool" where
  "fits e f no r ws v \<longleftrightarrow> (\<forall>k av st n vs. placed e av st n (map Some ws @ vs) \<and> follows vs \<and> token_of (hd vs) \<notin> no
      \<and> 4 * length ws + r \<le> k \<longrightarrow> yields e av vs v (f k av e n st))"

lemma fitsD:
  "fits e f no r ws v \<Longrightarrow> placed e av st n (map Some ws @ vs) \<Longrightarrow> follows vs \<Longrightarrow> token_of (hd vs) \<notin> no
    \<Longrightarrow> 4 * length ws + r \<le> k \<Longrightarrow> yields e av vs v (f k av e n st)"
  by (simp add: fits_def)

lemma placed_drop: "placed e av st n xs \<Longrightarrow> drop (args st) av = xs \<and> cache_ok e st \<and> n = token_of (hd xs)"
  by (simp add: placed_def)

lemma fits_leaf:
  assumes "prim_ok p" "\<And>x. p \<noteq> Parens x"
  shows "fits e primary {} 0 (prim_words p) (prim_value e p)"
  unfolding fits_def
proof (intro allI impI, elim conjE)
  fix k av st n vs
  assume pl: "placed e av st n (map Some (prim_words p) @ vs)" and fo: "follows vs" and k: "4 * length (prim_words p) + 0 \<le> k"
  obtain w ws where w: "prim_words p = w # ws" using words_Cons by blast
  then obtain j where j: "k = Suc j" using k by (cases k) auto
  have "n \<noteq> EOI" "n \<noteq> LPAREN"
    using prim_first [OF assms(1) w] assms(2) placed_drop [OF pl] w by (auto simp: token_of_special)
  then have "primary k av e n st = primary_leaf av e n st" by (simp add: j)
  moreover have "yields e av vs (prim_value e p) (primary_leaf av e n st)"
  proof (cases p)
    case (Word w)
    then show ?thesis using leaf_word [of w] assms(1) pl fo by simp
  next
    case (UnaryX t s)
    then show ?thesis using leaf_unary [of t s] assms(1) pl fo by simp
  next
    case (BinaryX a t b)
    then show ?thesis using leaf_binary [of a t b] assms(1) pl fo by simp
  qed (use assms(2) in blast)
  ultimately show "yields e av vs (prim_value e p) (primary k av e n st)" by simp
qed

lemma fits_parens:
  assumes "fits e oexpr {BAND, BOR} 3 (or_words x) (or_value e x)"
  shows "fits e primary {} 0 (prim_words (Parens x)) (prim_value e (Parens x))"
  unfolding fits_def
proof (intro allI impI, elim conjE)
  fix k av st n vs
  assume pl: "placed e av st n (map Some (prim_words (Parens x)) @ vs)" and fo: "follows vs"
    and k: "4 * length (prim_words (Parens x)) + 0 \<le> k"
  obtain j where j: "k = Suc j" using k by (cases k) auto
  obtain w ws where w: "or_words x = w # ws" using words_Cons by blast
  have n: "n = LPAREN" using placed_drop [OF pl] token_of_special(4) by simp
  have d: "drop (args st) av = Some ''('' # Some w # map Some ws @ Some '')'' # vs" "cache_ok e st"
    using placed_drop [OF pl] w by simp_all
  have fo2: "follows (Some '')'' # vs)" using fo by (simp add: follows_words) (simp add: follows_def)
  have rp: "token_of (Some '')'') = RPAREN" using token_of_special(5) by simp
  have inner: "yields e av (Some '')'' # vs) (or_value e x) (oexpr j av e m st')"
    if "placed e av st' m (Some w # map Some ws @ Some '')'' # vs)" for st' m
    using fitsD [OF assms, of av st' m "Some '')'' # vs" j] that fo2 w k j rp by simp
  let ?close = "\<lambda>(res, st2). and_then (check_next av st2) (\<lambda>(t, st3). if t \<noteq> RPAREN then Inl Syntax else Inr (res, st3))"
  have close: "yields e av vs (Inr b) (?close (b, st2))" if "drop (args st2) av = y # Some '')'' # vs" "cache_ok e st2" for b st2 y
    unfolding prod.case by (rule yields_next [OF that]) (auto simp: rp placed_def)
  have inside: "yields e av vs (and_then (or_value e x) Inr) (and_then (oexpr j av e m st') ?close)"
    if "placed e av st' m (Some w # map Some ws @ Some '')'' # vs)" for st' m
    by (rule yields_bind [OF inner [OF that]]) (rule close)
  have "yields e av vs (and_then (or_value e x) Inr) (and_then (check_next av st) (\<lambda>(n1, st1). and_then (oexpr j av e n1 st1) ?close))"
    by (rule yields_next [OF d]) (simp add: inside)
  then show "yields e av vs (prim_value e (Parens x)) (primary k av e n st)"
    by (cases "or_value e x") (simp_all add: j n)
qed

text \<open>The shape \<open>aexpr\<close> and \<open>oexpr\<close> share: an operand, and perhaps an operator and the rest.\<close>

definition chain :: "string option list \<Rightarrow> token \<Rightarrow> (bool \<Rightarrow> bool \<Rightarrow> bool) \<Rightarrow> test_error + (bool \<times> test_statics)
    \<Rightarrow> (token \<Rightarrow> test_statics \<Rightarrow> test_error + (bool \<times> test_statics)) \<Rightarrow> test_error + (bool \<times> test_statics)" where
  "chain av opn comb first rest = and_then first (\<lambda>(res, st1). and_then (check_next av st1) (\<lambda>(t, st2).
       if t = opn then and_then (check_next av st2) (\<lambda>(n1, st3). and_then (rest n1 st3) (\<lambda>(res2, st4). Inr (comb res2 res, st4)))
       else Inr (res, st2\<lparr>args := args st2 - 1\<rparr>)))"

lemma aexpr_chain: "aexpr (Suc k) av e n st = chain av BAND (\<and>) (nexpr k av e n st) (aexpr k av e)"
  by (simp add: chain_def)

lemma oexpr_chain: "oexpr (Suc k) av e n st = chain av BOR (\<or>) (aexpr k av e n st) (oexpr k av e)"
  by (simp add: chain_def)

lemma chain_last:
  assumes "yields e av vs v first" "vs \<noteq> []" "token_of (hd vs) \<noteq> opn"
  shows "yields e av vs v (chain av opn comb first rest)"
proof -
  obtain y zs where y: "vs = y # zs" "token_of y \<noteq> opn" using assms(2,3) by (cases vs) auto
  let ?cont = "\<lambda>(res, st1). and_then (check_next av st1) (\<lambda>(t, st2).
       if t = opn then and_then (check_next av st2) (\<lambda>(n1, st3). and_then (rest n1 st3) (\<lambda>(res2, st4). Inr (comb res2 res, st4)))
       else Inr (res, st2\<lparr>args := args st2 - 1\<rparr>))"
  have "yields e av vs (Inr b) (?cont (b, st1))" if d: "drop (args st1) av = x # vs" "cache_ok e st1" for b st1 x
  proof -
    have "drop (args st1) av = x # y # zs" using d y by simp
    then show ?thesis unfolding prod.case by (rule yields_next [OF _ d(2)]) (use d y in \<open>auto simp: placed_def\<close>)
  qed
  then have "yields e av vs (and_then v Inr) (and_then first ?cont)" by (rule yields_bind [OF assms(1)])
  then show ?thesis by (cases v) (simp_all add: chain_def)
qed

lemma chain_more:
  assumes "yields e av (Some t # Some w # us) v1 first" "token_of (Some t) = opn"
    and "\<And>st n. placed e av st n (Some w # us) \<Longrightarrow> yields e av vs v2 (rest n st)"
  shows "yields e av vs (and_then v1 (\<lambda>a. and_then v2 (\<lambda>b. Inr (comb b a)))) (chain av opn comb first rest)"
proof -
  let ?more = "\<lambda>res (n1, st3). and_then (rest n1 st3) (\<lambda>(res2, st4). Inr (comb res2 res, st4))"
  have more: "yields e av vs (and_then v2 (\<lambda>b. Inr (comb b a))) (?more a (n1, st3))"
    if "placed e av st3 n1 (Some w # us)" for a n1 st3
    unfolding prod.case by (rule yields_bind [OF assms(3) [OF that]]) auto
  have nxt: "yields e av vs (and_then v2 (\<lambda>b. Inr (comb b a))) (and_then (check_next av st2) (?more a))"
    if "placed e av st2 opn (Some t # Some w # us)" for a st2
    by (rule yields_next) (use that placed_drop more in blast)+
  have "yields e av vs (and_then v2 (\<lambda>b. Inr (comb b a))) (and_then (check_next av st1) (\<lambda>(t, st2).
       if t = opn then and_then (check_next av st2) (?more a) else Inr (a, st2\<lparr>args := args st2 - 1\<rparr>)))"
    if "drop (args st1) av = x # Some t # Some w # us" "cache_ok e st1" for a st1 x
    by (rule yields_next [OF that]) (use nxt assms(2) in auto)
  then show ?thesis unfolding chain_def by (intro yields_bind [OF assms(1)]) simp
qed

lemma fits_not:
  assumes "fits e nexpr {} 1 (not_words q) (not_value e q)"
  shows "fits e nexpr {} 1 (not_words (Not q)) (not_value e (Not q))"
  unfolding fits_def
proof (intro allI impI, elim conjE)
  fix k av st n vs
  assume pl: "placed e av st n (map Some (not_words (Not q)) @ vs)" and fo: "follows vs" and k: "4 * length (not_words (Not q)) + 1 \<le> k"
  obtain j where j: "k = Suc j" using k by (cases k) auto
  obtain w ws where w: "not_words q = w # ws" using words_Cons by blast
  have d: "drop (args st) av = Some ''!'' # Some w # map Some ws @ vs" "cache_ok e st" "n = UNOT"
    using placed_drop [OF pl] w token_of_special(1) by simp_all
  have "yields e av vs (and_then (not_value e q) (\<lambda>b. Inr (\<not> b))) (and_then (nexpr j av e m st') (\<lambda>(res, st2). Inr (\<not> res, st2)))"
    if "placed e av st' m (Some w # map Some ws @ vs)" for m st'
    by (rule yields_bind, rule fitsD [OF assms, of av st' m vs j]) (use that fo w k j in auto)
  then have "yields e av vs (and_then (not_value e q) (\<lambda>b. Inr (\<not> b))) (and_then (check_next av st) (\<lambda>(n1, st1).
      if n1 = EOI then Inr (True, st1) else and_then (nexpr j av e n1 st1) (\<lambda>(res, st2). Inr (\<not> res, st2))))"
    by (intro yields_next [OF d(1,2)]) simp
  then show "yields e av vs (not_value e (Not q)) (nexpr k av e n st)" by (simp add: j d(3))
qed

lemma fits_prim:
  assumes "fits e primary {} 0 (prim_words p) (prim_value e p)" "prim_ok p"
  shows "fits e nexpr {} 1 (not_words (Prim p)) (not_value e (Prim p))"
  unfolding fits_def
proof (intro allI impI, elim conjE)
  fix k av st n vs
  assume pl: "placed e av st n (map Some (not_words (Prim p)) @ vs)" and fo: "follows vs" and k: "4 * length (not_words (Prim p)) + 1 \<le> k"
  obtain j where j: "k = Suc j" using k by (cases k) auto
  obtain w ws where w: "prim_words p = w # ws" using words_Cons by blast
  have "n \<noteq> UNOT" using prim_first [OF assms(2) w] placed_drop [OF pl] w by (auto simp: token_of_special)
  then show "yields e av vs (not_value e (Prim p)) (nexpr k av e n st)"
    using fitsD [OF assms(1), of av st n vs j] pl fo k j by simp
qed

lemma fits_last:
  assumes "fits e f no r ws v" "opn \<notin> no"
    and "\<And>k av n st. g (Suc k) av e n st = chain av opn comb (f k av e n st) (g k av e)"
  shows "fits e g (insert opn no) (Suc r) ws v"
  unfolding fits_def
proof (intro allI impI, elim conjE)
  fix k av st n vs
  assume a: "placed e av st n (map Some ws @ vs)" "follows vs" "token_of (hd vs) \<notin> insert opn no" "4 * length ws + Suc r \<le> k"
  then obtain j where j: "k = Suc j" by (cases k) auto
  have "yields e av vs v (f j av e n st)" using fitsD [OF assms(1) a(1,2), of j] a(3,4) j by simp
  then show "yields e av vs v (g k av e n st)"
    unfolding j assms(3) by (rule chain_last) (use a in \<open>auto simp: follows_def\<close>)
qed

lemma fits_more:
  assumes "fits e f no r ws v1" "fits e g (insert opn no) (Suc r) us v2" "us \<noteq> []"
    and "token_of (Some t) = opn" "opn \<notin> no" "map_option snd (operator_of (Some t)) \<noteq> Some BINOP"
    and "\<And>k av n st. g (Suc k) av e n st = chain av opn comb (f k av e n st) (g k av e)"
  shows "fits e g (insert opn no) (Suc r) (ws @ t # us) (and_then v1 (\<lambda>a. and_then v2 (\<lambda>b. Inr (comb b a))))"
  unfolding fits_def
proof (intro allI impI, elim conjE)
  fix k av st n vs
  assume a: "placed e av st n (map Some (ws @ t # us) @ vs)" "follows vs" "token_of (hd vs) \<notin> insert opn no"
    "4 * length (ws @ t # us) + Suc r \<le> k"
  then obtain j where j: "k = Suc j" by (cases k) auto
  obtain w us' where u: "us = w # us'" using assms(3) by (cases us) auto
  have "follows (Some t # map Some us @ vs)" using a(2) assms(6) by (auto simp: follows_def)
  then have first: "yields e av (Some t # Some w # map Some us' @ vs) v1 (f j av e n st)"
    using fitsD [OF assms(1), of av st n "Some t # map Some us @ vs" j] a(1,4) j u assms(4,5) by simp
  show "yields e av vs (and_then v1 (\<lambda>a. and_then v2 (\<lambda>b. Inr (comb b a)))) (g k av e n st)"
    unfolding j assms(7)
    by (rule chain_more [OF first assms(4)], rule fitsD [OF assms(2) _ a(2,3)]) (use a(4) j u in simp_all)
qed

lemma grammar_fits:
  "prim_ok p \<Longrightarrow> fits e primary {} 0 (prim_words p) (prim_value e p)"
  "not_ok q \<Longrightarrow> fits e nexpr {} 1 (not_words q) (not_value e q)"
  "and_ok a \<Longrightarrow> fits e aexpr {BAND} 2 (and_words a) (and_value e a)"
  "or_ok r \<Longrightarrow> fits e oexpr {BOR, BAND} 3 (or_words r) (or_value e r)"
proof (induction p and q and a and r)
  case (Parens x)
  then show ?case using fits_parens by (simp add: insert_commute)
next
  case (LastA x)
  then show ?case using fits_last [where f = nexpr and g = aexpr and opn = BAND and comb = "(\<and>)", OF _ _ aexpr_chain, of e "{}" 1 "not_words x" "not_value e x"] by (simp add: numeral_2_eq_2)
next
  case (And x y)
  have c: "(\<lambda>b. Inr (b \<and> a)) = (\<lambda>b. Inr (a \<and> b))" for a by auto
  have "token_of (Some ''-a'') = BAND" "map_option snd (operator_of (Some ''-a'')) \<noteq> Some BINOP"
    by (simp_all add: token_of_special operator_of_def ops_texts_def ops_table_def)
  then show ?case
    using And words_Cons(3) [of y]
      fits_more [where f = nexpr and g = aexpr and opn = BAND and comb = "(\<and>)", OF _ _ _ _ _ _ aexpr_chain, of e "{}" 1 "not_words x" "not_value e x" "and_words y" "and_value e y" "''-a''"]
    by (auto simp: numeral_2_eq_2 c)
next
  case (LastO x)
  then show ?case using fits_last [where f = aexpr and g = oexpr and opn = BOR and comb = "(\<or>)", OF _ _ oexpr_chain, of e "{BAND}" 2 "and_words x" "and_value e x"] by (simp add: numeral_3_eq_3)
next
  case (Or x y)
  have c: "(\<lambda>b. Inr (b \<or> a)) = (\<lambda>b. Inr (a \<or> b))" for a by auto
  have "token_of (Some ''-o'') = BOR" "map_option snd (operator_of (Some ''-o'')) \<noteq> Some BINOP"
    by (simp_all add: token_of_special operator_of_def ops_texts_def ops_table_def)
  then show ?case
    using Or words_Cons(4) [of y]
      fits_more [where f = aexpr and g = oexpr and opn = BOR and comb = "(\<or>)", OF _ _ _ _ _ _ oexpr_chain, of e "{BAND}" 2 "and_words x" "and_value e x" "or_words y" "or_value e y" "''-o''"]
    by (auto simp: numeral_3_eq_3 c)
next
  case (Not q)
  then show ?case using fits_not by simp
next
  case (Prim p)
  then show ?case using fits_prim by simp
qed (rule fits_leaf; simp)+

text \<open>The exit status of a value.\<close>

definition status :: "test_error + bool \<Rightarrow> nat" where
  "status v = (case v of Inl _ \<Rightarrow> 2 | Inr b \<Rightarrow> if b then 0 else 1)"

lemma value_errors:
  "prim_value e p \<noteq> Inl BadAccess \<and> prim_value e p \<noteq> Inl OutOfFuel"
  "not_value e q \<noteq> Inl BadAccess \<and> not_value e q \<noteq> Inl OutOfFuel"
  "and_value e a \<noteq> Inl BadAccess \<and> and_value e a \<noteq> Inl OutOfFuel"
  "or_value e r \<noteq> Inl BadAccess \<and> or_value e r \<noteq> Inl OutOfFuel"
  by (induction p and q and a and r)
    (auto simp: and_then_Inl unary_def binop_value_def dest: getn_error)

lemma test_run_status:
  assumes "or_ok r" "list_all (\<lambda>x. x = None) z"
  shows "test_run e (c # map Some (or_words r) @ None # z) = Inr (status (or_value e r))"
proof -
  define av where "av = c # map Some (or_words r) @ None # z"
  obtain w ws where w: "or_words r = w # ws" using words_Cons by blast
  define st where "st = \<lparr>args = 1, last_operator = operator_of (Some w), group_array = [], ngroups = 0\<rparr>"
  have "follows (None # z)" using assms(2) by (auto simp: follows_def list_all_iff)
  moreover have "placed e av st (token_of (Some w)) (map Some (or_words r) @ None # z)"
    by (simp add: placed_def av_def st_def w cache_ok_def)
  ultimately have y: "yields e av (None # z) (or_value e r) (oexpr (4 * length av + 4) av e (token_of (Some w)) st)"
    using fitsD [OF grammar_fits(4) [OF assms(1)], of e av st "token_of (Some w)" "None # z" "4 * length av + 4"]
    by (simp add: av_def token_of_def)
  have "arg av 1 = Inr (Some w)" by (simp add: arg_def av_def w)
  moreover have "arg av (args s + 1) = Inr None" "arg av (args s) = Inr x" if "drop (args s) av = x # None # z" for s x
    using arg_drop [OF that, of 1] arg_drop [OF that, of 0] by simp_all
  ultimately have "test_run e av = Inr (status (or_value e r))"
  proof (cases "or_value e r")
    case (Inl err)
    then show ?thesis
      using y value_errors(4) [of e r] \<open>arg av 1 = Inr (Some w)\<close>
      by (cases err) (simp_all add: test_run_def check_operator_eq st_def yields_def status_def)
  next
    case (Inr b)
    then obtain s x where "oexpr (4 * length av + 4) av e (token_of (Some w)) st = Inr (b, s)" "drop (args s) av = x # None # z"
      using y by (auto simp: yields_def)
    then show ?thesis
      using Inr \<open>arg av 1 = Inr (Some w)\<close> arg_drop [of "args s" av _ 1] arg_drop [of "args s" av _ 0]
      by (cases x) (simp_all add: test_run_def check_operator_eq st_def status_def)
  qed
  then show ?thesis by (simp add: av_def)
qed

lemma test_main_status:
  assumes "or_ok r"
  shows "test_main e (''test'' # or_words r) = Inr (status (or_value e r))"
    and "test_main e (''['' # or_words r @ ['']'']) = Inr (status (or_value e r))"
proof -
  show "test_main e (''test'' # or_words r) = Inr (status (or_value e r))"
    using test_run_status [OF assms, of "[]" e] by (simp add: test_main_def bb_basename_def Let_def)
  have "(map Some (''['' # or_words r @ ['']'']) @ [None])[Suc (length (or_words r)) := None]
      = Some ''['' # map Some (or_words r) @ None # [None]"
    by (simp add: list_update_append)
  then show "test_main e (''['' # or_words r @ ['']'']) = Inr (status (or_value e r))"
    using test_run_status [OF assms, of "[None]" e] by (simp add: test_main_def bb_basename_def Let_def nth_append)
qed

text \<open>
  C33. \<open>test\<close> and \<open>[\<close> give every expression of the documented grammar the value of its tree: zero
  for true, one for false and two when some number in it is not one, however deeply it is nested
  and whatever files, groups and terminals there are. Operands may be any texts that cannot be
  taken for operators; the first operand of a binary operator may even be an operator.
\<close>

theorem test_follows_grammar:
  assumes "or_ok r"
  shows "test_main e (''test'' # or_words r) = Inr (status (or_value e r))
    \<and> test_main e (''['' # or_words r @ ['']'']) = Inr (status (or_value e r))"
  using test_main_status [OF assms] by simp

text \<open>Reading the numbers the shell writes.\<close>

lemma skip_whitespace_Nil [simp]: "skip_whitespace [] = []"
  by (simp add: skip_whitespace_def)

lemma isdigit_not_space: "isdigit c \<Longrightarrow> \<not> isspace c \<and> c \<noteq> CHR ''-'' \<and> c \<noteq> CHR ''+''"
  by (auto simp: isdigit_def isspace_def Let_def)

lemma getn_digits:
  assumes "list_all isdigit ds" "ds \<noteq> []" "digits_value 10 ds < 2 ^ 63"
  shows "getn ds = Inr (int (digits_value 10 ds))" "getn (CHR ''-'' # ds) = Inr (- int (digits_value 10 ds))"
proof -
  have t: "takeWhile isdigit ds = ds" "dropWhile isdigit ds = []"
    using assms(1) by (simp_all add: takeWhile_eq_all_conv dropWhile_eq_Nil_conv list_all_iff)
  obtain d ds' where d: "ds = d # ds'" "isdigit d" using assms(1,2) by (cases ds) auto
  have nd: "dropWhile isspace ds = ds" "hd ds \<noteq> CHR ''-''" "hd ds \<noteq> CHR ''+''"
    using isdigit_not_space [OF d(2)] d(1) by simp_all
  have s: "\<not> isspace (CHR ''-'')" by (simp add: isspace_def)
  have b: "int (digits_value 10 ds) < 2 ^ 63" using assms(3) by simp
  show "getn ds = Inr (int (digits_value 10 ds))"
    using nd assms(2) b by (simp add: getn_def strtoll10_def Let_def t)
  show "getn (CHR ''-'' # ds) = Inr (- int (digits_value 10 ds))"
    using assms(2) b s by (simp add: getn_def strtoll10_def Let_def t)
qed

lemma getn_empty: "getn [] = Inl Syntax"
  by (simp add: getn_def strtoll10_def)

lemma getn_dec_int:
  assumes "\<bar>i\<bar> < 2 ^ 63"
  shows "getn (dec_int i) = Inr i"
proof -
  have "list_all isdigit (dec_nat n)" for n using dec_nat_digits [of n] by (simp add: list_all_iff is_digit_of_10)
  then show ?thesis
    using getn_digits [of "dec_nat (nat \<bar>i\<bar>)"] assms dec_nat_nonempty [of "nat \<bar>i\<bar>"]
    by (cases "i < 0") (simp_all add: dec_int_def digits_value_dec_nat nat_less_iff)
qed

definition int_op_text :: "token \<Rightarrow> string" where
  "int_op_text opn = (if opn = INTEQ then ''-eq'' else if opn = INTNE then ''-ne'' else if opn = INTGE then ''-ge''
     else if opn = INTGT then ''-gt'' else if opn = INTLE then ''-le'' else ''-lt'')"

lemma int_op_text:
  assumes "is_int_op opn"
  shows "operator_of (Some (int_op_text opn)) = Some (opn, BINOP)"
  using assms by (auto simp: is_int_op_def int_op_text_def operator_of_def ops_texts_def ops_table_def)

lemma dec_int_first: "dec_int i \<noteq> ''!'' \<and> dec_int i \<noteq> ''(''"
proof -
  have "\<not> list_all isdigit ''!''" "\<not> list_all isdigit ''(''" by (simp_all add: isdigit_def)
  moreover have "list_all isdigit (dec_nat n)" for n using dec_nat_digits [of n] by (simp add: list_all_iff is_digit_of_10)
  ultimately have "dec_nat n \<noteq> ''!'' \<and> dec_nat n \<noteq> ''(''" for n by metis
  then show ?thesis by (simp add: dec_int_def)
qed

text \<open>
  The comparisons by which the flash script decides whether an image fits: on the decimal texts
  of 64-bit numbers every integer operator compares the numbers, and a text that is not a number
  on either side is an error with status two, which the shell takes as false.
\<close>

theorem test_compares_numbers:
  assumes "is_int_op opn" "\<bar>a\<bar> < 2 ^ 63" "\<bar>b\<bar> < 2 ^ 63" "getn t = Inl Syntax" "t \<noteq> ''!''" "t \<noteq> ''(''"
  shows "test_main e [''['', dec_int a, int_op_text opn, dec_int b, '']''] = Inr (if int_cmp opn a b then 0 else 1)
    \<and> test_main e [''['', t, int_op_text opn, dec_int b, '']''] = Inr 2
    \<and> test_main e [''['', dec_int a, int_op_text opn, t, '']''] = Inr 2"
proof -
  let ?x = "\<lambda>u v. LastO (LastA (Prim (BinaryX u (int_op_text opn) v)))"
  have ok: "or_ok (?x u v)" if "u \<noteq> ''!''" "u \<noteq> ''(''" for u v
    using that int_op_text [OF assms(1)] by (simp add: optype_of_def)
  have "token_of (Some (int_op_text opn)) = opn" using int_op_text [OF assms(1)] by (simp add: token_of_def)
  then have val: "or_value e (?x u v) = and_then (getn u) (\<lambda>i. and_then (getn v) (\<lambda>j. Inr (int_cmp opn i j)))" for u v
    using assms(1) by (simp add: binop_value_def)
  have "test_main e [''['', u, int_op_text opn, v, '']''] = Inr (status (or_value e (?x u v)))"
    if "u \<noteq> ''!''" "u \<noteq> ''(''" for u v
    using test_main_status(2) [OF ok [OF that], of e v] by simp
  note m = this [unfolded val]
  show ?thesis
    using assms(4-6) dec_int_first getn_dec_int [OF assms(2)] getn_dec_int [OF assms(3)]
    by (simp add: m status_def)
qed

text \<open>A process without files, for the examples.\<close>

definition bare_env :: test_env where
  "bare_env = \<lparr>do_stat = \<lambda>_. None, do_lstat = \<lambda>_. None, geteuid = 0, getegid = 0, getgid = 0, supplementary = [], isatty = \<lambda>_. False\<rparr>"

theorem test_compares_numbers_witness:
  "test_main bare_env [''['', ''-5'', ''-lt'', ''1024'', '']''] = Inr 0 \<and> test_main bare_env [''['', [], ''-lt'', ''1024'', '']''] = Inr 2"
proof -
  have "dec_nat 5 = ''5''" "dec_nat 1024 = ''1024''"
    by (simp_all add: dec_nat.simps digit_char_def char_of_digit)
  then have "dec_int (-5) = ''-5''" "dec_int 1024 = ''1024''" by (simp_all add: dec_int_def)
  then show ?thesis
    using test_compares_numbers [of INTLT "-5" 1024 "[]" bare_env]
    by (simp add: is_int_op_def int_op_text_def int_cmp_def getn_empty)
qed

text \<open>
  C35. The check of the geometry in \<open>get_device_geometry\<close> of the flash script,
  \<open>[ -z C -o -z U -o C -le 0 -o U -le 0 ]\<close>, on what \<open>sed\<close> leaves of the output of \<open>fdisk\<close>, which is
  digits or nothing. It is true for a zero and false for two positive numbers; for the missing
  text it was written for it ends with status two, because all operands are evaluated, and the
  shell takes that as false: the script goes on without a geometry.
\<close>

theorem flash_geometry_check:
  assumes "list_all isdigit c" "list_all isdigit u" "digits_value 10 c < 2 ^ 63" "digits_value 10 u < 2 ^ 63"
  shows "test_main e [''['', ''-z'', c, ''-o'', ''-z'', u, ''-o'', c, ''-le'', ''0'', ''-o'', u, ''-le'', ''0'', '']''] =
    Inr (if c = [] \<or> u = [] then 2 else if digits_value 10 c = 0 \<or> digits_value 10 u = 0 then 0 else 1)"
proof -
  let ?z = "\<lambda>s. LastA (Prim (UnaryX ''-z'' s))" and ?le = "\<lambda>s. LastA (Prim (BinaryX s ''-le'' ''0''))"
  let ?x = "Or (?z c) (Or (?z u) (Or (?le c) (LastO (?le u))))"
  have o: "operator_of (Some ''-z'') = Some (STREZ, UNOP)" "operator_of (Some ''-le'') = Some (INTLE, BINOP)"
    by (simp_all add: operator_of_def ops_texts_def ops_table_def)
  have d: "operator_of (Some s) = None \<and> s \<noteq> ''!'' \<and> s \<noteq> ''(''" if "list_all isdigit s" for s
  proof -
    have "list_all (\<lambda>t. \<not> list_all isdigit t) ops_texts" by (simp add: ops_texts_def isdigit_def)
    then have no: "s \<notin> set ops_texts" using that by (auto simp: list_all_iff)
    moreover have "''!'' \<in> set ops_texts" "''('' \<in> set ops_texts" by (simp_all add: ops_texts_def)
    ultimately show ?thesis using operator_of_mem [of "Some s"] by (cases "operator_of (Some s)") (auto dest: set_zip_leftD)
  qed
  have "or_ok ?x" using o d [OF assms(1)] d [OF assms(2)] by (simp add: optype_of_def)
  from test_main_status(2) [OF this]
  have m: "test_main e [''['', ''-z'', c, ''-o'', ''-z'', u, ''-o'', c, ''-le'', ''0'', ''-o'', u, ''-le'', ''0'', '']''] =
      Inr (status (or_value e ?x))" by simp
  have z: "getn ''0'' = Inr 0" using getn_dec_int [of 0] by (simp add: dec_int_def dec_nat_0)
  have g: "getn s = (if s = [] then Inl Syntax else Inr (int (digits_value 10 s)))"
    if "list_all isdigit s" "digits_value 10 s < 2 ^ 63" for s
    using getn_digits(1) [OF that(1) _ that(2)] getn_empty by simp
  have "token_of (Some ''-z'') = STREZ" "token_of (Some ''-le'') = INTLE" using o by (simp_all add: token_of_def)
  then show ?thesis
    unfolding m by (auto simp: unary_def binop_value_def is_int_op_def int_cmp_def status_def z g [OF assms(1,3)] g [OF assms(2,4)])
qed

theorem flash_geometry_check_witness:
  "test_main bare_env [''['', ''-z'', [], ''-o'', ''-z'', ''8192'', ''-o'', [], ''-le'', ''0'', ''-o'', ''8192'', ''-le'', ''0'', '']''] = Inr 2"
  using flash_geometry_check [of "[]" "''8192''" bare_env]
  by (simp add: isdigit_def digits_value_def hex_val_def)

theorem test_follows_grammar_witness:
  "test_main bare_env [''test'', ''('', ''a'', ''='', ''a'', '')'', ''-a'', ''!'', ''-f'', ''uImage''] = Inr 0"
proof -
  let ?x = "LastO (And (Prim (Parens (LastO (LastA (Prim (BinaryX ''a'' ''='' ''a''))))))
     (LastA (Not (Prim (UnaryX ''-f'' ''uImage'')))))"
  have o: "operator_of (Some ''='') = Some (STREQ, BINOP)" "operator_of (Some ''-f'') = Some (FILREG, UNOP)"
      "operator_of (Some ''uImage'') = None"
    by (simp_all add: operator_of_def ops_texts_def ops_table_def)
  have "or_ok ?x" using o by (simp add: optype_of_def)
  moreover have "token_of (Some ''='') = STREQ" "token_of (Some ''-f'') = FILREG" using o by (simp_all add: token_of_def)
  ultimately show ?thesis
    using test_follows_grammar [of ?x bare_env]
    by (simp add: status_def unary_def filstat_def bare_env_def binop_value_def is_int_op_def is_str_op_def str_cmp_def)
qed

end
