(* ===== verification/Fdisk.thy ===== *)
theory Fdisk
  imports Numbers
begin

text \<open>
  The partition editor \<open>util-linux/fdisk.c\<close> on DOS partition tables, which the flash script drives
  to lay out the device. The Sun, SGI, AIX and BSD labels are switched off by default. Sector
  numbers keep their 32 bits. The sector buffers are a store of byte lists, so that the four
  primary entries share the buffer of the master boot record as they do in the code; pointers to
  \<open>struct partition\<close> are a buffer and a byte offset. The device is a list of bytes, standard input a
  list of lines; what is printed is left out.
\<close>

section \<open>Data\<close>

type_synonym part_ptr = "nat \<times> nat"

record pte =
  part_table :: "part_ptr option"
  ext_pointer :: "part_ptr option"
  offset_from_dev_start :: u32
  sectorbuffer :: nat
  changed :: bool

definition pte0 :: pte where
  "pte0 = \<lparr>part_table = None, ext_pointer = None, offset_from_dev_start = 0, sectorbuffer = 0, changed = False\<rparr>"

text \<open>
  \<open>struct globals\<close>. Besides the variables of the code it holds the unread input, the current line
  from \<open>line_ptr\<close> on, the buffers (number 0 is \<open>MBRbuffer\<close>), how many there are, the device and
  what its \<open>ioctl\<close> calls answer.
\<close>

record fdisk =
  input :: "string list"
  line_ptr :: string
  g_partitions :: nat
  units_per_sector :: u32
  sector_size :: u32
  user_set_sector_size :: bool
  sector_offset :: u32
  g_heads :: u32
  g_sectors :: u32
  g_cylinders :: u32
  display_in_cyl_units :: bool
  dos_compatible_flag :: bool
  ext_index :: nat
  user_cylinders :: u32
  user_heads :: u32
  user_sectors :: u32
  pt_heads :: u32
  pt_sectors :: u32
  kern_heads :: u32
  kern_sectors :: u32
  extended_offset :: u32
  total_number_of_sectors :: u32
  ptes :: "pte list"
  bufs :: "nat \<Rightarrow> u8 list"
  nbufs :: nat
  disk :: "u8 list"
  ioc_blksszget :: "u32 option"
  ioc_hdio_getgeo :: "(u8 \<times> u8) option"

text \<open>
  \<open>Hang\<close> stands for a loop that makes no progress, \<open>Overread\<close> for a read behind a sector buffer: a
  sector size above 2048 can be given, but the buffer of the master boot record has 2048 bytes.
  \<open>Overrun\<close> is a write behind the table of the 60 entries: the limit is checked only when no primary
  entry is free, and a logical partition can be asked for nevertheless.
\<close>

datatype fdisk_error = Eof | Fatal | Hang | Overread | Overrun

definition MAXIMUM_PARTS :: nat where "MAXIMUM_PARTS = 60"
definition DEFAULT_SECTOR_SIZE :: u32 where "DEFAULT_SECTOR_SIZE = 512"
definition MAX_SECTOR_SIZE :: nat where "MAX_SECTOR_SIZE = 2048"
definition ACTIVE_FLAG :: u8 where "ACTIVE_FLAG = 0x80"
definition EXTENDED :: u8 where "EXTENDED = 0x05"
definition WIN98_EXTENDED :: u8 where "WIN98_EXTENDED = 0x0f"
definition LINUX_NATIVE :: u8 where "LINUX_NATIVE = 0x83"
definition LINUX_EXTENDED :: u8 where "LINUX_EXTENDED = 0x85"

definition INIT_G :: "string list \<Rightarrow> u8 list \<Rightarrow> u32 option \<Rightarrow> (u8 \<times> u8) option \<Rightarrow> fdisk" where
  "INIT_G inp dsk ssz geo =
     \<lparr>input = inp, line_ptr = [], g_partitions = 4, units_per_sector = 1, sector_size = DEFAULT_SECTOR_SIZE,
      user_set_sector_size = False, sector_offset = 1, g_heads = 0, g_sectors = 0, g_cylinders = 0,
      display_in_cyl_units = True, dos_compatible_flag = True, ext_index = 0, user_cylinders = 0, user_heads = 0,
      user_sectors = 0, pt_heads = 0, pt_sectors = 0, kern_heads = 0, kern_sectors = 0, extended_offset = 0,
      total_number_of_sectors = 0, ptes = replicate MAXIMUM_PARTS pte0, bufs = (\<lambda>_. replicate MAX_SECTOR_SIZE 0), nbufs = 1,
      disk = dsk, ioc_blksszget = ssz, ioc_hdio_getgeo = geo\<rparr>"

section \<open>Partition entries\<close>

definition pt_offset :: "nat \<Rightarrow> nat \<Rightarrow> part_ptr" where
  "pt_offset b n = (b, 0x1be + n * 16)"

text \<open>The bytes of \<open>struct partition\<close>.\<close>

definition part_byte :: "fdisk \<Rightarrow> part_ptr \<Rightarrow> nat \<Rightarrow> u8" where
  "part_byte st p k = bufs st (fst p) ! (snd p + k)"

definition set_part_byte :: "part_ptr \<Rightarrow> nat \<Rightarrow> u8 \<Rightarrow> fdisk \<Rightarrow> fdisk" where
  "set_part_byte p k v st = st\<lparr>bufs := (bufs st)(fst p := (bufs st (fst p))[snd p + k := v])\<rparr>"

abbreviation boot_ind :: "fdisk \<Rightarrow> part_ptr \<Rightarrow> u8" where "boot_ind st p \<equiv> part_byte st p 0"
abbreviation sys_ind :: "fdisk \<Rightarrow> part_ptr \<Rightarrow> u8" where "sys_ind st p \<equiv> part_byte st p 4"
abbreviation end_head :: "fdisk \<Rightarrow> part_ptr \<Rightarrow> u8" where "end_head st p \<equiv> part_byte st p 5"
abbreviation end_sector :: "fdisk \<Rightarrow> part_ptr \<Rightarrow> u8" where "end_sector st p \<equiv> part_byte st p 6"

definition read4_little_endian :: "fdisk \<Rightarrow> part_ptr \<Rightarrow> nat \<Rightarrow> u32" where
  "read4_little_endian st p k =
     ucast (part_byte st p k) OR push_bit 8 (ucast (part_byte st p (k + 1)))
     OR push_bit 16 (ucast (part_byte st p (k + 2))) OR push_bit 24 (ucast (part_byte st p (k + 3)))"

definition store4_little_endian :: "part_ptr \<Rightarrow> nat \<Rightarrow> u32 \<Rightarrow> fdisk \<Rightarrow> fdisk" where
  "store4_little_endian p k v st =
     set_part_byte p (k + 3) (ucast (drop_bit 24 v)) (set_part_byte p (k + 2) (ucast (drop_bit 16 v))
       (set_part_byte p (k + 1) (ucast (drop_bit 8 v)) (set_part_byte p k (ucast v) st)))"

definition get_start_sect :: "fdisk \<Rightarrow> part_ptr \<Rightarrow> u32" where
  "get_start_sect st p = read4_little_endian st p 8"

definition get_nr_sects :: "fdisk \<Rightarrow> part_ptr \<Rightarrow> u32" where
  "get_nr_sects st p = read4_little_endian st p 12"

definition set_start_sect :: "part_ptr \<Rightarrow> u32 \<Rightarrow> fdisk \<Rightarrow> fdisk" where
  "set_start_sect p start_sect st = store4_little_endian p 8 start_sect st"

definition set_nr_sects :: "part_ptr \<Rightarrow> u32 \<Rightarrow> fdisk \<Rightarrow> fdisk" where
  "set_nr_sects p nr_sects st = store4_little_endian p 12 nr_sects st"

definition IS_EXTENDED :: "u8 \<Rightarrow> bool" where
  "IS_EXTENDED i \<longleftrightarrow> i = EXTENDED \<or> i = WIN98_EXTENDED \<or> i = LINUX_EXTENDED"

definition cround :: "fdisk \<Rightarrow> u32 \<Rightarrow> u32" where
  "cround st n = (if display_in_cyl_units st then n div units_per_sector st + 1 else n)"

definition get_part_table :: "fdisk \<Rightarrow> nat \<Rightarrow> part_ptr" where
  "get_part_table st i = the (part_table (ptes st ! i))"

definition valid_part_table_flag :: "u8 list \<Rightarrow> bool" where
  "valid_part_table_flag b \<longleftrightarrow> b ! 510 = 0x55 \<and> b ! 511 = 0xaa"

definition upd_pte :: "nat \<Rightarrow> (pte \<Rightarrow> pte) \<Rightarrow> fdisk \<Rightarrow> fdisk" where
  "upd_pte i f st = st\<lparr>ptes := (ptes st)[i := f (ptes st ! i)]\<rparr>"

definition set_all_unchanged :: "fdisk \<Rightarrow> fdisk" where
  "set_all_unchanged st = st\<lparr>ptes := map (changed_update (\<lambda>_. False)) (ptes st)\<rparr>"

definition set_changed :: "nat \<Rightarrow> fdisk \<Rightarrow> fdisk" where
  "set_changed i st = upd_pte i (changed_update (\<lambda>_. True)) st"

definition write_part_table_flag :: "nat \<Rightarrow> fdisk \<Rightarrow> fdisk" where
  "write_part_table_flag b st = st\<lparr>bufs := (bufs st)(b := (bufs st b)[510 := 0x55, 511 := 0xaa])\<rparr>"

definition get_partition_start_from_dev_start :: "fdisk \<Rightarrow> nat \<Rightarrow> u32" where
  "get_partition_start_from_dev_start st i = offset_from_dev_start (ptes st ! i) + get_start_sect st (get_part_table st i)"

definition is_cleared_partition :: "fdisk \<Rightarrow> part_ptr \<Rightarrow> bool" where
  "is_cleared_partition st p \<longleftrightarrow> list_all (\<lambda>k. part_byte st p k = 0) [0..<16]"

definition clear_partition :: "part_ptr option \<Rightarrow> fdisk \<Rightarrow> fdisk" where
  "clear_partition p st = (case p of None \<Rightarrow> st | Some q \<Rightarrow> fold (\<lambda>k. set_part_byte q k 0) [0..<16] st)"

definition set_hsc :: "part_ptr \<Rightarrow> nat \<Rightarrow> u32 \<Rightarrow> fdisk \<Rightarrow> fdisk" where
  "set_hsc p k sec st =
     (let s = ucast (sec mod g_sectors st + 1);
          sec1 = sec div g_sectors st;
          h = ucast (sec1 mod g_heads st);
          sec2 = sec1 div g_heads st;
          c = ucast (sec2 AND 0xff)
      in set_part_byte p (k + 2) c (set_part_byte p (k + 1) (s OR ucast (drop_bit 2 sec2 AND 0xc0)) (set_part_byte p k h st)))"

definition set_hsc_start_end :: "part_ptr \<Rightarrow> u32 \<Rightarrow> u32 \<Rightarrow> fdisk \<Rightarrow> fdisk" where
  "set_hsc_start_end p start stop st =
     (let lim = (\<lambda>x. if dos_compatible_flag st \<and> x div (g_sectors st * g_heads st) > 1023
                     then g_heads st * g_sectors st * 1024 - 1 else x)
      in set_hsc p 5 (lim stop) (set_hsc p 1 (lim start) st))"

definition set_partition :: "nat \<Rightarrow> bool \<Rightarrow> u32 \<Rightarrow> u32 \<Rightarrow> u8 \<Rightarrow> fdisk \<Rightarrow> fdisk" where
  "set_partition i doext start stop sysid st =
     (let p = (if doext then the (ext_pointer (ptes st ! i)) else get_part_table st i);
          offset = (if doext then extended_offset st else offset_from_dev_start (ptes st ! i))
      in set_changed i (set_hsc_start_end p start stop (set_nr_sects p (stop - start + 1)
           (set_start_sect p (start - offset) (set_part_byte p 4 sysid (set_part_byte p 0 0 st))))))"

section \<open>Geometry\<close>

definition warn_geometry :: "fdisk \<Rightarrow> bool" where
  "warn_geometry st \<longleftrightarrow> \<not> (g_heads st \<noteq> 0 \<and> g_sectors st \<noteq> 0 \<and> g_cylinders st \<noteq> 0)"

definition update_units :: "fdisk \<Rightarrow> fdisk" where
  "update_units st =
     (let cyl_units = g_heads st * g_sectors st in
      st\<lparr>units_per_sector := (if display_in_cyl_units st \<and> cyl_units \<noteq> 0 then cyl_units else 1)\<rparr>)"

definition bb_BLKGETSIZE_sectors :: "fdisk \<Rightarrow> u32" where
  "bb_BLKGETSIZE_sectors st =
     (let v64 = length (disk st) div 512 in if v64 \<ge> 2 ^ 32 then 0xffffffff else of_nat v64)"

definition get_sectorsize :: "fdisk \<Rightarrow> fdisk" where
  "get_sectorsize st =
     (if user_set_sector_size st then st
      else case ioc_blksszget st of Some a \<Rightarrow> st\<lparr>sector_size := a\<rparr> | None \<Rightarrow> st)"

definition get_kernel_geometry :: "fdisk \<Rightarrow> fdisk" where
  "get_kernel_geometry st =
     (case ioc_hdio_getgeo st of
        Some (h, s) \<Rightarrow> st\<lparr>kern_heads := ucast h, kern_sectors := ucast s\<rparr>
      | None \<Rightarrow> st)"

text \<open>The loop over the four entries: \<open>first\<close>, \<open>bad\<close>, \<open>hh\<close> and \<open>ss\<close>.\<close>

definition geo_step :: "fdisk \<Rightarrow> nat \<Rightarrow> bool \<times> bool \<times> u32 \<times> u32 \<Rightarrow> bool \<times> bool \<times> u32 \<times> u32" where
  "geo_step st i = (\<lambda>(fst', bad, hh, ss).
     let p = pt_offset 0 i in
     if sys_ind st p \<noteq> 0 then
       let h = ucast (end_head st p) + 1; s = ucast (end_sector st p AND 0x3f) in
       if fst' then (False, bad, h, s) else (fst', bad \<or> hh \<noteq> h \<or> ss \<noteq> s, hh, ss)
     else (fst', bad, hh, ss))"

definition get_partition_table_geometry :: "fdisk \<Rightarrow> fdisk" where
  "get_partition_table_geometry st =
     (if \<not> valid_part_table_flag (bufs st 0) then st
      else case fold (geo_step st) [0..<4] (True, False, 0, 0) of
        (fst', bad, hh, ss) \<Rightarrow> if \<not> fst' \<and> \<not> bad then st\<lparr>pt_heads := hh, pt_sectors := ss\<rparr> else st)"

definition get_geometry :: "fdisk \<Rightarrow> fdisk" where
  "get_geometry st =
     (let st1 = get_sectorsize st;
          sec_fac = sector_size st1 div 512;
          st2 = get_partition_table_geometry (get_kernel_geometry
            (st1\<lparr>g_heads := 0, g_cylinders := 0, g_sectors := 0, kern_heads := 0, kern_sectors := 0, pt_heads := 0, pt_sectors := 0\<rparr>));
          heads = (if user_heads st2 \<noteq> 0 then user_heads st2 else if pt_heads st2 \<noteq> 0 then pt_heads st2
            else if kern_heads st2 \<noteq> 0 then kern_heads st2 else 255);
          sectors = (if user_sectors st2 \<noteq> 0 then user_sectors st2 else if pt_sectors st2 \<noteq> 0 then pt_sectors st2
            else if kern_sectors st2 \<noteq> 0 then kern_sectors st2 else 63);
          tot = bb_BLKGETSIZE_sectors st2;
          cyls = tot div (heads * sectors * sec_fac)
      in st2\<lparr>g_heads := heads, g_sectors := sectors, total_number_of_sectors := tot,
           sector_offset := (if dos_compatible_flag st2 then sectors else 1),
           g_cylinders := (if cyls = 0 then user_cylinders st2 else cyls)\<rparr>)"

section \<open>Reading answers\<close>

definition read_line :: "fdisk \<Rightarrow> fdisk_error + fdisk" where
  "read_line st =
     (case input st of
        [] \<Rightarrow> Inl Eof
      | l # r \<Rightarrow> Inr (st\<lparr>input := r, line_ptr := dropWhile (\<lambda>c. of_char c \<le> (32 :: nat)) l\<rparr>))"

lemma read_line_shorter: "read_line st = Inr st' \<Longrightarrow> length (input st') < length (input st)"
  by (auto simp: read_line_def split: list.splits)

function read_nonempty :: "fdisk \<Rightarrow> fdisk_error + fdisk" where
  "read_nonempty st = and_then (read_line st) (\<lambda>st'. if line_ptr st' = [] then read_nonempty st' else Inr st')"
  by pat_completeness auto
termination by (relation "measure (\<lambda>st. length (input st))") (auto dest: read_line_shorter)

declare read_nonempty.simps [simp del]

definition read_maybe_empty :: "fdisk \<Rightarrow> fdisk_error + fdisk" where
  "read_maybe_empty st =
     and_then (read_line st) (\<lambda>st'. Inr (if line_ptr st' = [] then st'\<lparr>line_ptr := [CHR 0x0A]\<rparr> else st'))"

lemma read_maybe_empty_shorter: "read_maybe_empty st = Inr st' \<Longrightarrow> length (input st') < length (input st)"
  by (auto simp: read_maybe_empty_def dest: read_line_shorter)

lemma read_nonempty_shorter: "read_nonempty st = Inr st' \<Longrightarrow> length (input st') < length (input st)"
proof (induction st rule: read_nonempty.induct)
  case (1 st)
  note e = 1(2) [unfolded read_nonempty.simps [of st]]
  show ?case using e 1(1) by (fastforce dest: read_line_shorter split: if_splits)
qed

text \<open>\<open>bb_strtoul\<close> in base 16; \<open>None\<close> is the all-ones result of \<open>ret_ERANGE\<close>.\<close>

definition isalnum_c :: "char \<Rightarrow> bool" where
  "isalnum_c c \<longleftrightarrow> (let n = (of_char c :: nat) in (48 \<le> n \<and> n \<le> 57) \<or> (65 \<le> n \<and> n \<le> 90) \<or> (97 \<le> n \<and> n \<le> 122))"

definition bb_strtoul16 :: "string \<Rightarrow> nat option" where
  "bb_strtoul16 s =
     (if s = [] \<or> \<not> isalnum_c (hd s) then None
      else case strtou UINT_MAX 16 s of
        (None, e) \<Rightarrow> None
      | (Some v, e) \<Rightarrow> if e \<noteq> [] \<and> isalnum_c (hd e) then None else Some v)"

function read_hex :: "fdisk \<Rightarrow> fdisk_error + (u8 \<times> fdisk)" where
  "read_hex st =
     and_then (read_nonempty st) (\<lambda>st'.
       if hd (line_ptr st') = CHR ''l'' \<or> hd (line_ptr st') = CHR ''L'' then read_hex st'
       else case bb_strtoul16 (line_ptr st') of
         None \<Rightarrow> read_hex st'
       | Some v \<Rightarrow> if v \<le> 0xff then Inr (of_nat v, st') else read_hex st')"
  by pat_completeness auto
termination by (relation "measure (\<lambda>st. length (input st))") (auto dest: read_nonempty_shorter)

declare read_hex.simps [simp del]

text \<open>\<open>atoi\<close> of the C library, clamped as \<open>strtol\<close> does with a 32-bit \<open>long\<close>.\<close>

definition atoi :: "string \<Rightarrow> u32" where
  "atoi s =
     (let s1 = dropWhile isspace s;
          neg = (s1 \<noteq> [] \<and> hd s1 = CHR ''-'');
          s2 = (if s1 \<noteq> [] \<and> (hd s1 = CHR ''-'' \<or> hd s1 = CHR ''+'') then tl s1 else s1);
          v = digits_value 10 (takeWhile isdigit s2)
      in if neg then - of_nat (min v (2 ^ 31)) else of_nat (min v (2 ^ 31 - 1)))"

text \<open>The inner loop of \<open>read_int\<close>: ask until the answer is empty, a number or a signed number.\<close>

function read_answer :: "fdisk \<Rightarrow> fdisk_error + fdisk" where
  "read_answer st =
     and_then (read_maybe_empty st) (\<lambda>st'.
       let c = hd (line_ptr st') in
       if c = CHR 0x0A \<or> isdigit c \<or> c = CHR ''-'' \<or> c = CHR ''+'' then Inr st' else read_answer st')"
  by pat_completeness auto
termination by (relation "measure (\<lambda>st. length (input st))") (auto dest: read_maybe_empty_shorter)

declare read_answer.simps [simp del]

lemma read_answer_shorter: "read_answer st = Inr st' \<Longrightarrow> length (input st') < length (input st)"
proof (induction st rule: read_answer.induct)
  case (1 st)
  note e = 1(2) [unfolded read_answer.simps [of st] Let_def]
  show ?case using e 1(1) [OF _ refl] by (fastforce dest: read_maybe_empty_shorter split: if_splits)
qed

text \<open>What one answer means: the value and whether the default is to be used instead.\<close>

definition suffix_value :: "fdisk \<Rightarrow> char \<Rightarrow> u32 \<Rightarrow> u32" where
  "suffix_value st c v =
     (let absolute = (if c = CHR ''K'' then 1024 else if c = CHR ''k'' then 1000
          else if c = CHR ''m'' \<or> c = CHR ''M'' then 1000000
          else if c = CHR ''g'' \<or> c = CHR ''G'' then 1000000000 else (0 :: u64))
      in if c = CHR ''c'' \<or> c = CHR ''C'' then (if display_in_cyl_units st then v else v * (g_heads st * g_sectors st))
         else if absolute = 0 then v
         else let unit = (ucast (sector_size st * units_per_sector st) :: u64)
              in ucast ((ucast v * absolute + unit div 2) div unit))"

definition answer_value :: "fdisk \<Rightarrow> u32 \<Rightarrow> u32 \<times> bool" where
  "answer_value st base =
     (let l = line_ptr st in
      if hd l = CHR ''+'' \<or> hd l = CHR ''-'' then
        let r = dropWhile isdigit (tl l);
            v = suffix_value st (if r = [] then NUL else hd r) (atoi (tl l))
        in ((if hd l = CHR ''-'' then - v else v) + base, tl l \<noteq> [] \<and> isdigit (hd (tl l)))
      else (atoi l, isdigit (hd l)))"

function read_int :: "u32 \<Rightarrow> u32 \<Rightarrow> u32 \<Rightarrow> u32 \<Rightarrow> fdisk \<Rightarrow> fdisk_error + (u32 \<times> fdisk)" where
  "read_int low dflt high base st =
     and_then (read_answer st) (\<lambda>st'.
       let default_ok = (low \<le> dflt \<and> dflt \<le> high);
           (v, given) = answer_value st' base;
           val = (if default_ok \<and> \<not> given then dflt else v)
       in if low \<le> val \<and> val \<le> high then Inr (val, st') else read_int low dflt high base st')"
  by pat_completeness auto
termination by (relation "measure (\<lambda>(l, d, h, b, st). length (input st))") (auto dest: read_answer_shorter)

declare read_int.simps [simp del]

definition get_partition :: "nat \<Rightarrow> fdisk \<Rightarrow> fdisk_error + (nat \<times> fdisk)" where
  "get_partition mx st = and_then (read_int 1 0 (of_nat mx) 0 st) (\<lambda>(v, st'). Inr (unat (v - 1), st'))"

text \<open>
  The two ways to select an entry: the only one of its kind is taken without asking; \<open>None\<close> is -1.
\<close>

definition select_partition :: "(fdisk \<Rightarrow> part_ptr \<Rightarrow> bool) \<Rightarrow> nat \<Rightarrow> fdisk \<Rightarrow> fdisk_error + (nat option \<times> fdisk)" where
  "select_partition P mx st =
     (case filter (\<lambda>i. case part_table (ptes st ! i) of None \<Rightarrow> False | Some p \<Rightarrow> P st p) [0..<mx] of
        [] \<Rightarrow> Inr (None, st)
      | [pno] \<Rightarrow> Inr (Some pno, st)
      | _ \<Rightarrow> and_then (get_partition mx st) (\<lambda>(i, st'). Inr (Some i, st')))"

definition get_existing_partition :: "nat \<Rightarrow> fdisk \<Rightarrow> fdisk_error + (nat option \<times> fdisk)" where
  "get_existing_partition mx st = select_partition (\<lambda>s p. \<not> is_cleared_partition s p) mx st"

definition get_nonexisting_partition :: "nat \<Rightarrow> fdisk \<Rightarrow> fdisk_error + (nat option \<times> fdisk)" where
  "get_nonexisting_partition mx st = select_partition is_cleared_partition mx st"

section \<open>Reading and writing the table\<close>

text \<open>\<open>read_pte\<close>: a new buffer with the sector at \<open>offset\<close>.\<close>

definition read_pte :: "nat \<Rightarrow> u32 \<Rightarrow> fdisk \<Rightarrow> fdisk_error + fdisk" where
  "read_pte i offset st =
     (let off = unat offset * unat (sector_size st); n = unat (sector_size st); b = nbufs st in
      if off + n > length (disk st) then Inl Fatal
      else Inr (upd_pte i (\<lambda>_. \<lparr>part_table = None, ext_pointer = None, offset_from_dev_start = offset, sectorbuffer = b, changed = False\<rparr>)
             (st\<lparr>bufs := (bufs st)(b := take n (drop off (disk st))), nbufs := b + 1\<rparr>)))"

text \<open>What happens to the entry in front of a deleted logical one, or to the one behind the first.\<close>

definition unlink :: "nat \<Rightarrow> fdisk \<Rightarrow> fdisk" where
  "unlink i st =
     (let q = the (ext_pointer (ptes st ! i)) in
      if i > 4 then
        let r = the (ext_pointer (ptes st ! (i - 1)));
            cp = fold (\<lambda>k s. set_part_byte r k (part_byte st q k) s) [0..<16] st
        in set_changed (i - 1) (set_nr_sects r (get_nr_sects st q) (set_start_sect r (get_start_sect st q) cp))
      else if g_partitions st > 5 then
        let s2 = (case part_table (ptes st ! 5) of
            None \<Rightarrow> st
          | Some t \<Rightarrow> set_start_sect t (get_partition_start_from_dev_start st 5 - extended_offset st) st)
        in upd_pte 5 (\<lambda>e. e\<lparr>offset_from_dev_start := extended_offset st, changed := True\<rparr>) s2
      else st)"

definition delete_partition :: "nat \<Rightarrow> fdisk \<Rightarrow> fdisk" where
  "delete_partition i st =
     (if warn_geometry st then st
      else
        let st = set_changed i st; p = part_table (ptes st ! i) in
        if i < 4 then
          clear_partition p
            (if IS_EXTENDED (sys_ind st (the p)) \<and> i = ext_index st
             then upd_pte (ext_index st) (ext_pointer_update (\<lambda>_. None)) (st\<lparr>g_partitions := 4, extended_offset := 0\<rparr>)
             else st)
        else if sys_ind st (the (ext_pointer (ptes st ! i))) = 0 \<and> i > 4 then
          set_changed (i - 1) (clear_partition (ext_pointer (ptes st ! (i - 1))) (st\<lparr>g_partitions := g_partitions st - 1\<rparr>))
        else
          let st1 = unlink i st in
          if g_partitions st1 > 5 then
            st1\<lparr>g_partitions := g_partitions st1 - 1,
                ptes := take i (ptes st1) @ take (g_partitions st1 - 1 - i) (drop (i + 1) (ptes st1)) @ drop (g_partitions st1 - 1) (ptes st1)\<rparr>
          else clear_partition (part_table (ptes st1 ! i)) st1)"

text \<open>
  \<open>read_extended\<close>: the four entries of a sector of the chain give the partition and the link; the
  code behind the loop fills the missing ones.
\<close>

definition scan_entry :: "fdisk \<Rightarrow> nat \<Rightarrow> nat \<Rightarrow> part_ptr option \<times> part_ptr option \<Rightarrow> part_ptr option \<times> part_ptr option" where
  "scan_entry st b i = (\<lambda>(part, ext).
     let p = pt_offset b i in
     if get_nr_sects st p = 0 then (part, ext)
     else if IS_EXTENDED (sys_ind st p) then (part, if ext = None then Some p else ext)
     else if sys_ind st p \<noteq> 0 then (if part = None then Some p else part, ext)
     else (part, ext))"

definition fill_pointers :: "nat \<Rightarrow> part_ptr option \<times> part_ptr option \<Rightarrow> part_ptr option \<times> part_ptr option" where
  "fill_pointers b = (\<lambda>(part, ext).
     let q = pt_offset b 0; q1 = pt_offset b 1;
         part' = (if part = None then (if Some q \<noteq> ext then Some q else Some q1) else part);
         ext' = (if ext = None then (if Some q \<noteq> part' then Some q else Some q1) else ext)
     in (part', ext'))"

function read_chain :: "part_ptr \<Rightarrow> fdisk \<Rightarrow> fdisk_error + (bool \<times> fdisk)" where
  "read_chain p st =
     (if \<not> IS_EXTENDED (sys_ind st p) then Inr (True, st)
      else if g_partitions st \<ge> MAXIMUM_PARTS then
        Inr (False, clear_partition (ext_pointer (ptes st ! (g_partitions st - 1))) (set_changed (g_partitions st - 1) st))
      else
        and_then (read_pte (g_partitions st) (extended_offset st + get_start_sect st p) st) (\<lambda>st1.
          let st2 = (if extended_offset st1 = 0 then st1\<lparr>extended_offset := get_start_sect st p\<rparr> else st1);
              b = sectorbuffer (ptes st2 ! g_partitions st);
              (part, ext) = fill_pointers b (fold (scan_entry st2 b) [0..<4] (None, None));
              st3 = upd_pte (g_partitions st) (\<lambda>e. e\<lparr>part_table := part, ext_pointer := ext\<rparr>) st2
          in read_chain (the ext) (st3\<lparr>g_partitions := g_partitions st + 1\<rparr>)))"
  by pat_completeness auto
termination by (relation "measure (\<lambda>(p, st). MAXIMUM_PARTS - g_partitions st)") auto

declare read_chain.simps [simp del]

text \<open>Removing empty links: the lowest one first, until there is none.\<close>

definition empty_link :: "fdisk \<Rightarrow> nat option" where
  "empty_link st = find (\<lambda>i. get_nr_sects st (get_part_table st i) = 0
     \<and> (g_partitions st > 5 \<or> sys_ind st (get_part_table st 4) \<noteq> 0)) [4..<g_partitions st]"

text \<open>
  Every removal shortens the chain or clears the type of its only link, unless the geometry is
  unknown: then \<open>delete_partition\<close> does nothing and the loop repeats forever. So one round more
  than there are entries is enough.
\<close>

fun remove_links :: "nat \<Rightarrow> fdisk \<Rightarrow> fdisk_error + fdisk" where
  "remove_links k st =
     (case empty_link st of
        None \<Rightarrow> Inr st
      | Some i \<Rightarrow> (case k of 0 \<Rightarrow> Inl Hang | Suc k' \<Rightarrow> remove_links k' (delete_partition i st)))"

declare remove_links.simps [simp del]

definition read_extended :: "nat \<Rightarrow> fdisk \<Rightarrow> fdisk_error + fdisk" where
  "read_extended ext st =
     (let st0 = upd_pte ext (\<lambda>e. e\<lparr>ext_pointer := part_table e\<rparr>) (st\<lparr>ext_index := ext\<rparr>);
          p = get_part_table st0 ext
      in if get_start_sect st0 p = 0 then Inr st0
         else and_then (read_chain p st0) (\<lambda>(complete, st1).
           if complete then remove_links (g_partitions st1) st1 else Inr st1))"

text \<open>\<open>get_boot\<close> up to and from the label \<open>created_table\<close>; the geometry warnings are printed only.\<close>

definition init_ptes :: "bool \<Rightarrow> fdisk \<Rightarrow> fdisk" where
  "init_ptes chg st =
     (let prim = (\<lambda>i. \<lparr>part_table = Some (pt_offset 0 i), ext_pointer = None, offset_from_dev_start = 0, sectorbuffer = 0, changed = chg\<rparr>)
      in st\<lparr>g_partitions := 4, ptes := map prim [0..<4] @ drop 4 (ptes st)\<rparr>)"

definition boot_extended :: "nat \<Rightarrow> fdisk \<Rightarrow> fdisk_error + fdisk" where
  "boot_extended i st =
     (if IS_EXTENDED (sys_ind st (get_part_table st i)) \<and> g_partitions st = 4 then read_extended i st else Inr st)"

definition mark_flags :: "fdisk \<Rightarrow> fdisk" where
  "mark_flags st = fold (\<lambda>i s. if valid_part_table_flag (bufs s (sectorbuffer (ptes s ! i))) then s else set_changed i s)
     [3..<g_partitions st] st"

definition created_table :: "fdisk \<Rightarrow> fdisk_error + fdisk" where
  "created_table st =
     and_then (boot_extended 0 st) (\<lambda>s0. and_then (boot_extended 1 s0) (\<lambda>s1. and_then (boot_extended 2 s1) (\<lambda>s2.
       and_then (boot_extended 3 s2) (\<lambda>s3. Inr (mark_flags s3)))))"

definition create_doslabel :: "fdisk \<Rightarrow> fdisk_error + fdisk" where
  "create_doslabel st =
     (let st1 = st\<lparr>g_partitions := 4, bufs := (bufs st)(0 := fold (\<lambda>k b. b[510 - 4 * 16 + k := 0]) [0..<4 * 16] (bufs st 0))\<rparr>;
          st2 = (write_part_table_flag 0 st1)\<lparr>extended_offset := 0\<rparr>;
          st3 = set_changed 0 (set_all_unchanged st2)
      in created_table (init_ptes True st3))"

text \<open>\<open>get_boot(OPEN_MAIN)\<close>.\<close>

definition get_boot :: "fdisk \<Rightarrow> fdisk_error + fdisk" where
  "get_boot st =
     (let st1 = init_ptes False st in
      if length (disk st) < 512 then Inl Fatal
      else
        let st2 = st1\<lparr>bufs := (bufs st1)(0 := take 512 (disk st) @ drop 512 (bufs st1 0))\<rparr>;
            st3 = update_units (get_geometry st2)
        in if \<not> valid_part_table_flag (bufs st3 0) then create_doslabel st3 else created_table st3)"

definition write_sector :: "u32 \<Rightarrow> u8 list \<Rightarrow> fdisk \<Rightarrow> fdisk_error + fdisk" where
  "write_sector secno buf st =
     (let off = unat secno * unat (sector_size st); n = unat (sector_size st) in
      if n > length buf then Inl Overread
      else if off + n > length (disk st) then Inl Fatal
      else Inr (st\<lparr>disk := take off (disk st) @ take n buf @ drop (off + n) (disk st)\<rparr>))"

text \<open>\<open>write_table\<close>: whether all changed sectors were written, and the state with the device.\<close>

fun write_ptes :: "nat list \<Rightarrow> fdisk \<Rightarrow> bool \<times> fdisk" where
  "write_ptes [] st = (True, st)"
| "write_ptes (i # is) st =
     (if changed (ptes st ! i) then
        let st1 = write_part_table_flag (sectorbuffer (ptes st ! i)) st in
        case write_sector (offset_from_dev_start (ptes st ! i)) (bufs st1 (sectorbuffer (ptes st ! i))) st1 of
          Inl _ \<Rightarrow> (False, st1)
        | Inr st2 \<Rightarrow> write_ptes is st2
      else write_ptes is st)"

definition write_table :: "fdisk \<Rightarrow> bool \<times> fdisk" where
  "write_table st =
     write_ptes [3..<g_partitions st]
       (if list_ex (\<lambda>i. changed (ptes st ! i)) [0..<3] then set_changed 3 st else st)"

section \<open>Adding partitions\<close>

text \<open>\<open>fill_bounds\<close>: first and last sector of entry \<open>i\<close>; an empty or extended entry has an empty range.\<close>

definition bound :: "fdisk \<Rightarrow> nat \<Rightarrow> u32 \<times> u32" where
  "bound st i =
     (let t = sys_ind st (get_part_table st i) in
      if t = 0 \<or> IS_EXTENDED t then (0xffffffff, 0)
      else let f = get_partition_start_from_dev_start st i in (f, f + get_nr_sects st (get_part_table st i) - 1))"

definition fill_bounds :: "fdisk \<Rightarrow> (u32 \<times> u32) list" where
  "fill_bounds st = map (bound st) [0..<g_partitions st]"

text \<open>The bounds \<open>add_partition\<close> works with and the lowest start and the limit for entry \<open>n\<close>.\<close>

definition ext_last :: "fdisk \<Rightarrow> u32" where
  "ext_last st = (let q = get_part_table st (ext_index st) in get_start_sect st q + get_nr_sects st q - 1)"

definition add_limit :: "nat \<Rightarrow> fdisk \<Rightarrow> u32" where
  "add_limit n st =
     (if n < 4 then
        (if display_in_cyl_units st \<or> total_number_of_sectors st = 0 then g_heads st * g_sectors st * g_cylinders st - 1
         else total_number_of_sectors st - 1)
      else ext_last st)"

definition add_start :: "nat \<Rightarrow> fdisk \<Rightarrow> u32" where
  "add_start n st = (if n < 4 then sector_offset st else extended_offset st + sector_offset st)"

definition add_bounds :: "nat \<Rightarrow> fdisk \<Rightarrow> (u32 \<times> u32) list" where
  "add_bounds n st =
     (let bs = fill_bounds st;
          bs1 = (if n < 4 \<and> extended_offset st \<noteq> 0 then bs[ext_index st := (extended_offset st, ext_last st)] else bs)
      in if display_in_cyl_units st then map (\<lambda>(f, l). ((cround st f - 1) * units_per_sector st, l)) bs1 else bs1)"

text \<open>One pass of the loop over all entries, given by their bounds and their offsets.\<close>

definition pass_step :: "u32 \<Rightarrow> u32 \<Rightarrow> (u32 \<times> u32) \<times> u32 \<Rightarrow> u32 \<Rightarrow> u32" where
  "pass_step soff extra = (\<lambda>((f, l), off) start.
     let s = (if start = off then start + soff else start); lpo = l + extra in
     if f \<le> s \<and> s \<le> lpo then lpo + 1 else s)"

definition add_pass :: "u32 \<Rightarrow> u32 \<Rightarrow> ((u32 \<times> u32) \<times> u32) list \<Rightarrow> u32 \<Rightarrow> u32" where
  "add_pass soff extra es start = fold (pass_step soff extra) es start"

text \<open>
  The \<open>do\<close> loop: \<open>start\<close> and \<open>num_read\<close> at the head of a turn, where \<open>temp\<close> gets the value of
  \<open>start\<close>. \<open>None\<close> is a loop that does not end.
\<close>

definition ask_start :: "u32 \<Rightarrow> u32 \<Rightarrow> fdisk \<Rightarrow> fdisk_error + (u32 \<times> fdisk)" where
  "ask_start saved limit st =
     and_then (read_int (cround st saved) (cround st saved) (cround st limit) 0 st) (\<lambda>(v, st').
       let s = (if display_in_cyl_units st' then (v - 1) * units_per_sector st' else v) in
       Inr (if display_in_cyl_units st' \<and> s < saved then saved else s, st'))"

partial_function (option) add_loop ::
  "u32 \<Rightarrow> ((u32 \<times> u32) \<times> u32) list \<Rightarrow> u32 \<Rightarrow> fdisk \<Rightarrow> u32 \<Rightarrow> bool \<Rightarrow> (fdisk_error + (u32 \<times> fdisk)) option" where
  "add_loop extra es limit st temp num_read =
     (let start = add_pass (sector_offset st) extra es temp in
      if start > limit then Some (Inr (start, st))
      else
        let again = (start \<ge> temp + units_per_sector st \<and> num_read);
            temp' = (if again then start else temp);
            read = (num_read \<and> \<not> again)
        in if \<not> read \<and> start = temp' then
             (case ask_start start limit st of
                Inl e \<Rightarrow> Some (Inl e)
              | Inr r \<Rightarrow> if fst r = temp' then Some (Inr r) else add_loop extra es limit (snd r) (fst r) True)
           else if start \<noteq> temp' \<or> \<not> read then add_loop extra es limit st start read
           else Some (Inr (start, st)))"

text \<open>Lowering the limit to what is free behind \<open>start\<close>.\<close>

definition limit_step :: "u32 \<Rightarrow> (u32 \<times> u32) \<times> u32 \<Rightarrow> u32 \<Rightarrow> u32" where
  "limit_step start = (\<lambda>((f, l), off) limit.
     let l1 = (if start < off \<and> limit \<ge> off then off - 1 else limit) in
     if start < f \<and> l1 \<ge> f then f - 1 else l1)"

definition add_entries :: "nat \<Rightarrow> fdisk \<Rightarrow> ((u32 \<times> u32) \<times> u32) list" where
  "add_entries n st = zip (add_bounds n st) (map offset_from_dev_start (take (g_partitions st) (ptes st)))"

definition ask_stop :: "u32 \<Rightarrow> u32 \<Rightarrow> fdisk \<Rightarrow> fdisk_error + (u32 \<times> fdisk)" where
  "ask_stop start limit st =
     (if cround st start = cround st limit then Inr (limit, st)
      else and_then (read_int (cround st start) (cround st limit) (cround st limit) (cround st start) st) (\<lambda>(v, st').
        let s = (if display_in_cyl_units st' then v * units_per_sector st' - 1 else v) in
        Inr (if display_in_cyl_units st' \<and> s > limit then limit else s, st')))"

text \<open>The end of \<open>add_partition\<close>: the entry, the link to it and the first sector of an extended partition.\<close>

definition link_extended :: "nat \<Rightarrow> u32 \<Rightarrow> fdisk \<Rightarrow> fdisk" where
  "link_extended n start st =
     (let b = nbufs st;
          st1 = upd_pte n (\<lambda>e. e\<lparr>ext_pointer := part_table e\<rparr>)
            (st\<lparr>ext_index := n, extended_offset := start, g_partitions := 5,
                bufs := (bufs st)(b := replicate (unat (sector_size st)) 0), nbufs := b + 1\<rparr>)
      in upd_pte 4 (\<lambda>_. \<lparr>part_table = Some (pt_offset b 0), ext_pointer = Some (pt_offset b 1),
           offset_from_dev_start = start, sectorbuffer = b, changed = True\<rparr>) st1)"

definition add_finish :: "nat \<Rightarrow> u8 \<Rightarrow> u32 \<Rightarrow> u32 \<Rightarrow> fdisk \<Rightarrow> fdisk" where
  "add_finish n sys start stop st =
     (let st1 = set_partition n False start stop sys st;
          st2 = (if n > 4 then set_partition (n - 1) True (offset_from_dev_start (ptes st1 ! n)) stop EXTENDED st1 else st1)
      in if IS_EXTENDED sys then link_extended n start st2 else st2)"

text \<open>The new sector of the chain in front of a further logical partition.\<close>

definition place_link :: "nat \<Rightarrow> u32 \<Rightarrow> fdisk \<Rightarrow> u32 \<times> fdisk" where
  "place_link n start st =
     (if n > 4 then
        let off = start - sector_offset st in
        if off = extended_offset st
        then (if sector_offset st = 1 then start + 1 else start, upd_pte n (offset_from_dev_start_update (\<lambda>_. off + 1)) st)
        else (start, upd_pte n (offset_from_dev_start_update (\<lambda>_. off)) st)
      else (start, st))"

definition add_partition :: "nat \<Rightarrow> u8 \<Rightarrow> fdisk \<Rightarrow> (fdisk_error + fdisk) option" where
  "add_partition n sys st =
     (if part_table (ptes st ! n) \<noteq> None \<and> sys_ind st (get_part_table st n) \<noteq> 0 then Some (Inr st)
      else
        let limit = add_limit n st; bs = add_bounds n st in
        Option.bind (add_loop (if n < 4 then 0 else sector_offset st) (add_entries n st) limit st (add_start n st) False)
          (\<lambda>r. Some (and_then r (\<lambda>(start0, st1).
             let (start, st2) = place_link n start0 st1;
                 limit2 = fold (limit_step start) (zip bs (map offset_from_dev_start (take (g_partitions st2) (ptes st2)))) limit
             in if start > limit2 then Inr (if n > 4 then st2\<lparr>g_partitions := g_partitions st2 - 1\<rparr> else st2)
                else and_then (ask_stop start limit2 st2) (\<lambda>(stop, st3). Inr (add_finish n sys start stop st3))))))"

definition add_logical :: "fdisk \<Rightarrow> (fdisk_error + fdisk) option" where
  "add_logical st =
     (if g_partitions st > 5 \<or> sys_ind st (get_part_table st 4) \<noteq> 0 then
        if g_partitions st \<ge> MAXIMUM_PARTS then Some (Inl Overrun)
        else
          let b = nbufs st;
              st1 = upd_pte (g_partitions st) (\<lambda>_. \<lparr>part_table = Some (pt_offset b 0), ext_pointer = Some (pt_offset b 1),
                  offset_from_dev_start = 0, sectorbuffer = b, changed = True\<rparr>)
                (st\<lparr>bufs := (bufs st)(b := replicate (unat (sector_size st)) 0), nbufs := b + 1, g_partitions := g_partitions st + 1\<rparr>)
          in add_partition (g_partitions st1 - 1) LINUX_NATIVE st1
      else add_partition (g_partitions st - 1) LINUX_NATIVE st)"

section \<open>Commands\<close>

definition select_and_add :: "u8 \<Rightarrow> fdisk \<Rightarrow> (fdisk_error + fdisk) option" where
  "select_and_add sys st =
     (case get_nonexisting_partition 4 st of
        Inl e \<Rightarrow> Some (Inl e)
      | Inr (None, st') \<Rightarrow> Some (Inr st')
      | Inr (Some i, st') \<Rightarrow> add_partition i sys st')"

function new_choice :: "fdisk \<Rightarrow> (fdisk_error + fdisk) option" where
  "new_choice st =
     (case read_nonempty st of
        Inl e \<Rightarrow> Some (Inl e)
      | Inr st' \<Rightarrow>
          let c = hd (line_ptr st') in
          if c = CHR ''p'' \<or> c = CHR ''P'' then select_and_add LINUX_NATIVE st'
          else if c = CHR ''l'' \<and> extended_offset st' \<noteq> 0 then add_logical st'
          else if c = CHR ''e'' \<and> extended_offset st' = 0 then select_and_add EXTENDED st'
          else new_choice st')"
  by pat_completeness auto
termination by (relation "measure (\<lambda>st. length (input st))") (auto dest: read_nonempty_shorter)

declare new_choice.simps [simp del]

definition new_partition :: "fdisk \<Rightarrow> (fdisk_error + fdisk) option" where
  "new_partition st =
     (if warn_geometry st then Some (Inr st)
      else
        let free_primary = length (filter (\<lambda>i. sys_ind st (get_part_table st i) = 0) [0..<4]) in
        if free_primary = 0 \<and> g_partitions st \<ge> MAXIMUM_PARTS then Some (Inr st)
        else if free_primary = 0 then (if extended_offset st \<noteq> 0 then add_logical st else Some (Inr st))
        else new_choice st)"

definition toggle_active :: "nat \<Rightarrow> fdisk \<Rightarrow> fdisk" where
  "toggle_active i st =
     (let p = get_part_table st i in
      set_changed i (set_part_byte p 0 (if boot_ind st p \<noteq> 0 then 0 else ACTIVE_FLAG) st))"

definition toggle_dos_compatibility_flag :: "fdisk \<Rightarrow> fdisk" where
  "toggle_dos_compatibility_flag st =
     (if dos_compatible_flag st then st\<lparr>dos_compatible_flag := False, sector_offset := 1\<rparr>
      else st\<lparr>dos_compatible_flag := True, sector_offset := g_sectors st\<rparr>)"

definition change_units :: "fdisk \<Rightarrow> fdisk" where
  "change_units st = update_units (st\<lparr>display_in_cyl_units := \<not> display_in_cyl_units st\<rparr>)"

definition change_sysid :: "fdisk \<Rightarrow> fdisk_error + fdisk" where
  "change_sysid st =
     and_then (get_existing_partition (g_partitions st) st) (\<lambda>(sel, st1).
       case sel of
         None \<Rightarrow> Inr st1
       | Some i \<Rightarrow>
           let p = get_part_table st1 i; origsys = sys_ind st1 p in
           if origsys = 0 \<and> get_nr_sects st1 p = 0 then Inr st1
           else and_then (read_hex st1) (\<lambda>(sys, st2).
             if IS_EXTENDED sys \<noteq> IS_EXTENDED origsys then Inr st2
             else if sys = origsys then Inr st2
             else Inr (set_changed i (set_part_byte p 4 sys st2))))"

section \<open>The expert menu\<close>

text \<open>
  \<open>wrong_p_order\<close>: the first entry that begins before the one in front of it, with the number of
  that one. The code returns 0 for \<open>None\<close>; entry 0 is never returned.
\<close>

fun wrong_from :: "fdisk \<Rightarrow> nat list \<Rightarrow> u32 \<Rightarrow> nat \<Rightarrow> (nat \<times> nat) option" where
  "wrong_from st [] last_p_start_pos last_i = None"
| "wrong_from st (i # is) last_p_start_pos last_i =
     (let lp = (if i = 4 then 0 else last_p_start_pos); li = (if i = 4 then 4 else last_i) in
      if sys_ind st (get_part_table st i) \<noteq> 0 then
        let p_start_pos = get_partition_start_from_dev_start st i in
        if lp > p_start_pos then Some (i, li) else wrong_from st is p_start_pos i
      else wrong_from st is lp li)"

definition wrong_p_order :: "fdisk \<Rightarrow> (nat \<times> nat) option" where
  "wrong_p_order st = wrong_from st [0..<g_partitions st] 0 0"

text \<open>The exchange of two entries as wholes.\<close>

definition part_bytes :: "fdisk \<Rightarrow> part_ptr \<Rightarrow> u8 list" where
  "part_bytes st p = map (part_byte st p) [0..<16]"

definition put_bytes :: "part_ptr \<Rightarrow> u8 list \<Rightarrow> fdisk \<Rightarrow> fdisk" where
  "put_bytes p bs st = fold (\<lambda>k. set_part_byte p k (bs ! k)) [0..<16] st"

definition exchange :: "part_ptr \<Rightarrow> part_ptr \<Rightarrow> fdisk \<Rightarrow> fdisk" where
  "exchange p q st = put_bytes q (part_bytes st p) (put_bytes p (part_bytes st q) st)"

text \<open>
  \<open>fix_chain_of_logicals\<close>. A jump to \<open>stage1\<close> or \<open>stage2\<close> starts the search again, so each turn
  treats the first pair in the wrong order. The sector numbers are compared as \<open>int\<close>.
\<close>

definition swap_links :: "nat \<Rightarrow> fdisk \<Rightarrow> fdisk" where
  "swap_links j st =
     (let oj = offset_from_dev_start (ptes st ! j); ojj = offset_from_dev_start (ptes st ! (j + 1));
          st1 = upd_pte (j + 1) (offset_from_dev_start_update (\<lambda>_. oj)) (upd_pte j (offset_from_dev_start_update (\<lambda>_. ojj)) st);
          pj = get_part_table st1 j; pjj = get_part_table st1 (j + 1);
          st2 = set_start_sect pj (get_start_sect st1 pj + oj - ojj) st1;
          st3 = set_start_sect pjj (get_start_sect st2 pjj + ojj - oj) st2
      in set_start_sect (the (ext_pointer (ptes st3 ! j))) (oj - extended_offset st3)
           (set_start_sect (the (ext_pointer (ptes st3 ! (j - 1)))) (ojj - extended_offset st3) st3))"

partial_function (option) stage1 :: "fdisk \<Rightarrow> fdisk option" where
  "stage1 st =
     (case find (\<lambda>j. sint (offset_from_dev_start (ptes st ! j)) > sint (offset_from_dev_start (ptes st ! (j + 1))))
         [5..<g_partitions st - 1] of
        None \<Rightarrow> Some st
      | Some j \<Rightarrow> stage1 (swap_links j st))"

definition swap_starts :: "nat \<Rightarrow> fdisk \<Rightarrow> fdisk" where
  "swap_starts j st =
     (let pj = get_part_table st j; pjj = get_part_table st (j + 1);
          sj = get_start_sect st pj; sjj = get_start_sect st pjj;
          oj = offset_from_dev_start (ptes st ! j); ojj = offset_from_dev_start (ptes st ! (j + 1))
      in set_start_sect pjj (oj + sj - ojj) (set_start_sect pj (ojj + sjj - oj) (exchange pj pjj st)))"

partial_function (option) stage2 :: "fdisk \<Rightarrow> fdisk option" where
  "stage2 st =
     (case find (\<lambda>j. sint (get_partition_start_from_dev_start st j) > sint (get_partition_start_from_dev_start st (j + 1)))
         [4..<g_partitions st - 1] of
        None \<Rightarrow> Some st
      | Some j \<Rightarrow> stage2 (swap_starts j st))"

definition fix_chain_of_logicals :: "fdisk \<Rightarrow> fdisk option" where
  "fix_chain_of_logicals st =
     Option.bind (stage1 st) (\<lambda>st1. Option.bind (stage2 st1) (\<lambda>st2. Some (fold set_changed [4..<g_partitions st2] st2)))"

definition swap_primaries :: "nat \<Rightarrow> nat \<Rightarrow> fdisk \<Rightarrow> fdisk" where
  "swap_primaries i k st =
     (let ei = ext_pointer (ptes st ! i); ek = ext_pointer (ptes st ! k);
          st1 = upd_pte k (ext_pointer_update (\<lambda>_. ei)) (upd_pte i (ext_pointer_update (\<lambda>_. ek)) st)
      in set_changed k (set_changed i (exchange (get_part_table st1 i) (get_part_table st1 k) st1)))"

text \<open>The loop over the primary entries, with the state in which it ends.\<close>

partial_function (option) fix_primaries :: "fdisk \<Rightarrow> fdisk option" where
  "fix_primaries st =
     (case wrong_p_order st of
        None \<Rightarrow> Some st
      | Some r \<Rightarrow> if fst r < 4 then fix_primaries (swap_primaries (fst r) (snd r) st) else Some st)"

definition fix_partition_table_order :: "fdisk \<Rightarrow> fdisk option" where
  "fix_partition_table_order st =
     (if wrong_p_order st = None then Some st
      else Option.bind (fix_primaries st) (\<lambda>st1.
        if wrong_p_order st1 \<noteq> None then fix_chain_of_logicals st1 else Some st1))"

definition move_begin :: "nat \<Rightarrow> fdisk \<Rightarrow> fdisk_error + fdisk" where
  "move_begin i st =
     (let p = get_part_table st i; nr_sects = get_nr_sects st p in
      if warn_geometry st then Inr st
      else if sys_ind st p = 0 \<or> nr_sects = 0 \<or> IS_EXTENDED (sys_ind st p) then Inr st
      else
        let first = get_partition_start_from_dev_start st i in
        and_then (read_int 0 first (first + nr_sects - 1) first st) (\<lambda>(new, st1).
          if new = first then Inr st1
          else
            let new_relative = new - offset_from_dev_start (ptes st1 ! i);
                nr = nr_sects + (get_start_sect st1 p - new_relative);
                st2 = set_nr_sects p nr (set_start_sect p new_relative st1)
            in and_then (read_nonempty st2) (\<lambda>st3.
                 Inr (set_changed i
                   (if (of_char (hd (line_ptr st3)) :: nat) OR 0x20 = of_char (CHR ''y'')
                    then set_hsc_start_end p new (new + nr - 1) st3 else st3)))))"

text \<open>
  A command gives the next state, the end of the menu (\<open>Back\<close>) or the end of the program; for the
  latter \<open>Done\<close> says whether every changed sector was written. The printing commands change nothing.
\<close>

datatype outcome = Next fdisk | Back fdisk | Done bool fdisk

abbreviation next_state :: "fdisk_error + fdisk \<Rightarrow> (fdisk_error + outcome) option" where
  "next_state r \<equiv> Some (and_then r (\<lambda>s. Inr (Next s)))"

abbreviation written :: "fdisk \<Rightarrow> (fdisk_error + outcome) option" where
  "written st \<equiv> Some (Inr (Done (fst (write_table st)) (snd (write_table st))))"

definition expert_command :: "fdisk \<Rightarrow> (fdisk_error + outcome) option" where
  "expert_command st =
     (let c = (of_char (hd (line_ptr st)) :: nat) OR 0x20 in
      if c = of_char (CHR ''b'') then next_state (and_then (get_partition (g_partitions st) st) (\<lambda>(i, s). move_begin i s))
      else if c = of_char (CHR ''c'') then
        next_state (and_then (read_int 1 (g_cylinders st) 1048576 0 st) (\<lambda>(v, s). Inr (s\<lparr>g_cylinders := v, user_cylinders := v\<rparr>)))
      else if c = of_char (CHR ''f'') then Option.bind (fix_partition_table_order st) (\<lambda>s. Some (Inr (Next s)))
      else if c = of_char (CHR ''h'') then
        next_state (and_then (read_int 1 (g_heads st) 256 0 st) (\<lambda>(v, s). Inr (update_units (s\<lparr>g_heads := v, user_heads := v\<rparr>))))
      else if c = of_char (CHR ''q'') then Some (Inr (Done True st))
      else if c = of_char (CHR ''r'') then Some (Inr (Back st))
      else if c = of_char (CHR ''s'') then
        next_state (and_then (read_int 1 (g_sectors st) 63 0 st) (\<lambda>(v, s).
          let s1 = s\<lparr>g_sectors := v, user_sectors := v\<rparr> in
          Inr (update_units (if dos_compatible_flag s1 then s1\<lparr>sector_offset := v\<rparr> else s1))))
      else if c = of_char (CHR ''w'') then written st
      else Some (Inr (Next st)))"

text \<open>\<open>xselect\<close>, whose result is the state of the main menu to go on with or the end of the program.\<close>

partial_function (option) xselect :: "fdisk \<Rightarrow> (fdisk_error + outcome) option" where
  "xselect st =
     (case read_nonempty st of
        Inl e \<Rightarrow> Some (Inl e)
      | Inr st1 \<Rightarrow> Option.bind (expert_command st1) (\<lambda>r.
          case r of
            Inl e \<Rightarrow> Some (Inl e)
          | Inr (Next st2) \<Rightarrow> xselect st2
          | Inr (Back st2) \<Rightarrow> Some (Inr (Next st2))
          | Inr (Done ok st2) \<Rightarrow> Some (Inr (Done ok st2))))"

text \<open>The command loop of \<open>fdisk_main\<close>.\<close>

definition command :: "fdisk \<Rightarrow> (fdisk_error + outcome) option" where
  "command st =
     (let c = (of_char (hd (line_ptr st)) :: nat) OR 0x20 in
      if c = of_char (CHR ''a'') then next_state (and_then (get_partition (g_partitions st) st) (\<lambda>(i, s). Inr (toggle_active i s)))
      else if c = of_char (CHR ''c'') then Some (Inr (Next (toggle_dos_compatibility_flag st)))
      else if c = of_char (CHR ''d'') then
        next_state (and_then (get_existing_partition (g_partitions st) st) (\<lambda>(sel, s).
          Inr (case sel of None \<Rightarrow> s | Some j \<Rightarrow> delete_partition j s)))
      else if c = of_char (CHR ''n'') then Option.bind (new_partition st) next_state
      else if c = of_char (CHR ''o'') then next_state (create_doslabel st)
      else if c = of_char (CHR ''q'') then Some (Inr (Done True st))
      else if c = of_char (CHR ''t'') then next_state (change_sysid st)
      else if c = of_char (CHR ''u'') then Some (Inr (Next (change_units st)))
      else if c = of_char (CHR ''w'') then written st
      else if c = of_char (CHR ''x'') then xselect st
      else Some (Inr (Next st)))"

partial_function (option) command_loop :: "fdisk \<Rightarrow> (fdisk_error + bool \<times> fdisk) option" where
  "command_loop st =
     (case read_nonempty st of
        Inl e \<Rightarrow> Some (Inl e)
      | Inr st1 \<Rightarrow> Option.bind (command st1) (\<lambda>r.
          case r of
            Inl e \<Rightarrow> Some (Inl e)
          | Inr (Next st2) \<Rightarrow> command_loop st2
          | Inr (Back st2) \<Rightarrow> command_loop st2
          | Inr (Done ok st2) \<Rightarrow> Some (Inr (ok, st2))))"

text \<open>\<open>fdisk_main\<close> without \<open>-l\<close>, from the options \<open>-b\<close>, \<open>-C\<close>, \<open>-H\<close>, \<open>-S\<close> and \<open>-u\<close> on; \<open>None\<close> as result of the options is the usage text.\<close>

definition fdisk_options :: "u32 option \<Rightarrow> u32 \<Rightarrow> u32 \<Rightarrow> u32 \<Rightarrow> bool \<Rightarrow> fdisk \<Rightarrow> fdisk option" where
  "fdisk_options bopt copt hopt sopt uopt st =
     (let st1 = st\<lparr>user_cylinders := copt, user_heads := (if hopt = 0 \<or> hopt \<ge> 256 then 0 else hopt),
          user_sectors := (if sopt = 0 \<or> sopt \<ge> 64 then 0 else sopt), display_in_cyl_units := \<not> uopt\<rparr>
      in case bopt of
           None \<Rightarrow> Some st1
         | Some b \<Rightarrow>
             if b < 512 \<or> b > 0x10000 \<or> b AND (b - 1) \<noteq> 0 then None
             else Some (st1\<lparr>sector_size := b, sector_offset := 2, user_set_sector_size := True\<rparr>))"

definition fdisk_main :: "fdisk \<Rightarrow> (fdisk_error + bool \<times> fdisk) option" where
  "fdisk_main st =
     (case get_boot st of Inl e \<Rightarrow> Some (Inl e) | Inr st1 \<Rightarrow> command_loop st1)"

end
