(* ===== verification/FdiskTable.thy ===== *)
theory FdiskTable
  imports Fdisk
begin

text \<open>
  The table behind \<open>fdisk\<close>: reading back what is stored in an entry, the invariant of the entries
  and the buffers they point into, and what adding a partition does to the others.
\<close>

section \<open>Bytes of an entry\<close>

definition in_buf :: "fdisk \<Rightarrow> part_ptr \<Rightarrow> bool" where
  "in_buf st p \<longleftrightarrow> snd p + 16 \<le> length (bufs st (fst p))"

text \<open>Two entries that do not overlap.\<close>

definition apart :: "part_ptr \<Rightarrow> part_ptr \<Rightarrow> bool" where
  "apart p q \<longleftrightarrow> fst p \<noteq> fst q \<or> snd p + 16 \<le> snd q \<or> snd q + 16 \<le> snd p"

lemma part_byte_set:
  "part_byte (set_part_byte p k v st) q j =
     (if fst p = fst q \<and> snd p + k = snd q + j \<and> snd q + j < length (bufs st (fst q)) then v else part_byte st q j)"
  by (cases "snd p + k = snd q + j") (auto simp: part_byte_def set_part_byte_def list_update_beyond)

lemma in_buf_set [simp]: "in_buf (set_part_byte p k v st) q = in_buf st q"
  by (simp add: in_buf_def set_part_byte_def)

lemma part_byte_set_same [simp]:
  "in_buf st p \<Longrightarrow> k < 16 \<Longrightarrow> j < 16 \<Longrightarrow> part_byte (set_part_byte p k v st) p j = (if k = j then v else part_byte st p j)"
  by (auto simp: part_byte_set in_buf_def)

lemma part_byte_set_apart [simp]:
  "apart p q \<Longrightarrow> k < 16 \<Longrightarrow> j < 16 \<Longrightarrow> part_byte (set_part_byte p k v st) q j = part_byte st q j"
  by (auto simp: part_byte_set apart_def)

lemma set_part_byte_fields [simp]:
  "ptes (set_part_byte p k v st) = ptes st"
  "g_sectors (set_part_byte p k v st) = g_sectors st" "g_heads (set_part_byte p k v st) = g_heads st"
  "g_partitions (set_part_byte p k v st) = g_partitions st" "nbufs (set_part_byte p k v st) = nbufs st"
  "dos_compatible_flag (set_part_byte p k v st) = dos_compatible_flag st"
  "extended_offset (set_part_byte p k v st) = extended_offset st" "ext_index (set_part_byte p k v st) = ext_index st"
  "length (bufs (set_part_byte p k v st) b) = length (bufs st b)"
  by (simp_all add: set_part_byte_def)

lemma bytes_u32: "ucast (ucast v :: u8) OR push_bit 8 (ucast (ucast (drop_bit 8 v) :: u8))
     OR push_bit 16 (ucast (ucast (drop_bit 16 v) :: u8)) OR push_bit 24 (ucast (ucast (drop_bit 24 v) :: u8)) = (v :: u32)"
proof (rule bit_word_eqI)
  fix n assume "n < LENGTH(32)"
  then show "bit (ucast (ucast v :: u8) OR push_bit 8 (ucast (ucast (drop_bit 8 v) :: u8))
     OR push_bit 16 (ucast (ucast (drop_bit 16 v) :: u8)) OR push_bit 24 (ucast (ucast (drop_bit 24 v) :: u8)) :: u32) n = bit v n"
    by (cases "n < 8"; cases "n < 16"; cases "n < 24") (auto simp: bit_simps)
qed

lemma read4_store4_same:
  assumes "in_buf st p" "k + 4 \<le> 16" "j + 4 \<le> 16"
  shows "k = j \<Longrightarrow> read4_little_endian (store4_little_endian p k v st) p j = v"
    and "k + 4 \<le> j \<or> j + 4 \<le> k \<Longrightarrow> read4_little_endian (store4_little_endian p k v st) p j = read4_little_endian st p j"
  using assms by (auto simp: read4_little_endian_def store4_little_endian_def bytes_u32)

lemma set_start_nr [simp]:
  assumes "in_buf st p"
  shows "get_start_sect (set_start_sect p v st) p = v" "get_nr_sects (set_nr_sects p v st) p = v"
    and "get_start_sect (set_nr_sects p v st) p = get_start_sect st p" "get_nr_sects (set_start_sect p v st) p = get_nr_sects st p"
  using assms by (simp_all add: get_start_sect_def get_nr_sects_def set_start_sect_def set_nr_sects_def read4_store4_same)

text \<open>A change of entry \<open>p\<close> alone: everything else is kept.\<close>

definition only :: "part_ptr \<Rightarrow> fdisk \<Rightarrow> fdisk \<Rightarrow> bool" where
  "only p st st' \<longleftrightarrow> (\<exists>b. st' = st\<lparr>bufs := b\<rparr> \<and> (\<forall>c. length (b c) = length (bufs st c))
     \<and> (\<forall>q j. apart p q \<longrightarrow> j < 16 \<longrightarrow> part_byte st' q j = part_byte st q j))"

lemma only_refl: "only p st st"
  by (auto simp: only_def intro!: exI [of _ "bufs st"])

lemma only_set: "only p st st' \<Longrightarrow> k < 16 \<Longrightarrow> only p st (set_part_byte p k v st')"
  by (auto simp: only_def set_part_byte_def part_byte_def apart_def nth_list_update)

lemma only_store4: "only p st st' \<Longrightarrow> k + 4 \<le> 16 \<Longrightarrow> only p st (store4_little_endian p k v st')"
  unfolding store4_little_endian_def by (intro only_set) auto

lemma only_hsc: "only p st st' \<Longrightarrow> k + 3 \<le> 16 \<Longrightarrow> only p st (set_hsc p k v st')"
  unfolding set_hsc_def Let_def by (intro only_set) auto

lemma onlyD:
  assumes "only p st st'"
  shows "ptes st' = ptes st" "g_partitions st' = g_partitions st" "nbufs st' = nbufs st" "in_buf st' q = in_buf st q"
    "extended_offset st' = extended_offset st" "ext_index st' = ext_index st" "length (bufs st' b) = length (bufs st b)"
    "apart p q \<Longrightarrow> j < 16 \<Longrightarrow> part_byte st' q j = part_byte st q j"
  using assms by (auto simp: only_def in_buf_def; cases q; simp)+

lemma read4_cong:
  assumes "\<And>j. j < 16 \<Longrightarrow> part_byte st' q j = part_byte st q j" "k + 4 \<le> 16"
  shows "read4_little_endian st' q k = read4_little_endian st q k"
  using assms by (simp add: read4_little_endian_def)

text \<open>What \<open>set_partition\<close> stores, before the flag for the write is set.\<close>

definition store_partition :: "part_ptr \<Rightarrow> u32 \<Rightarrow> u32 \<Rightarrow> u32 \<Rightarrow> u8 \<Rightarrow> fdisk \<Rightarrow> fdisk" where
  "store_partition p offset start stop sysid st =
     set_hsc_start_end p start stop (set_nr_sects p (stop - start + 1)
       (set_start_sect p (start - offset) (set_part_byte p 4 sysid (set_part_byte p 0 0 st))))"

lemma set_partition_store:
  "set_partition i doext start stop sysid st =
     set_changed i (store_partition (if doext then the (ext_pointer (ptes st ! i)) else get_part_table st i)
       (if doext then extended_offset st else offset_from_dev_start (ptes st ! i)) start stop sysid st)"
  by (simp add: set_partition_def store_partition_def Let_def)

lemma set_hsc_byte: "in_buf st p \<Longrightarrow> k + 3 \<le> 16 \<Longrightarrow> j < 16 \<Longrightarrow> j < k \<or> k + 3 \<le> j \<Longrightarrow> part_byte (set_hsc p k v st) p j = part_byte st p j"
  by (auto simp: set_hsc_def Let_def)

lemma in_buf_hsc [simp]: "in_buf (set_hsc p k v st) q = in_buf st q"
  by (simp add: set_hsc_def Let_def)

lemma store_partition_only: "only p st (store_partition p offset start stop sysid st)"
  unfolding store_partition_def set_hsc_start_end_def set_nr_sects_def set_start_sect_def Let_def
  by (intro only_hsc only_store4 only_set only_refl) auto

lemma in_buf_store4 [simp]: "in_buf (store4_little_endian p k v st) q = in_buf st q"
  by (simp add: store4_little_endian_def)

lemma store_partition_fields:
  assumes "in_buf st p"
  shows "sys_ind (store_partition p offset start stop sysid st) p = sysid"
    and "get_start_sect (store_partition p offset start stop sysid st) p = start - offset"
    and "get_nr_sects (store_partition p offset start stop sysid st) p = stop - start + 1"
proof -
  let ?s = "set_nr_sects p (stop - start + 1) (set_start_sect p (start - offset) (set_part_byte p 4 sysid (set_part_byte p 0 0 st)))"
  have b: "part_byte (store_partition p offset start stop sysid st) p j = part_byte ?s p j" if "j = 4 \<or> 8 \<le> j" "j < 16" for j
    using assms that by (auto simp: store_partition_def set_hsc_start_end_def Let_def set_hsc_byte set_nr_sects_def set_start_sect_def)
  have 4: "part_byte ?s p 4 = sysid"
    using assms by (simp add: set_nr_sects_def set_start_sect_def store4_little_endian_def)
  show "sys_ind (store_partition p offset start stop sysid st) p = sysid" using b [of 4] 4 by simp
  have r: "read4_little_endian (store_partition p offset start stop sysid st) p k = read4_little_endian ?s p k" if "k = 8 \<or> k = 12" for k
    using b that by (auto simp: read4_little_endian_def)
  show "get_start_sect (store_partition p offset start stop sysid st) p = start - offset"
    "get_nr_sects (store_partition p offset start stop sysid st) p = stop - start + 1"
    using assms r by (simp_all add: get_start_sect_def get_nr_sects_def set_nr_sects_def set_start_sect_def read4_store4_same)
qed

section \<open>The invariant of the entries\<close>

definition wf_logical :: "fdisk \<Rightarrow> nat \<Rightarrow> bool" where
  "wf_logical st i \<longleftrightarrow> (let e = ptes st ! i in
     0 < sectorbuffer e \<and> sectorbuffer e < nbufs st
     \<and> list_ex (\<lambda>a. part_table e = Some (pt_offset (sectorbuffer e) a)
          \<and> list_ex (\<lambda>b. ext_pointer e = Some (pt_offset (sectorbuffer e) b) \<and> a \<noteq> b) [0..<4]) [0..<4])"

definition wf_fdisk :: "fdisk \<Rightarrow> bool" where
  "wf_fdisk st \<longleftrightarrow> length (ptes st) = MAXIMUM_PARTS \<and> 4 \<le> g_partitions st \<and> g_partitions st \<le> MAXIMUM_PARTS
     \<and> (\<forall>i < 4. part_table (ptes st ! i) = Some (pt_offset 0 i) \<and> offset_from_dev_start (ptes st ! i) = 0 \<and> sectorbuffer (ptes st ! i) = 0)
     \<and> (\<forall>i \<in> {4..<g_partitions st}. wf_logical st i)
     \<and> inj_on (\<lambda>i. sectorbuffer (ptes st ! i)) {4..<g_partitions st}
     \<and> 0 < nbufs st \<and> (\<forall>b < nbufs st. 512 \<le> length (bufs st b))"

lemma wf_primary:
  assumes "wf_fdisk st" "i < 4"
  shows "part_table (ptes st ! i) = Some (pt_offset 0 i)" "get_part_table st i = pt_offset 0 i"
    "offset_from_dev_start (ptes st ! i) = 0" "sectorbuffer (ptes st ! i) = 0"
  using assms by (simp_all add: wf_fdisk_def get_part_table_def)

lemma wf_logicalE:
  assumes "wf_fdisk st" "4 \<le> i" "i < g_partitions st"
  obtains a b where "a < 4" "b < 4" "a \<noteq> b" "part_table (ptes st ! i) = Some (pt_offset (sectorbuffer (ptes st ! i)) a)"
    "ext_pointer (ptes st ! i) = Some (pt_offset (sectorbuffer (ptes st ! i)) b)"
    "0 < sectorbuffer (ptes st ! i)" "sectorbuffer (ptes st ! i) < nbufs st"
proof -
  have "wf_logical st i" using assms by (simp add: wf_fdisk_def)
  then show ?thesis using that by (auto simp: wf_logical_def Let_def list_ex_iff)
qed

lemma wf_slot:
  assumes "wf_fdisk st" "i < g_partitions st"
  shows "\<exists>a < 4. get_part_table st i = pt_offset (sectorbuffer (ptes st ! i)) a" "sectorbuffer (ptes st ! i) < nbufs st"
    "sectorbuffer (ptes st ! i) = 0 \<longleftrightarrow> i < 4"
proof -
  have "(\<exists>a < 4. get_part_table st i = pt_offset (sectorbuffer (ptes st ! i)) a) \<and> sectorbuffer (ptes st ! i) < nbufs st
      \<and> (sectorbuffer (ptes st ! i) = 0 \<longleftrightarrow> i < 4)"
  proof (cases "i < 4")
    case True
    then show ?thesis using wf_primary [OF assms(1) True] assms(1) by (auto simp: wf_fdisk_def)
  next
    case False
    then show ?thesis using assms by (auto elim!: wf_logicalE [of st i] simp: get_part_table_def)
  qed
  then show "\<exists>a < 4. get_part_table st i = pt_offset (sectorbuffer (ptes st ! i)) a" "sectorbuffer (ptes st ! i) < nbufs st"
    "sectorbuffer (ptes st ! i) = 0 \<longleftrightarrow> i < 4" by blast+
qed

lemma pt_offset_apart: "a < 4 \<Longrightarrow> b < 4 \<Longrightarrow> c \<noteq> d \<or> a \<noteq> b \<Longrightarrow> apart (pt_offset c a) (pt_offset d b)"
  by (auto simp: apart_def pt_offset_def)

lemma wf_in_buf:
  assumes "wf_fdisk st" "i < g_partitions st"
  shows "in_buf st (get_part_table st i)"
  using wf_slot [OF assms] assms(1) by (auto simp: in_buf_def pt_offset_def wf_fdisk_def)

lemma wf_apart:
  assumes "wf_fdisk st" "i < g_partitions st" "j < g_partitions st" "i \<noteq> j"
  shows "apart (get_part_table st i) (get_part_table st j)"
proof (cases "i < 4 \<and> j < 4")
  case True
  then show ?thesis using wf_primary(2) [OF assms(1)] assms(4) by (auto intro: pt_offset_apart)
next
  case False
  have "sectorbuffer (ptes st ! i) \<noteq> sectorbuffer (ptes st ! j)"
  proof (cases "i < 4 \<or> j < 4")
    case True
    then show ?thesis using False wf_slot(3) [OF assms(1,2)] wf_slot(3) [OF assms(1,3)] by auto
  next
    case False
    have "inj_on (\<lambda>i. sectorbuffer (ptes st ! i)) {4..<g_partitions st}" using assms(1) by (simp add: wf_fdisk_def)
    from inj_onD [OF this, of i j] show ?thesis using False assms(2-4) by auto
  qed
  then show ?thesis using wf_slot(1) [OF assms(1,2)] wf_slot(1) [OF assms(1,3)] by (auto intro: pt_offset_apart)
qed

text \<open>A partition stored in one entry leaves the bounds of all others alone.\<close>

lemma upd_pte_fields [simp]:
  "bufs (upd_pte i f st) = bufs st" "g_partitions (upd_pte i f st) = g_partitions st" "nbufs (upd_pte i f st) = nbufs st"
  "part_byte (upd_pte i f st) p k = part_byte st p k" "extended_offset (upd_pte i f st) = extended_offset st"
  "ext_index (upd_pte i f st) = ext_index st" "length (ptes (upd_pte i f st)) = length (ptes st)"
  "input (upd_pte i f st) = input st" "disk (upd_pte i f st) = disk st"
  by (simp_all add: upd_pte_def part_byte_def)

lemma upd_pte_nth: "i < length (ptes st) \<Longrightarrow> ptes (upd_pte i f st) ! j = (if j = i then f (ptes st ! i) else ptes st ! j)"
  by (simp add: upd_pte_def nth_list_update)

lemma set_changed_pte:
  "part_table (ptes (set_changed i st) ! j) = part_table (ptes st ! j)" "ext_pointer (ptes (set_changed i st) ! j) = ext_pointer (ptes st ! j)"
  "offset_from_dev_start (ptes (set_changed i st) ! j) = offset_from_dev_start (ptes st ! j)"
  "sectorbuffer (ptes (set_changed i st) ! j) = sectorbuffer (ptes st ! j)"
  by (cases "i < length (ptes st)"; auto simp: set_changed_def upd_pte_def nth_list_update list_update_beyond)+

lemma set_changed_bytes [simp]:
  "part_byte (set_changed i st) p k = part_byte st p k" "get_part_table (set_changed i st) j = get_part_table st j"
  "get_start_sect (set_changed i st) p = get_start_sect st p" "get_nr_sects (set_changed i st) p = get_nr_sects st p"
  "g_partitions (set_changed i st) = g_partitions st" "bufs (set_changed i st) = bufs st" "nbufs (set_changed i st) = nbufs st"
  by (simp_all add: get_part_table_def set_changed_pte get_start_sect_def get_nr_sects_def read4_little_endian_def)
    (simp_all add: set_changed_def)

lemma bound_set_changed [simp]: "bound (set_changed i st) j = bound st j"
  by (simp add: bound_def get_partition_start_from_dev_start_def set_changed_pte Let_def)

lemma only_bound:
  assumes "only p st st'" "apart p (get_part_table st j)"
  shows "bound st' j = bound st j"
proof -
  have "get_part_table st' j = get_part_table st j" using onlyD(1) [OF assms(1)] by (simp add: get_part_table_def)
  moreover have "part_byte st' (get_part_table st j) k = part_byte st (get_part_table st j) k" if "k < 16" for k
    using onlyD(8) [OF assms that] .
  moreover from this have "read4_little_endian st' (get_part_table st j) k = read4_little_endian st (get_part_table st j) k" if "k = 8 \<or> k = 12" for k
    using that by (intro read4_cong) auto
  ultimately show ?thesis
    using onlyD(1) [OF assms(1)]
    by (simp add: bound_def get_partition_start_from_dev_start_def get_start_sect_def get_nr_sects_def Let_def)
qed

lemma set_partition_bounds:
  assumes "wf_fdisk st" "n < g_partitions st" "sysid \<noteq> 0" "\<not> IS_EXTENDED sysid" "st' = set_partition n False start stop sysid st"
  shows "bound st' n = (start, stop)" "\<And>i. i < g_partitions st \<Longrightarrow> i \<noteq> n \<Longrightarrow> bound st' i = bound st i"
proof -
  let ?p = "get_part_table st n" and ?off = "offset_from_dev_start (ptes st ! n)"
  let ?s = "store_partition ?p ?off start stop sysid st"
  have st': "st' = set_changed n ?s" using assms(5) by (simp add: set_partition_store)
  have only: "only ?p st ?s" by (rule store_partition_only)
  have p: "get_part_table ?s n = ?p" using onlyD(1) [OF only] by (simp add: get_part_table_def)
  show "bound st' n = (start, stop)"
    using store_partition_fields [OF wf_in_buf [OF assms(1,2)], of ?off start stop sysid] assms(3,4) onlyD(1) [OF only]
    by (simp add: st' bound_def p get_partition_start_from_dev_start_def set_changed_pte Let_def)
  show "bound st' i = bound st i" if "i < g_partitions st" "i \<noteq> n" for i
    unfolding st' bound_set_changed
    using only_bound [OF only] wf_apart [OF assms(1,2) that(1)] that(2) by simp
qed

lemma wf_only:
  assumes "only p st st'"
  shows "wf_fdisk st' = wf_fdisk st"
  using onlyD(1-3,7) [OF assms] by (simp add: wf_fdisk_def wf_logical_def)

lemma wf_set_changed [simp]: "wf_fdisk (set_changed i st) = wf_fdisk st"
  by (simp add: wf_fdisk_def wf_logical_def set_changed_pte Let_def) (simp add: set_changed_def)

lemma wf_set_partition: "wf_fdisk (set_partition n doext start stop sysid st) = wf_fdisk st"
  unfolding set_partition_store wf_set_changed by (rule wf_only [OF store_partition_only])

section \<open>Finding a free start\<close>

text \<open>No sum in a pass exceeds 32 bits.\<close>

definition no_wrap :: "u32 \<Rightarrow> u32 \<Rightarrow> ((u32 \<times> u32) \<times> u32) list \<Rightarrow> bool" where
  "no_wrap soff extra es \<longleftrightarrow>
     list_all (\<lambda>((f, l), off). unat l + unat extra + 1 < 2 ^ 32 \<and> unat off + unat soff < 2 ^ 32) es"

lemma unat_add_small: "unat a + unat b < 2 ^ 32 \<Longrightarrow> unat (a + b :: u32) = unat a + unat b"
  by (simp add: unat_word_ariths)

lemma unat_add1: "unat a + 1 < 2 ^ 32 \<Longrightarrow> unat (a + 1 :: u32) = unat a + 1"
  by (simp add: unat_word_ariths)

lemma pass_step_up:
  assumes "unat l + unat extra + 1 < 2 ^ 32" "unat off + unat soff < 2 ^ 32"
  shows "s \<le> pass_step soff extra ((f, l), off) s"
proof -
  define s1 where "s1 = (if s = off then s + soff else s)"
  have "unat s \<le> unat s1" using unat_add_small [of off soff] assms(2) by (auto simp: s1_def)
  moreover have "unat (l + extra) = unat l + unat extra" "unat (l + extra + 1) = unat l + unat extra + 1"
    using assms(1) unat_add_small [of l extra] unat_add1 [of "l + extra"] by simp_all
  ultimately have "unat s \<le> unat (if f \<le> s1 \<and> s1 \<le> l + extra then l + extra + 1 else s1)"
    by (auto simp: word_le_nat_alt)
  moreover have "pass_step soff extra ((f, l), off) s = (if f \<le> s1 \<and> s1 \<le> l + extra then l + extra + 1 else s1)"
    by (simp add: pass_step_def Let_def s1_def)
  ultimately show ?thesis by (simp add: word_le_nat_alt)
qed

lemma add_pass_up: "no_wrap soff extra es \<Longrightarrow> s \<le> add_pass soff extra es s"
proof (induction es arbitrary: s)
  case (Cons e es)
  obtain f l off where e: "e = ((f, l), off)" by (metis prod.exhaust)
  have "s \<le> pass_step soff extra e s" using Cons.prems pass_step_up by (simp add: no_wrap_def e)
  also have "\<dots> \<le> add_pass soff extra es (pass_step soff extra e s)" using Cons by (simp add: no_wrap_def)
  finally show ?case by (simp add: add_pass_def)
qed (simp add: add_pass_def)

text \<open>
  Entries in the order of the disk: each begins behind all that stand before it in the table, or
  lies inside one of them as a logical partition does; its sector of the chain lies inside one of
  them, too, or is the first sector.
\<close>

definition placed_after :: "((u32 \<times> u32) \<times> u32) list \<Rightarrow> (u32 \<times> u32) \<times> u32 \<Rightarrow> bool" where
  "placed_after before = (\<lambda>((f, l), off).
     (off = 0 \<or> list_ex (\<lambda>e. fst (fst e) \<le> off \<and> off \<le> snd (fst e)) before)
     \<and> (f \<le> l \<longrightarrow> list_all (\<lambda>e. snd (fst e) < f) before \<or> list_ex (\<lambda>e. fst (fst e) \<le> f \<and> l \<le> snd (fst e)) before))"

fun in_order_after :: "((u32 \<times> u32) \<times> u32) list \<Rightarrow> ((u32 \<times> u32) \<times> u32) list \<Rightarrow> bool" where
  "in_order_after before [] = True"
| "in_order_after before (e # es) = (placed_after before e \<and> in_order_after (before @ [e]) es)"

abbreviation in_order :: "((u32 \<times> u32) \<times> u32) list \<Rightarrow> bool" where
  "in_order es \<equiv> in_order_after [] es"

definition free_at :: "u32 \<Rightarrow> ((u32 \<times> u32) \<times> u32) list \<Rightarrow> bool" where
  "free_at s es \<longleftrightarrow> list_all (\<lambda>((f, l), off). \<not> (f \<le> s \<and> s \<le> l)) es"

lemma in_order_snoc: "in_order_after before (es @ [e]) \<longleftrightarrow> in_order_after before es \<and> placed_after (before @ es) e"
  by (induction es arbitrary: before) auto

lemma ordered_pass_free:
  assumes "in_order es" "no_wrap soff 0 es" "0 < s"
  shows "free_at (add_pass soff 0 es s) es"
  using assms
proof (induction es arbitrary: s rule: rev_induct)
  case (snoc e es)
  obtain f l off where e: "e = ((f, l), off)" by (metis prod.exhaust)
  define t where "t = add_pass soff 0 es s"
  have w: "no_wrap soff 0 es" "unat l + 1 < 2 ^ 32" using snoc.prems(2) by (simp_all add: no_wrap_def e)
  have o: "in_order es" "off = 0 \<or> (\<exists>e \<in> set es. fst (fst e) \<le> off \<and> off \<le> snd (fst e))"
    "f \<le> l \<longrightarrow> (\<forall>e \<in> set es. snd (fst e) < f) \<or> (\<exists>e \<in> set es. fst (fst e) \<le> f \<and> l \<le> snd (fst e))"
    using snoc.prems(1) by (auto simp: e in_order_snoc placed_after_def list_ex_iff list_all_iff)
  have free: "free_at t es" using snoc.IH [OF o(1) w(1) snoc.prems(3)] by (simp add: t_def)
  then have out: "\<not> (fst (fst x) \<le> t \<and> t \<le> snd (fst x))" if "x \<in> set es" for x
    using that by (cases x) (auto simp: free_at_def list_all_iff)
  have "s \<le> t" unfolding t_def using w(1) by (rule add_pass_up)
  then have "0 < t" using snoc.prems(3) by (rule less_le_trans [rotated])
  then have "t \<noteq> off" using o(2) out by auto
  then have step: "add_pass soff 0 (es @ [e]) s = (if f \<le> t \<and> t \<le> l then l + 1 else t)"
  proof -
    have "add_pass soff 0 (es @ [e]) s = pass_step soff 0 e t" by (simp add: add_pass_def t_def)
    then show ?thesis using \<open>t \<noteq> off\<close> by (simp add: pass_step_def e)
  qed
  show ?case
  proof (cases "f \<le> t \<and> t \<le> l")
    case True
    have "unat (l + 1) = unat l + 1" using w(2) by (rule unat_add1)
    then have gt: "l < l + 1" by (simp add: word_less_nat_alt)
    have "\<forall>x \<in> set es. snd (fst x) < f"
    proof (rule ccontr)
      assume "\<not> ?thesis"
      then obtain x where "x \<in> set es" "fst (fst x) \<le> f" "l \<le> snd (fst x)" using o(3) True by fastforce
      then show False using out [of x] True by (meson order_trans)
    qed
    then have "\<not> l + 1 \<le> snd (fst x)" if "x \<in> set es" for x
      using that True gt by (meson leD less_le_trans less_trans order_trans)
    moreover have "add_pass soff 0 (es @ [e]) s = l + 1" using step True by simp
    ultimately show ?thesis using gt by (fastforce simp: free_at_def list_all_iff e)
  next
    case False
    then have "add_pass soff 0 (es @ [e]) s = t" using step by auto
    then show ?thesis using free False by (simp add: free_at_def) (simp add: e)
  qed
qed (simp add: free_at_def)

section \<open>Reading answers leaves the table alone\<close>

definition same_table :: "fdisk \<Rightarrow> fdisk \<Rightarrow> bool" where
  "same_table st st' \<longleftrightarrow> st' = st\<lparr>input := input st', line_ptr := line_ptr st'\<rparr>"

lemma same_table_refl [simp]: "same_table st st"
  by (simp add: same_table_def)

lemma same_table_trans: "same_table a b \<Longrightarrow> same_table b c \<Longrightarrow> same_table a c"
  by (cases a; cases b; cases c) (simp add: same_table_def)

lemma same_tableD:
  assumes "same_table st st'"
  shows "ptes st' = ptes st" "bufs st' = bufs st" "nbufs st' = nbufs st" "g_partitions st' = g_partitions st"
    "units_per_sector st' = units_per_sector st" "sector_offset st' = sector_offset st"
    "display_in_cyl_units st' = display_in_cyl_units st" "extended_offset st' = extended_offset st" "ext_index st' = ext_index st"
    "sector_size st' = sector_size st" "cround st' x = cround st x" "bound st' i = bound st i" "wf_fdisk st' = wf_fdisk st"
proof -
  obtain inp lp where s: "st' = st\<lparr>input := inp, line_ptr := lp\<rparr>" using assms by (auto simp: same_table_def)
  show "ptes st' = ptes st" "bufs st' = bufs st" "nbufs st' = nbufs st" "g_partitions st' = g_partitions st"
    "units_per_sector st' = units_per_sector st" "sector_offset st' = sector_offset st"
    "display_in_cyl_units st' = display_in_cyl_units st" "extended_offset st' = extended_offset st" "ext_index st' = ext_index st"
    "sector_size st' = sector_size st" "cround st' x = cround st x" "bound st' i = bound st i" "wf_fdisk st' = wf_fdisk st"
    by (simp_all add: s cround_def bound_def get_part_table_def part_byte_def get_partition_start_from_dev_start_def
        get_start_sect_def get_nr_sects_def read4_little_endian_def wf_fdisk_def wf_logical_def Let_def)
qed

lemma read_line_same: "read_line st = Inr st' \<Longrightarrow> same_table st st'"
  by (auto simp: read_line_def same_table_def split: list.splits)

lemma same_table_line: "same_table st x \<Longrightarrow> same_table st (x\<lparr>line_ptr := l\<rparr>)"
  by (cases st; cases x) (simp add: same_table_def)

lemma read_maybe_empty_same: "read_maybe_empty st = Inr st' \<Longrightarrow> same_table st st'"
  using read_line_same same_table_line by (auto simp: read_maybe_empty_def split: if_splits)

lemma read_answer_same: "read_answer st = Inr st' \<Longrightarrow> same_table st st'"
proof (induction st rule: read_answer.induct)
  case (1 st)
  note e = 1(2) [unfolded read_answer.simps [of st] Let_def]
  then obtain s1 where s1: "read_maybe_empty st = Inr s1" by auto
  have "same_table s1 st'" using e 1(1) [OF s1 refl] s1 by (auto split: if_splits)
  then show ?case using read_maybe_empty_same [OF s1] same_table_trans by blast
qed

lemma read_int_facts:
  "read_int low dflt high base st = Inr (v, st') \<Longrightarrow>
   low \<le> v \<and> v \<le> high \<and> same_table st st' \<and> length (input st') < length (input st)"
proof (induction low dflt high base st rule: read_int.induct)
  case (1 low dflt high base st)
  note e = 1(2) [unfolded read_int.simps [of low dflt high base st] Let_def]
  then obtain s1 where s1: "read_answer st = Inr s1" by auto
  obtain v1 given where a: "answer_value s1 base = (v1, given)" by fastforce
  define val where "val = (if (low \<le> dflt \<and> dflt \<le> high) \<and> \<not> given then dflt else v1)"
  show ?case
  proof (cases "low \<le> val \<and> val \<le> high")
    case True
    then have "v = val" "st' = s1" using e s1 a by (simp_all add: val_def)
    then show ?thesis using True read_answer_same [OF s1] read_answer_shorter [OF s1] by simp
  next
    case False
    have "(if low \<le> val \<and> val \<le> high then Inr (val, s1) else read_int low dflt high base s1) = Inr (v, st')"
      using e [unfolded s1 and_then_simps a prod.case, folded val_def] .
    then have "read_int low dflt high base s1 = Inr (v, st')" using False by simp
    then have "low \<le> v \<and> v \<le> high \<and> same_table s1 st' \<and> length (input st') < length (input s1)"
      using 1(1) [OF s1 refl a [symmetric] refl val_def] False by blast
    then show ?thesis using read_answer_same [OF s1] read_answer_shorter [OF s1] same_table_trans less_trans by blast
  qed
qed

lemma ask_start_facts:
  assumes "ask_start saved limit st = Inr (s, st')"
  shows "saved \<le> s" "same_table st st'" "length (input st') < length (input st)"
proof -
  obtain v where v: "read_int (cround st saved) (cround st saved) (cround st limit) 0 st = Inr (v, st')"
      "s = (if display_in_cyl_units st' \<and> (v - 1) * units_per_sector st' < saved then saved
        else if display_in_cyl_units st' then (v - 1) * units_per_sector st' else v)"
    using assms by (auto simp: ask_start_def Let_def split: prod.splits if_splits)
  note f = read_int_facts [OF v(1)]
  show "saved \<le> s" using v(2) f same_tableD(7) [of st st'] by (auto simp: cround_def split: if_splits)
  show "same_table st st'" "length (input st') < length (input st)" using f by blast+
qed

text \<open>
  The loop always ends: without an answer the start grows, and every answer takes a line of the
  input.
\<close>

lemma add_loop_returns:
  assumes "no_wrap (sector_offset st) extra es"
  shows "\<exists>r. add_loop extra es limit st temp nr = Some r"
  using assms
proof (induction "(length (input st), 2 ^ 32 - unat temp)" arbitrary: st temp nr rule: wf_induct [OF wf_lex_prod [OF wf_less_than wf_less_than]])
  case (1 st temp nr)
  define start where "start = add_pass (sector_offset st) extra es temp"
  define again where "again = (start \<ge> temp + units_per_sector st \<and> nr)"
  have up: "temp \<le> start" unfolding start_def using 1(2) by (rule add_pass_up)
  note ih = 1(1) [rule_format, OF _ refl]
  have e: "add_loop extra es limit st temp nr =
     (if start > limit then Some (Inr (start, st))
      else let temp' = (if again then start else temp); read = (nr \<and> \<not> again)
        in if \<not> read \<and> start = temp' then
             (case ask_start start limit st of
                Inl e \<Rightarrow> Some (Inl e)
              | Inr r \<Rightarrow> if fst r = temp' then Some (Inr r) else add_loop extra es limit (snd r) (fst r) True)
           else if start \<noteq> temp' \<or> \<not> read then add_loop extra es limit st start read
           else Some (Inr (start, st)))"
    unfolding start_def again_def by (subst add_loop.simps) (simp only: Let_def)
  have asked: "\<exists>r. add_loop extra es limit s' v True = Some r" if "ask_start start limit st = Inr (v, s')" for v s'
  proof -
    note f = ask_start_facts [OF that]
    show ?thesis using f 1(2) same_tableD(6) [OF f(2)] by (intro ih) auto
  qed
  have further: "\<exists>r. add_loop extra es limit st start (nr \<and> \<not> again) = Some r" if "start \<noteq> (if again then start else temp)"
  proof -
    have "temp < start" using up that by (auto split: if_splits)
    then have "2 ^ 32 - unat start < 2 ^ 32 - unat temp"
      using unsigned_less [of start, where 'a = nat] by (intro diff_less_mono2) (auto simp: word_less_nat_alt)
    then show ?thesis using 1(2) by (intro ih) auto
  qed
  show ?case
    unfolding e Let_def using asked further by (auto split: sum.split)
qed

text \<open>Where the loop ends in a table in order, the start is free or behind the limit.\<close>

lemma add_loop_free:
  assumes "add_loop 0 es limit st temp nr = Some (Inr (s, st'))"
    and "in_order es" "no_wrap (sector_offset st) 0 es" "0 < temp"
  shows "temp \<le> s \<and> same_table st st' \<and> (s > limit \<or> free_at s es)"
proof -
  have "in_order es \<longrightarrow> no_wrap (sector_offset st) extra es \<longrightarrow> 0 < temp \<longrightarrow> extra = 0 \<longrightarrow> r = Inr (s, st') \<longrightarrow>
      temp \<le> s \<and> same_table st st' \<and> (s > limit \<or> free_at s es)"
    if "add_loop extra es limit st temp nr = Some r" for extra es limit st temp nr r
    using that
  proof (induction rule: add_loop.raw_induct [rotated, consumes 1, case_names step])
    case (step loop extra es limit st temp nr r)
    show ?case
    proof (intro impI)
      assume a: "in_order es" "no_wrap (sector_offset st) extra es" "0 < temp" "extra = 0" "r = Inr (s, st')"
      define start where "start = add_pass (sector_offset st) extra es temp"
      have up: "temp \<le> start" unfolding start_def using a(2) by (rule add_pass_up)
      have free: "free_at start es" unfolding start_def a(4) using ordered_pass_free a(1-4) by blast
      have pos: "0 < start" using up a(3) by (rule less_le_trans [rotated])
      show "temp \<le> s \<and> same_table st st' \<and> (s > limit \<or> free_at s es)"
      proof (cases "start > limit")
        case True
        then show ?thesis using step(2) up a(5) by (auto simp: start_def Let_def)
      next
        case False
        define again where "again = (start \<ge> temp + units_per_sector st \<and> nr)"
        define temp' where "temp' = (if again then start else temp)"
        note b = step(2) [unfolded Let_def, folded start_def, folded again_def, folded temp'_def]
        show ?thesis
        proof (cases "\<not> (nr \<and> \<not> again) \<and> start = temp'")
          case True
          then obtain v s1 where k: "ask_start start limit st = Inr (v, s1)"
            using b False a(5) by (auto split: sum.splits)
          note f = ask_start_facts [OF k]
          show ?thesis
          proof (cases "v = temp'")
            case True
            then show ?thesis using b False k a(5) \<open>\<not> (nr \<and> \<not> again) \<and> start = temp'\<close> up free f(2) by simp
          next
            case v: False
            have vpos: "0 < v" using pos f(1) by (rule less_le_trans)
            have nw: "no_wrap (sector_offset s1) extra es" using a(2) same_tableD(6) [OF f(2)] by simp
            have "loop extra es limit s1 v True = Some r" using v b False k True by simp
            from step(1) [OF this] have "v \<le> s \<and> same_table s1 st' \<and> (s > limit \<or> free_at s es)"
              using a(1,4,5) vpos nw by blast
            then have vs: "v \<le> s" "same_table s1 st'" "s > limit \<or> free_at s es" by blast+
            have "temp \<le> s" using up f(1) vs(1) by (meson order_trans)
            moreover have "same_table st st'" using f(2) vs(2) by (rule same_table_trans)
            ultimately show ?thesis using vs(3) by simp
          qed
        next
          case notask: False
          show ?thesis
          proof (cases "start \<noteq> temp' \<or> \<not> (nr \<and> \<not> again)")
            case True
            then have "loop extra es limit st start (nr \<and> \<not> again) = Some r" using b False notask by (simp split: if_splits)
            from step(1) [OF this] have "start \<le> s \<and> same_table st st' \<and> (s > limit \<or> free_at s es)"
              using a pos by auto
            then show ?thesis using up order_trans by blast
          next
            case False
            then show ?thesis using b \<open>\<not> limit < start\<close> notask a(5) up free by (simp split: if_splits)
          qed
        qed
      qed
    qed
  qed
  then show ?thesis using assms by blast
qed

section \<open>A new partition overlaps nothing\<close>

lemma pred_less: "a < x \<Longrightarrow> x - 1 < (x :: u32)"
  by (metis gr_implies_not_zero measure_unat unat_eq_zero word_less_nat_alt)

lemma limit_step_le: "limit_step start e lim \<le> lim"
proof -
  obtain f l off where e: "e = ((f, l), off)" by (metis prod.exhaust)
  define l1 where "l1 = (if start < off \<and> lim \<ge> off then off - 1 else lim)"
  have s: "limit_step start e lim = (if start < f \<and> l1 \<ge> f then f - 1 else l1)"
    by (simp add: limit_step_def e Let_def l1_def)
  have "limit_step start e lim \<le> l1" unfolding s using pred_less [of start f] by (auto intro: less_imp_le less_le_trans)
  moreover have "l1 \<le> lim" using pred_less [of start off] by (auto simp: l1_def intro: less_imp_le less_le_trans)
  ultimately show ?thesis by (rule order_trans)
qed

lemma limit_fold_le: "fold (limit_step start) es lim \<le> lim"
  by (induction es arbitrary: lim) (auto intro: order_trans limit_step_le)

lemma limit_fold_below:
  assumes "((f, l), off) \<in> set es" "start < f"
  shows "fold (limit_step start) es lim < f"
  using assms(1)
proof (induction es arbitrary: lim)
  case (Cons e es)
  show ?case
  proof (cases "e = ((f, l), off)")
    case True
    have "f - 1 < f" using assms(2) by (rule pred_less)
    then have "limit_step start e lim < f" using assms(2) by (auto simp: limit_step_def True Let_def not_le)
    then show ?thesis using limit_fold_le [of start es "limit_step start e lim"] by simp
  next
    case False
    then show ?thesis using Cons by simp
  qed
qed simp

lemma ask_stop_facts:
  assumes "ask_stop start limit st = Inr (s, st')" "start \<le> limit"
    and "display_in_cyl_units st \<Longrightarrow> 0 < units_per_sector st \<and> unat limit + unat (units_per_sector st) < 2 ^ 32"
  shows "start \<le> s" "s \<le> limit" "same_table st st'"
proof -
  have "start \<le> s \<and> s \<le> limit \<and> same_table st st'"
  proof (cases "cround st start = cround st limit")
    case True
    then show ?thesis using assms(1,2) by (simp add: ask_stop_def)
  next
    case False
    then obtain v where v: "read_int (cround st start) (cround st limit) (cround st limit) (cround st start) st = Inr (v, st')"
        "s = (if display_in_cyl_units st' \<and> v * units_per_sector st' - 1 > limit then limit
          else if display_in_cyl_units st' then v * units_per_sector st' - 1 else v)"
      using assms(1) by (auto simp: ask_stop_def Let_def split: prod.splits if_splits)
    note f = read_int_facts [OF v(1)]
    note t = same_tableD [of st st']
    show ?thesis
    proof (cases "display_in_cyl_units st")
      case False
      then show ?thesis using f v(2) t by (auto simp: cround_def)
    next
      case True
      define u where "u = units_per_sector st"
      have u: "0 < unat u" "unat limit + unat u < 2 ^ 32" using assms(3) True by (simp_all add: u_def word_less_nat_alt)
      have div: "unat (x div u + 1) = unat x div unat u + 1" if "unat x \<le> unat limit" for x
      proof -
        have "unat x div unat u \<le> unat x" by simp
        then have "unat x div unat u + 1 < 2 ^ 32" using that u by linarith
        then show ?thesis using unat_add1 [of "x div u"] by (simp add: unat_div)
      qed
      have lo: "unat start div unat u + 1 \<le> unat v" and hi: "unat v \<le> unat limit div unat u + 1"
        using f True assms(2) div [of start] div [of limit] by (auto simp: cround_def u_def word_le_nat_alt)
      have "(unat limit div unat u + 1) * unat u \<le> unat limit + unat u" by (simp add: div_times_less_eq_dividend)
      then have "unat v * unat u \<le> unat limit + unat u" using mult_le_mono1 [OF hi] order_trans by blast
      then have vu: "unat (v * u) = unat v * unat u" using u(2) by (simp add: unat_word_ariths)
      have "unat start < (unat start div unat u + 1) * unat u" using u(1) by (simp add: dividend_less_div_times)
      then have big: "unat start < unat v * unat u" using mult_le_mono1 [OF lo] less_le_trans by blast
      then have "v * u \<noteq> 0" using vu by (metis not_less_zero unat_0)
      then have "unat (v * u - 1) = unat v * unat u - 1" using vu by (simp add: unat_minus_one)
      then have "start \<le> v * u - 1" using big by (simp add: word_le_nat_alt)
      then show ?thesis using v(2) f t True assms(2) by (auto simp: u_def)
    qed
  qed
  then show "start \<le> s" "s \<le> limit" "same_table st st'" by blast+
qed

text \<open>The bounds the loop works with contain those of the entries.\<close>

lemma round_down: "0 < units_per_sector st \<Longrightarrow> (cround st f - 1) * units_per_sector st \<le> f" if "display_in_cyl_units st"
proof -
  assume "0 < units_per_sector st"
  define u where "u = units_per_sector st"
  have "unat (f div u) * unat u \<le> unat f" by (simp add: unat_div div_times_less_eq_dividend)
  then have "unat (f div u * u) = unat (f div u) * unat u"
    using unsigned_less [of f, where 'a = nat] by (simp add: unat_word_ariths)
  then show ?thesis using that by (simp add: cround_def u_def word_le_nat_alt unat_div)
qed

lemma add_bounds_cover:
  assumes "i < g_partitions st" "display_in_cyl_units st \<Longrightarrow> 0 < units_per_sector st"
    and "\<not> (n < 4 \<and> extended_offset st \<noteq> 0 \<and> i = ext_index st)"
  shows "fst (add_bounds n st ! i) \<le> fst (bound st i) \<and> snd (add_bounds n st ! i) = snd (bound st i)"
proof -
  have "add_bounds n st ! i = (if display_in_cyl_units st then ((cround st (fst (bound st i)) - 1) * units_per_sector st, snd (bound st i)) else bound st i)"
    using assms(1,3) by (auto simp: add_bounds_def fill_bounds_def Let_def nth_list_update split: prod.split)
  then show ?thesis using round_down [of st "fst (bound st i)"] assms(2) by auto
qed

lemma ext_bound_cover:
  assumes "ext_index st < g_partitions st" "display_in_cyl_units st \<Longrightarrow> 0 < units_per_sector st" "n < 4" "extended_offset st \<noteq> 0"
  shows "fst (add_bounds n st ! ext_index st) \<le> extended_offset st \<and> snd (add_bounds n st ! ext_index st) = ext_last st"
proof -
  have "add_bounds n st ! ext_index st =
      (if display_in_cyl_units st then (cround st (extended_offset st) - 1) * units_per_sector st else extended_offset st, ext_last st)"
    using assms by (auto simp: add_bounds_def fill_bounds_def Let_def)
  then show ?thesis using round_down [of st "extended_offset st"] assms(2) by auto
qed

lemma length_add_bounds [simp]: "length (add_bounds n st) = g_partitions st"
  by (simp add: add_bounds_def fill_bounds_def Let_def)

lemma add_entries_nth:
  "i < g_partitions st \<Longrightarrow> g_partitions st \<le> length (ptes st) \<Longrightarrow>
   add_entries n st ! i = (add_bounds n st ! i, offset_from_dev_start (ptes st ! i)) \<and> i < length (add_entries n st)"
  by (simp add: add_entries_def)

text \<open>What is free behind a free start: up to the lowered limit, all entries are left or right of it.\<close>

lemma free_range:
  assumes "free_at s es" "((f, l), off) \<in> set es" "stop \<le> fold (limit_step s) es limit"
  shows "stop < f \<or> l < s"
proof (cases "s < f")
  case True
  then show ?thesis using limit_fold_below [OF assms(2) True] assms(3) by (auto intro: le_less_trans)
next
  case False
  then show ?thesis using assms(1,2) by (auto simp: free_at_def list_all_iff not_le dest!: bspec)
qed

lemma add_primary_cases:
  assumes "add_partition n sys st = Some (Inr st')" "n < 4" "sys_ind st (get_part_table st n) = 0" "\<not> IS_EXTENDED sys"
    and "in_order (add_entries n st)" "no_wrap (sector_offset st) 0 (add_entries n st)" "0 < sector_offset st"
    and "display_in_cyl_units st \<Longrightarrow> 0 < units_per_sector st \<and> unat (add_limit n st) + unat (units_per_sector st) < 2 ^ 32"
  obtains "same_table st st'"
  | start stop st1 where "same_table st st1" "st' = set_partition n False start stop sys st1" "sector_offset st \<le> start" "start \<le> stop"
      "stop \<le> fold (limit_step start) (add_entries n st) (add_limit n st)" "stop \<le> add_limit n st"
      "free_at start (add_entries n st)"
proof -
  define es limit where "es = add_entries n st" and "limit = add_limit n st"
  obtain r where r: "add_loop 0 es limit st (sector_offset st) False = Some r"
    using add_loop_returns [OF assms(6)] unfolding es_def by blast
  have body: "and_then r (\<lambda>(start0, st1).
             let (start, st2) = place_link n start0 st1;
                 limit2 = fold (limit_step start) (zip (add_bounds n st) (map offset_from_dev_start (take (g_partitions st2) (ptes st2)))) limit
             in if start > limit2 then Inr (if n > 4 then st2\<lparr>g_partitions := g_partitions st2 - 1\<rparr> else st2)
                else and_then (ask_stop start limit2 st2) (\<lambda>(stop, st3). Inr (add_finish n sys start stop st3))) = Inr st'"
    using assms(1-3) r by (simp add: add_partition_def Let_def add_start_def es_def limit_def)
  then obtain s st1 where s: "r = Inr (s, st1)" by (cases r) auto
  have "sector_offset st \<le> s \<and> same_table st st1 \<and> (s > limit \<or> free_at s es)"
    using add_loop_free [OF r [unfolded s]] assms(5-7) es_def by blast
  then have a: "sector_offset st \<le> s" "same_table st st1" "s > limit \<or> free_at s es" by blast+
  define limit2 where "limit2 = fold (limit_step s) es limit"
  have z: "zip (add_bounds n st) (map offset_from_dev_start (take (g_partitions st1) (ptes st1))) = es"
    using same_tableD(1,4) [OF a(2)] by (simp add: es_def add_entries_def)
  have st': "(if s > limit2 then Inr st1 else and_then (ask_stop s limit2 st1) (\<lambda>(stop, st3). Inr (add_finish n sys s stop st3))) = Inr st'"
    using body assms(2) by (simp add: s place_link_def limit2_def Let_def z cong: if_cong)
  show ?thesis
  proof (cases "s > limit2")
    case True
    then show ?thesis using st' a(2) that(1) by simp
  next
    case False
    then obtain stop st3 where k: "ask_stop s limit2 st1 = Inr (stop, st3)" "st' = add_finish n sys s stop st3"
      using st' by (auto split: prod.splits)
    have le: "limit2 \<le> limit" unfolding limit2_def by (rule limit_fold_le)
    have "display_in_cyl_units st1 \<Longrightarrow> 0 < units_per_sector st1 \<and> unat limit2 + unat (units_per_sector st1) < 2 ^ 32"
      using assms(8) same_tableD(5,7) [OF a(2)] le by (auto simp: limit_def word_le_nat_alt)
    note f = ask_stop_facts [OF k(1) leI [OF False] this]
    have "free_at s es" using a(3) False le by (auto dest: less_le_trans le_less_trans simp: not_less)
    moreover have "st' = set_partition n False s stop sys st3"
      using k(2) assms(2,4) by (simp add: add_finish_def)
    ultimately show ?thesis
      using that(2) [OF same_table_trans [OF a(2) f(3)]] a(1) f(1,2) order_trans [OF f(2) le]
      by (simp add: limit2_def es_def limit_def)
  qed
qed

text \<open>
  C28. Whatever is answered, a new primary partition overlaps nothing, provided the entries of the
  table stand in the order of the disk: either there was no room and the table is unchanged, or
  the new entry begins behind the first track, ends within the disk and is disjoint from every
  other partition and from the extended one, and all other entries keep their bounds.
\<close>

theorem fdisk_new_primary_disjoint:
  assumes "wf_fdisk st" "n < 4" "sys_ind st (get_part_table st n) = 0" "sys \<noteq> 0" "\<not> IS_EXTENDED sys"
    and "in_order (add_entries n st)" "no_wrap (sector_offset st) 0 (add_entries n st)" "0 < sector_offset st"
    and "display_in_cyl_units st \<longrightarrow> 0 < units_per_sector st \<and> unat (add_limit n st) + unat (units_per_sector st) < 2 ^ 32"
    and "extended_offset st \<noteq> 0 \<longrightarrow> ext_index st < 4 \<and> IS_EXTENDED (sys_ind st (get_part_table st (ext_index st)))"
    and "add_partition n sys st = Some (Inr st')"
  shows "(\<forall>i < g_partitions st. bound st' i = bound st i)
    \<or> (\<exists>start stop. bound st' n = (start, stop) \<and> sector_offset st \<le> start \<and> start \<le> stop \<and> stop \<le> add_limit n st
        \<and> (\<forall>i < g_partitions st. i \<noteq> n \<longrightarrow> bound st' i = bound st i \<and> (stop < fst (bound st i) \<or> snd (bound st i) < start))
        \<and> (extended_offset st \<noteq> 0 \<longrightarrow> stop < extended_offset st \<or> ext_last st < start))"
proof (rule add_primary_cases [OF assms(11,2,3,5,6,7,8)])
  show "display_in_cyl_units st \<Longrightarrow> 0 < units_per_sector st \<and> unat (add_limit n st) + unat (units_per_sector st) < 2 ^ 32"
    using assms(9) by simp
next
  assume "same_table st st'"
  then show ?thesis using same_tableD(12) by blast
next
  fix start stop st1
  assume a: "same_table st st1" "st' = set_partition n False start stop sys st1" "sector_offset st \<le> start" "start \<le> stop"
      "stop \<le> fold (limit_step start) (add_entries n st) (add_limit n st)" "stop \<le> add_limit n st"
      "free_at start (add_entries n st)"
  note t = same_tableD [OF a(1)]
  have g: "n < g_partitions st" "g_partitions st \<le> length (ptes st)" using assms(1,2) by (auto simp: wf_fdisk_def)
  have wf1: "wf_fdisk st1" and n1: "n < g_partitions st1" using assms(1) t g by auto
  note b = set_partition_bounds [OF wf1 n1 assms(4,5) a(2)]
  have mem: "(add_bounds n st ! i, offset_from_dev_start (ptes st ! i)) \<in> set (add_entries n st)" if "i < g_partitions st" for i
    using add_entries_nth [OF that g(2), of n] nth_mem by fastforce
  have clear: "stop < fst (add_bounds n st ! i) \<or> snd (add_bounds n st ! i) < start" if "i < g_partitions st" for i
    using free_range [OF a(7) _ a(5)] mem [OF that] by (cases "add_bounds n st ! i") auto
  have units: "display_in_cyl_units st \<Longrightarrow> 0 < units_per_sector st" using assms(9) by simp
  have "bound st' i = bound st i \<and> (stop < fst (bound st i) \<or> snd (bound st i) < start)" if i: "i < g_partitions st" "i \<noteq> n" for i
  proof (cases "extended_offset st \<noteq> 0 \<and> i = ext_index st")
    case True
    then have "bound st i = (0xffffffff, 0)" using assms(10) by (simp add: bound_def Let_def)
    moreover have "0 < start" using assms(8) a(3) by (rule less_le_trans)
    ultimately show ?thesis using b(2) [of i] i t(4,12) by simp
  next
    case False
    have "fst (add_bounds n st ! i) \<le> fst (bound st i) \<and> snd (add_bounds n st ! i) = snd (bound st i)"
      using add_bounds_cover [of i st n] i(1) units False by blast
    then show ?thesis using clear [OF i(1)] b(2) [of i] i t(4,12) by (auto intro: less_le_trans)
  qed
  moreover have "stop < extended_offset st \<or> ext_last st < start" if x: "extended_offset st \<noteq> 0"
  proof -
    have i: "ext_index st < g_partitions st" using assms(1,10) x by (auto simp: wf_fdisk_def)
    show ?thesis using clear [OF i] ext_bound_cover [OF i units assms(2) x] by (auto intro: less_le_trans)
  qed
  ultimately show ?thesis using b(1) a(3,4,6) by blast
qed


section \<open>Runs\<close>

text \<open>A disk of ten cylinders with an empty table, in units of sectors, and the lines to be typed.\<close>

definition demo_fdisk :: "string list \<Rightarrow> fdisk" where
  "demo_fdisk inp = (init_ptes False (INIT_G inp [] None None))\<lparr>g_heads := 16, g_sectors := 63, g_cylinders := 10,
     sector_offset := 63, total_number_of_sectors := 10080, display_in_cyl_units := False\<rparr>"

lemma demo_fields [simp]:
  "input (demo_fdisk inp) = inp" "g_heads (demo_fdisk inp) = 16" "g_sectors (demo_fdisk inp) = 63" "sector_offset (demo_fdisk inp) = 63"
  "total_number_of_sectors (demo_fdisk inp) = 10080" "\<not> display_in_cyl_units (demo_fdisk inp)" "units_per_sector (demo_fdisk inp) = 1"
  "g_partitions (demo_fdisk inp) = 4" "extended_offset (demo_fdisk inp) = 0" "bufs (demo_fdisk inp) = (\<lambda>_. replicate 2048 0)"
  "length (ptes (demo_fdisk inp)) = 60"
  by (simp_all add: demo_fdisk_def init_ptes_def INIT_G_def Let_def MAX_SECTOR_SIZE_def MAXIMUM_PARTS_def)

lemma demo_pte: "i < 4 \<Longrightarrow> ptes (demo_fdisk inp) ! i =
    \<lparr>part_table = Some (pt_offset 0 i), ext_pointer = None, offset_from_dev_start = 0, sectorbuffer = 0, changed = False\<rparr>"
  by (simp add: demo_fdisk_def init_ptes_def INIT_G_def Let_def nth_append)

lemma demo_fdisk_wf [simp]: "wf_fdisk (demo_fdisk inp)"
  by (simp add: wf_fdisk_def demo_pte MAXIMUM_PARTS_def) (simp add: demo_fdisk_def init_ptes_def INIT_G_def Let_def)

lemma demo_bound: "i < 4 \<Longrightarrow> bound (demo_fdisk inp) i = (0xffffffff, 0)"
  by (simp add: bound_def Let_def part_byte_def get_part_table_def demo_pte pt_offset_def)


lemma set_partition_frame:
  "\<exists>b t. set_partition n doext start stop sysid st = st\<lparr>bufs := b, ptes := t\<rparr>"
proof -
  let ?p = "if doext then the (ext_pointer (ptes st ! n)) else get_part_table st n"
  let ?off = "if doext then extended_offset st else offset_from_dev_start (ptes st ! n)"
  obtain b where "store_partition ?p ?off start stop sysid st = st\<lparr>bufs := b\<rparr>"
    using store_partition_only [of ?p st ?off start stop sysid] unfolding only_def by blast
  then show ?thesis unfolding set_partition_store set_changed_def upd_pte_def by (auto intro!: exI)
qed

lemma set_partition_fields [simp]:
  "input (set_partition n doext start stop sysid st) = input st" "g_heads (set_partition n doext start stop sysid st) = g_heads st"
  "g_sectors (set_partition n doext start stop sysid st) = g_sectors st" "sector_offset (set_partition n doext start stop sysid st) = sector_offset st"
  "total_number_of_sectors (set_partition n doext start stop sysid st) = total_number_of_sectors st"
  "display_in_cyl_units (set_partition n doext start stop sysid st) = display_in_cyl_units st"
  "units_per_sector (set_partition n doext start stop sysid st) = units_per_sector st"
  "g_partitions (set_partition n doext start stop sysid st) = g_partitions st"
  "extended_offset (set_partition n doext start stop sysid st) = extended_offset st"
  "sector_size (set_partition n doext start stop sysid st) = sector_size st"
  "ext_index (set_partition n doext start stop sysid st) = ext_index st"
  using set_partition_frame [of n doext start stop sysid st] by auto

lemma set_partition_other:
  assumes "wf_fdisk st" "n < g_partitions st" "i < g_partitions st" "i \<noteq> n"
  shows "sys_ind (set_partition n False start stop sysid st) (get_part_table (set_partition n False start stop sysid st) i)
    = sys_ind st (get_part_table st i)"
proof -
  let ?p = "get_part_table st n" and ?off = "offset_from_dev_start (ptes st ! n)"
  have only: "only ?p st (store_partition ?p ?off start stop sysid st)" by (rule store_partition_only)
  have "apart ?p (get_part_table st i)" using wf_apart [OF assms(1,2,3)] assms(4) by simp
  then show ?thesis
    using onlyD(1) [OF only] onlyD(8) [OF only] by (simp add: set_partition_store get_part_table_def set_changed_pte)
qed

lemma upto4: "[0..<4 :: nat] = [0, 1, 2, 3]"
  by (simp add: upt_rec)

lemma wf_offsets:
  assumes "wf_fdisk st"
  shows "map offset_from_dev_start (take 4 (ptes st)) = [0, 0, 0, 0]"
proof -
  have "take 4 (ptes st) = map ((!) (ptes st)) [0..<4]"
    using assms by (intro nth_equalityI) (auto simp: wf_fdisk_def MAXIMUM_PARTS_def)
  then show ?thesis using wf_primary(3) [OF assms] by (simp add: upto4)
qed

lemma four_entries:
  assumes "wf_fdisk st" "g_partitions st = 4" "extended_offset st = 0" "\<not> display_in_cyl_units st"
  shows "add_entries n st = [(bound st 0, 0), (bound st 1, 0), (bound st 2, 0), (bound st 3, 0)]"
  using assms wf_offsets [OF assms(1)] by (simp add: add_entries_def add_bounds_def fill_bounds_def Let_def upto4)

text \<open>A number typed, and an empty line.\<close>

lemma read_int_number:
  assumes "input st = l # r" "l \<noteq> []" "isdigit (hd l)" "atoi l = v" "low \<le> v" "v \<le> high"
  shows "read_int low dflt high base st = Inr (v, st\<lparr>input := r, line_ptr := l\<rparr>)"
proof -
  have "48 \<le> (of_char (hd l) :: nat)" using assms(3) by (simp add: isdigit_def Let_def)
  then have l: "dropWhile (\<lambda>c. of_char c \<le> (32 :: nat)) l = l" using assms(2) by (cases l) auto
  have "read_answer st = Inr (st\<lparr>input := r, line_ptr := l\<rparr>)"
    using assms(1-3) l by (simp add: read_answer.simps read_maybe_empty_def read_line_def Let_def)
  moreover have "hd l \<noteq> CHR ''+''" "hd l \<noteq> CHR ''-''" using isdigit_no_sign [OF assms(3)] by auto
  ultimately show ?thesis using assms by (subst read_int.simps) (simp add: answer_value_def Let_def)
qed

lemma read_int_default:
  assumes "input st = [] # r" "low \<le> dflt" "dflt \<le> high"
  shows "read_int low dflt high base st = Inr (dflt, st\<lparr>input := r, line_ptr := [CHR 0x0A]\<rparr>)"
proof -
  have "read_answer st = Inr (st\<lparr>input := r, line_ptr := [CHR 0x0A]\<rparr>)"
    using assms(1) by (simp add: read_answer.simps read_maybe_empty_def read_line_def Let_def)
  then show ?thesis using assms(2,3) by (subst read_int.simps) (simp add: answer_value_def Let_def isdigit_def)
qed


text \<open>Entry 1 is taken; then 2 and 1 in this order, which is not that of the disk.\<close>

definition demo_one :: "string list \<Rightarrow> fdisk" where
  "demo_one inp = set_partition 0 False 63 99 LINUX_NATIVE (demo_fdisk inp)"

definition demo_two :: "string list \<Rightarrow> fdisk" where
  "demo_two inp = set_partition 1 False 100 199 LINUX_NATIVE (set_partition 0 False 200 299 LINUX_NATIVE (demo_fdisk inp))"

lemmas native_type = LINUX_NATIVE_def IS_EXTENDED_def EXTENDED_def WIN98_EXTENDED_def LINUX_EXTENDED_def

lemma demo_one_facts:
  "wf_fdisk (demo_one inp)" "i < 4 \<Longrightarrow> bound (demo_one inp) i = (if i = 0 then (63, 99) else (0xffffffff, 0))"
  "0 < i \<Longrightarrow> i < 4 \<Longrightarrow> sys_ind (demo_one inp) (get_part_table (demo_one inp) i) = 0"
proof -
  have wf: "wf_fdisk (demo_fdisk inp)" and n: "0 < g_partitions (demo_fdisk inp)" by simp_all
  show "wf_fdisk (demo_one inp)" by (simp add: demo_one_def wf_set_partition)
  show "i < 4 \<Longrightarrow> bound (demo_one inp) i = (if i = 0 then (63, 99) else (0xffffffff, 0))"
    using set_partition_bounds [OF wf n _ _ demo_one_def] by (auto simp: demo_bound native_type)
  show "0 < i \<Longrightarrow> i < 4 \<Longrightarrow> sys_ind (demo_one inp) (get_part_table (demo_one inp) i) = 0"
    using set_partition_other [OF wf n, of i] by (simp add: demo_one_def part_byte_def get_part_table_def demo_pte pt_offset_def)
qed

lemma demo_two_facts:
  "wf_fdisk (demo_two inp)"
  "i < 4 \<Longrightarrow> bound (demo_two inp) i = (if i = 0 then (200, 299) else if i = 1 then (100, 199) else (0xffffffff, 0))"
  "1 < i \<Longrightarrow> i < 4 \<Longrightarrow> sys_ind (demo_two inp) (get_part_table (demo_two inp) i) = 0"
proof -
  define st where "st = set_partition 0 False 200 299 LINUX_NATIVE (demo_fdisk inp)"
  have wf: "wf_fdisk (demo_fdisk inp)" and n: "0 < g_partitions (demo_fdisk inp)" by simp_all
  have wf1: "wf_fdisk st" and n1: "1 < g_partitions st" by (simp_all add: st_def wf_set_partition)
  note two = demo_two_def [of inp, folded st_def]
  show "wf_fdisk (demo_two inp)" using wf1 by (simp add: two wf_set_partition)
  show "i < 4 \<Longrightarrow> bound (demo_two inp) i = (if i = 0 then (200, 299) else if i = 1 then (100, 199) else (0xffffffff, 0))"
    using set_partition_bounds [OF wf n _ _ st_def] set_partition_bounds [OF wf1 n1 _ _ two]
    by (auto simp: demo_bound native_type st_def)
  show "1 < i \<Longrightarrow> i < 4 \<Longrightarrow> sys_ind (demo_two inp) (get_part_table (demo_two inp) i) = 0"
    using set_partition_other [OF wf n, of i] set_partition_other [OF wf1 n1, of i]
    by (simp add: two st_def part_byte_def get_part_table_def demo_pte pt_offset_def)
qed


lemmas demo_states = demo_one_def demo_two_def

lemma demo_more [simp]:
  "input (demo_one inp) = inp" "input (demo_two inp) = inp" "sector_offset (demo_one inp) = 63" "sector_offset (demo_two inp) = 63"
  "total_number_of_sectors (demo_one inp) = 10080" "total_number_of_sectors (demo_two inp) = 10080"
  "\<not> display_in_cyl_units (demo_one inp)" "\<not> display_in_cyl_units (demo_two inp)"
  "units_per_sector (demo_one inp) = 1" "units_per_sector (demo_two inp) = 1" "g_partitions (demo_one inp) = 4" "g_partitions (demo_two inp) = 4"
  "extended_offset (demo_one inp) = 0" "extended_offset (demo_two inp) = 0"
  by (simp_all add: demo_states)

lemma demo_entries:
  "add_entries n (demo_one inp) = [((63, 99), 0), ((0xffffffff, 0), 0), ((0xffffffff, 0), 0), ((0xffffffff, 0), 0)]"
  "add_entries n (demo_two inp) = [((200, 299), 0), ((100, 199), 0), ((0xffffffff, 0), 0), ((0xffffffff, 0), 0)]"
  by (simp_all add: four_entries demo_one_facts demo_two_facts)

lemma demo_numbers: "atoi ''150'' = 150"
  by (simp add: atoi_def isspace_def isdigit_def digits_value_def hex_val_def Let_def)

lemma run_one_loop:
  assumes "st = demo_one [''150'', '''']"
  shows "add_loop 0 [((63, 99), 0), ((0xffffffff, 0), 0), ((0xffffffff, 0), 0), ((0xffffffff, 0), 0)] 10079 st 63 False
    = Some (Inr (150, st\<lparr>input := [''''], line_ptr := ''150''\<rparr>))"
proof -
  have "read_int 100 100 10079 0 st = Inr (150, st\<lparr>input := [''''], line_ptr := ''150''\<rparr>)"
    by (rule read_int_number) (simp_all add: assms demo_numbers isdigit_def)
  then have "ask_start 100 10079 st = Inr (150, st\<lparr>input := [''''], line_ptr := ''150''\<rparr>)"
    by (simp add: ask_start_def cround_def assms)
  then show ?thesis
    using assms by (simp add: add_loop.simps add_pass_def pass_step_def)
qed


text \<open>The end of a run that is asked for the last sector and answered with an empty line.\<close>

lemma run_finish:
  assumes "add_loop 0 (add_entries n st) 10079 st 63 False = Some (Inr (s, st\<lparr>input := [''''], line_ptr := l\<rparr>))"
    and "st \<in> range demo_one \<union> range demo_two" "n < 4" "sys_ind st (get_part_table st n) = 0"
    and "fold (limit_step s) (add_entries n st) 10079 = 10079" "s < 10079"
  shows "add_partition n LINUX_NATIVE st
    = Some (Inr (set_partition n False s 10079 LINUX_NATIVE (st\<lparr>input := [], line_ptr := [CHR 0x0A]\<rparr>)))"
proof -
  define st1 where "st1 = st\<lparr>input := [''''], line_ptr := l\<rparr>"
  have f: "sector_offset st = 63" "total_number_of_sectors st = 10080" "\<not> display_in_cyl_units st" "g_partitions st = 4"
    using assms(2) by auto
  have "read_int s 10079 10079 s st1 = Inr (10079, st1\<lparr>input := [], line_ptr := [CHR 0x0A]\<rparr>)"
    using assms(6) by (intro read_int_default) (auto simp: st1_def)
  then have "ask_stop s 10079 st1 = Inr (10079, st1\<lparr>input := [], line_ptr := [CHR 0x0A]\<rparr>)"
    using assms(6) f by (simp add: ask_stop_def cround_def st1_def)
  moreover have "zip (add_bounds n st) (map offset_from_dev_start (take (g_partitions st1) (ptes st1))) = add_entries n st"
    by (simp add: add_entries_def st1_def)
  moreover have "add_limit n st = 10079" "add_start n st = 63" using assms(3) f by (simp_all add: add_limit_def add_start_def)
  moreover have "\<not> IS_EXTENDED LINUX_NATIVE" by (simp add: native_type)
  moreover have "st1\<lparr>input := [], line_ptr := [CHR 0x0A]\<rparr> = st\<lparr>input := [], line_ptr := [CHR 0x0A]\<rparr>" by (simp add: st1_def)
  ultimately show ?thesis
    using assms(1,3-6) unfolding st1_def [symmetric]
    by (simp add: add_partition_def place_link_def add_finish_def Let_def)
qed

lemma run_one:
  "add_partition 1 LINUX_NATIVE (demo_one [''150'', ''''])
    = Some (Inr (set_partition 1 False 150 10079 LINUX_NATIVE (demo_one [''150'', '''']\<lparr>input := [], line_ptr := [CHR 0x0A]\<rparr>)))"
  by (rule run_finish) (simp_all add: demo_entries run_one_loop demo_one_facts limit_step_def)

theorem fdisk_new_primary_disjoint_witness:
  "\<exists>st'. add_partition 1 LINUX_NATIVE (demo_one [''150'', '''']) = Some (Inr st') \<and>
     ((\<forall>i < 4. bound st' i = bound (demo_one [''150'', '''']) i)
      \<or> (\<exists>start stop. bound st' 1 = (start, stop) \<and> 63 \<le> start \<and> start \<le> stop \<and> stop \<le> 10079
          \<and> bound st' 0 = (63, 99) \<and> (stop < 63 \<or> 99 < start)))"
proof -
  let ?st = "demo_one [''150'', '''']"
  have h: "1 < (4 :: nat)" "sys_ind ?st (get_part_table ?st 1) = 0" "LINUX_NATIVE \<noteq> 0" "\<not> IS_EXTENDED LINUX_NATIVE"
      "in_order (add_entries 1 ?st)" "no_wrap (sector_offset ?st) 0 (add_entries 1 ?st)" "0 < sector_offset ?st"
      "display_in_cyl_units ?st \<longrightarrow> 0 < units_per_sector ?st \<and> unat (add_limit 1 ?st) + unat (units_per_sector ?st) < 2 ^ 32"
      "extended_offset ?st \<noteq> 0 \<longrightarrow> ext_index ?st < 4 \<and> IS_EXTENDED (sys_ind ?st (get_part_table ?st (ext_index ?st)))"
    by (simp_all add: demo_one_facts demo_entries no_wrap_def placed_after_def) (simp_all add: native_type)
  have "add_limit 1 ?st = 10079" by (simp add: add_limit_def)
  then show ?thesis
    using fdisk_new_primary_disjoint [OF demo_one_facts(1) h run_one] run_one demo_one_facts(2) [of 0] by fastforce
qed


text \<open>Entries 2 and 1, in this order; 150 is refused, and the empty line then accepts the sector 200 of entry 1.\<close>

lemma run_two_loop:
  assumes "st = demo_two [''150'', '''', '''']"
  shows "add_loop 0 [((200, 299), 0), ((100, 199), 0), ((0xffffffff, 0), 0), ((0xffffffff, 0), 0)] 10079 st 63 False
    = Some (Inr (200, st\<lparr>input := [''''], line_ptr := [CHR 0x0A]\<rparr>))"
proof -
  define st1 where "st1 = st\<lparr>input := ['''', ''''], line_ptr := ''150''\<rparr>"
  have "read_int 63 63 10079 0 st = Inr (150, st1)"
    unfolding st1_def by (rule read_int_number) (simp_all add: assms demo_numbers isdigit_def)
  then have one: "ask_start 63 10079 st = Inr (150, st1)"
    by (simp add: ask_start_def cround_def assms st1_def)
  have "read_int 200 200 10079 0 st1 = Inr (200, st1\<lparr>input := [''''], line_ptr := [CHR 0x0A]\<rparr>)"
    by (rule read_int_default) (simp_all add: st1_def)
  then have two: "ask_start 200 10079 st1 = Inr (200, st\<lparr>input := [''''], line_ptr := [CHR 0x0A]\<rparr>)"
    by (simp add: ask_start_def cround_def assms st1_def)
  have "sector_offset st1 = 63" "units_per_sector st1 = 1" by (simp_all add: st1_def assms)
  then have "add_loop 0 [((200, 299), 0), ((100, 199), 0), ((0xffffffff, 0), 0), ((0xffffffff, 0), 0)] 10079 st1 150 True
    = Some (Inr (200, st\<lparr>input := [''''], line_ptr := [CHR 0x0A]\<rparr>))"
    using two by (subst add_loop.simps) (simp add: add_pass_def pass_step_def)
  then show ?thesis
    using one assms by (subst add_loop.simps) (simp add: add_pass_def pass_step_def)
qed

text \<open>
  C32. In a table that is not in the order of the disk a new partition can cover an old one. With
  partition 1 on the sectors 200 to 299 and partition 2 on 100 to 199, a first sector of 150 is
  refused; the sector 200 offered instead was not compared with partition 1 again, and accepting
  it and the default end makes partition 3 from 200 to the end of the disk.
\<close>

theorem fdisk_out_of_order_overlap:
  "\<exists>st'. add_partition 2 LINUX_NATIVE (demo_two [''150'', '''', '''']) = Some (Inr st')
     \<and> bound st' 0 = (200, 299) \<and> bound st' 1 = (100, 199) \<and> bound st' 2 = (200, 10079)"
proof -
  define st where "st = demo_two [''150'', '''', '''']"
  define st' where "st' = set_partition 2 False 200 10079 LINUX_NATIVE (st\<lparr>input := [], line_ptr := [CHR 0x0A]\<rparr>)"
  have run: "add_partition 2 LINUX_NATIVE st = Some (Inr st')"
    unfolding st'_def
    by (rule run_finish) (simp_all add: st_def demo_entries run_two_loop demo_two_facts limit_step_def)
  have t: "same_table st (st\<lparr>input := [], line_ptr := [CHR 0x0A]\<rparr>)" by (simp add: same_table_def)
  have wf: "wf_fdisk (st\<lparr>input := [], line_ptr := [CHR 0x0A]\<rparr>)"
    using same_tableD(13) [OF t] by (simp add: st_def demo_two_facts)
  have "2 < g_partitions (st\<lparr>input := [], line_ptr := [CHR 0x0A]\<rparr>)" by (simp add: st_def)
  note b = set_partition_bounds [OF wf this _ _ st'_def]
  have "bound st' 2 = (200, 10079)" using b(1) by (simp add: native_type)
  moreover have "bound st' i = bound st i" if "i < 2" for i
    using b(2) [of i] same_tableD(12) [OF t] that by (simp add: native_type st_def)
  ultimately show ?thesis using run by (simp add: st_def demo_two_facts)
qed

end
