(* ===== verification/FdiskOrder.thy ===== *)
theory FdiskOrder
  imports FdiskTable "HOL-Library.Multiset"
begin

text \<open>
  The command \<open>f\<close> of the expert menu of \<open>fdisk\<close>, which brings the entries into the order of the disk:
  it ends, and the partitions are the same as before in increasing order.
\<close>

section \<open>What an entry says\<close>

definition fields :: "fdisk \<Rightarrow> part_ptr \<Rightarrow> u8 \<times> u8 \<times> u32 \<times> u32" where
  "fields st p = (boot_ind st p, sys_ind st p, get_start_sect st p, get_nr_sects st p)"

text \<open>Flag, type, first sector from the start of the disk and length.\<close>

definition entry :: "fdisk \<Rightarrow> nat \<Rightarrow> u8 \<times> u8 \<times> u32 \<times> u32" where
  "entry st i = (case fields st (get_part_table st i) of (b, t, s, n) \<Rightarrow> (b, t, offset_from_dev_start (ptes st ! i) + s, n))"

abbreviation used :: "fdisk \<Rightarrow> nat \<Rightarrow> bool" where
  "used st i \<equiv> fst (snd (entry st i)) \<noteq> 0"

abbreviation begins :: "fdisk \<Rightarrow> nat \<Rightarrow> u32" where
  "begins st i \<equiv> fst (snd (snd (entry st i)))"

lemma entry_simps: "sys_ind st (get_part_table st i) = fst (snd (entry st i))" "get_partition_start_from_dev_start st i = begins st i"
  by (simp_all add: entry_def fields_def get_partition_start_from_dev_start_def)

lemma fields_cong:
  assumes "\<And>k. k < 16 \<Longrightarrow> part_byte st' q k = part_byte st p k"
  shows "fields st' q = fields st p"
proof -
  have "read4_little_endian st' q k = read4_little_endian st p k" if "k = 8 \<or> k = 12" for k
    using assms that by (auto simp: read4_little_endian_def)
  then show ?thesis using assms by (simp add: fields_def get_start_sect_def get_nr_sects_def)
qed

lemma fields_only: "only p st st' \<Longrightarrow> apart p q \<Longrightarrow> fields st' q = fields st q"
  by (rule fields_cong) (simp add: onlyD(8))

lemma fields_start:
  assumes "in_buf st p"
  shows "fields (set_start_sect p v st) p = (case fields st p of (b, t, s, n) \<Rightarrow> (b, t, v, n))"
proof -
  have "part_byte (set_start_sect p v st) p k = part_byte st p k" if "k = 0 \<or> k = 4" for k
    using assms that by (auto simp: set_start_sect_def store4_little_endian_def)
  then show ?thesis using assms by (simp add: fields_def)
qed

lemma entry_set_changed [simp]: "entry (set_changed i st) j = entry st j"
  by (simp add: entry_def fields_def set_changed_pte)

lemma only_start: "only p st (set_start_sect p v st)"
  unfolding set_start_sect_def by (intro only_store4 only_refl) simp

lemma put_bytes_only: "only p st (put_bytes p bs st)"
proof -
  have "only p st (fold (\<lambda>k. set_part_byte p k (bs ! k)) ks st')" if "only p st st'" "\<forall>k \<in> set ks. k < 16" for ks st'
    using that by (induction ks arbitrary: st') (auto intro: only_set)
  from this [OF only_refl] show ?thesis unfolding put_bytes_def by simp
qed

lemma put_bytes_byte:
  assumes "in_buf st p" "j < 16"
  shows "part_byte (put_bytes p bs st) p j = bs ! j"
proof -
  have "part_byte (fold (\<lambda>k. set_part_byte p k (bs ! k)) [0..<n] st) p j = (if j < n then bs ! j else part_byte st p j)
      \<and> in_buf (fold (\<lambda>k. set_part_byte p k (bs ! k)) [0..<n] st) p" if "n \<le> 16" for n
    using that assms by (induction n) auto
  from this [of 16] show ?thesis using assms(2) by (simp add: put_bytes_def)
qed

text \<open>The exchange of two entries that lie apart.\<close>

lemma exchange_bytes:
  assumes "in_buf st p" "in_buf st q" "apart p q" "j < 16"
  shows "part_byte (exchange p q st) p j = part_byte st q j" "part_byte (exchange p q st) q j = part_byte st p j"
proof -
  define st1 where "st1 = put_bytes p (part_bytes st q) st"
  have e: "exchange p q st = put_bytes q (part_bytes st p) st1" by (simp add: exchange_def st1_def)
  have o: "only p st st1" unfolding st1_def by (rule put_bytes_only)
  have o2: "only q st1 (exchange p q st)" unfolding e by (rule put_bytes_only)
  have ap: "apart q p" using assms(3) by (auto simp: apart_def)
  have "part_byte (exchange p q st) p j = part_byte st1 p j" using onlyD(8) [OF o2 ap assms(4)] .
  also have "\<dots> = part_byte st q j" unfolding st1_def using put_bytes_byte [OF assms(1,4)] assms(4) by (simp add: part_bytes_def)
  finally show "part_byte (exchange p q st) p j = part_byte st q j" .
  have "in_buf st1 q" using onlyD(4) [OF o] assms(2) by simp
  then show "part_byte (exchange p q st) q j = part_byte st p j"
    unfolding e using put_bytes_byte [OF _ assms(4)] assms(4) by (simp add: part_bytes_def)
qed

lemma fields_exchange:
  assumes "in_buf st p" "in_buf st q" "apart p q"
  shows "fields (exchange p q st) p = fields st q" "fields (exchange p q st) q = fields st p"
  using exchange_bytes [OF assms] by (auto intro!: fields_cong)

text \<open>A change of the entries at some places alone.\<close>

definition only_in :: "part_ptr set \<Rightarrow> fdisk \<Rightarrow> fdisk \<Rightarrow> bool" where
  "only_in A st st' \<longleftrightarrow> (\<exists>b. st' = st\<lparr>bufs := b\<rparr> \<and> (\<forall>c. length (b c) = length (bufs st c))
     \<and> (\<forall>q j. (\<forall>p \<in> A. apart p q) \<longrightarrow> j < 16 \<longrightarrow> part_byte st' q j = part_byte st q j))"

lemma only_in_refl: "only_in A st st"
  by (auto simp: only_in_def intro!: exI [of _ "bufs st"])

lemma only_in_step:
  assumes "only_in A st st1" "only p st1 st2" "p \<in> A"
  shows "only_in A st st2"
proof -
  obtain b1 where 1: "st1 = st\<lparr>bufs := b1\<rparr>" "\<forall>c. length (b1 c) = length (bufs st c)"
      "\<forall>q j. (\<forall>p \<in> A. apart p q) \<longrightarrow> j < 16 \<longrightarrow> part_byte st1 q j = part_byte st q j"
    using assms(1) unfolding only_in_def by blast
  obtain b2 where 2: "st2 = st1\<lparr>bufs := b2\<rparr>" "\<forall>c. length (b2 c) = length (bufs st1 c)"
      "\<forall>q j. apart p q \<longrightarrow> j < 16 \<longrightarrow> part_byte st2 q j = part_byte st1 q j"
    using assms(2) unfolding only_def by blast
  have "st2 = st\<lparr>bufs := b2\<rparr>" "\<forall>c. length (b2 c) = length (bufs st c)" using 1(1,2) 2(1,2) by simp_all
  moreover have "\<forall>q j. (\<forall>p \<in> A. apart p q) \<longrightarrow> j < 16 \<longrightarrow> part_byte st2 q j = part_byte st q j"
    using 1(3) 2(3) assms(3) by simp
  ultimately show ?thesis unfolding only_in_def by blast
qed

lemma only_inD:
  assumes "only_in A st st'"
  shows "ptes st' = ptes st" "g_partitions st' = g_partitions st" "nbufs st' = nbufs st" "in_buf st' q = in_buf st q"
    "extended_offset st' = extended_offset st" "length (bufs st' b) = length (bufs st b)"
    "\<forall>p \<in> A. apart p q \<Longrightarrow> fields st' q = fields st q"
proof -
  obtain b' where b: "st' = st\<lparr>bufs := b'\<rparr>" "\<forall>c. length (b' c) = length (bufs st c)"
      "\<And>q j. \<forall>p \<in> A. apart p q \<Longrightarrow> j < 16 \<Longrightarrow> part_byte st' q j = part_byte st q j"
    using assms unfolding only_in_def by blast
  show "ptes st' = ptes st" "g_partitions st' = g_partitions st" "nbufs st' = nbufs st" "in_buf st' q = in_buf st q"
    "extended_offset st' = extended_offset st" "length (bufs st' b) = length (bufs st b)"
    using b(1,2) by (simp_all add: in_buf_def)
  show "\<forall>p \<in> A. apart p q \<Longrightarrow> fields st' q = fields st q" by (rule fields_cong) (rule b(3))
qed

lemma wf_only_in: "only_in A st st' \<Longrightarrow> wf_fdisk st' = wf_fdisk st"
  using only_inD(1-3,6) [of A st st'] by (simp add: wf_fdisk_def wf_logical_def)

lemma only_in_exchange: "p \<in> A \<Longrightarrow> q \<in> A \<Longrightarrow> only_in A st st1 \<Longrightarrow> only_in A st (exchange p q st1)"
  unfolding exchange_def by (blast intro: only_in_step put_bytes_only)

lemma only_in_start: "p \<in> A \<Longrightarrow> only_in A st st1 \<Longrightarrow> only_in A st (set_start_sect p v st1)"
  by (blast intro: only_in_step only_start)

section \<open>Exchanging entries\<close>

text \<open>What the exchanges do to the entries of a table: two of them change places.\<close>

definition swapped :: "nat \<Rightarrow> nat \<Rightarrow> fdisk \<Rightarrow> fdisk \<Rightarrow> bool" where
  "swapped i k st st' \<longleftrightarrow> wf_fdisk st' \<and> g_partitions st' = g_partitions st
     \<and> (\<forall>j < g_partitions st. offset_from_dev_start (ptes st' ! j) = offset_from_dev_start (ptes st ! j))
     \<and> (\<forall>j < g_partitions st. entry st' j = entry st (if j = i then k else if j = k then i else j))"

lemma apart_sym: "apart p q \<Longrightarrow> apart q p"
  by (auto simp: apart_def)

lemma swap_starts_swapped:
  assumes "wf_fdisk st" "j + 1 < g_partitions st"
  shows "swapped j (j + 1) st (swap_starts j st)"
proof -
  let ?p = "get_part_table st j" and ?q = "get_part_table st (j + 1)"
  define v w where "v = offset_from_dev_start (ptes st ! (j + 1)) + get_start_sect st ?q - offset_from_dev_start (ptes st ! j)"
    and "w = offset_from_dev_start (ptes st ! j) + get_start_sect st ?p - offset_from_dev_start (ptes st ! (j + 1))"
  define st1 st2 where "st1 = exchange ?p ?q st" and "st2 = set_start_sect ?p v st1"
  have e: "swap_starts j st = set_start_sect ?q w st2"
    by (simp add: swap_starts_def Let_def v_def w_def st1_def st2_def)
  have b: "in_buf st ?p" "in_buf st ?q" "apart ?p ?q" using assms by (auto intro: wf_in_buf wf_apart)
  have o1: "only_in {?p, ?q} st st1" unfolding st1_def by (intro only_in_exchange only_in_refl) auto
  have o2: "only_in {?p, ?q} st st2" unfolding st2_def using o1 by (intro only_in_start) auto
  have o: "only_in {?p, ?q} st (swap_starts j st)" unfolding e using o2 by (intro only_in_start) auto
  have p: "fields (swap_starts j st) ?p = (case fields st ?q of (b, t, s, n) \<Rightarrow> (b, t, v, n))"
    using fields_only [OF only_start apart_sym [OF b(3)], of w st2] fields_start [of st1 ?p v] fields_exchange(1) [OF b] only_inD(4) [OF o1] b(1)
    by (simp add: e st1_def st2_def)
  have "fields st2 ?q = fields st ?p"
    using fields_only [OF only_start b(3), of v st1] fields_exchange(2) [OF b] by (simp add: st1_def st2_def)
  then have q: "fields (swap_starts j st) ?q = (case fields st ?p of (b, t, s, n) \<Rightarrow> (b, t, w, n))"
    using fields_start [of st2 ?q w] only_inD(4) [OF o2] b(2) by (simp add: e)
  have t: "get_part_table (swap_starts j st) i = get_part_table st i" "ptes (swap_starts j st) = ptes st" for i
    using only_inD(1) [OF o] by (simp_all add: get_part_table_def)
  have r: "fields (swap_starts j st) (get_part_table st i) = fields st (get_part_table st i)"
    if "i < g_partitions st" "i \<noteq> j" "i \<noteq> j + 1" for i
    using only_inD(7) [OF o] wf_apart [OF assms(1)] assms(2) that by simp
  have "entry (swap_starts j st) i = entry st (if i = j then j + 1 else if i = j + 1 then j else i)" if "i < g_partitions st" for i
    using p q r [OF that] t by (auto simp: entry_def fields_def v_def w_def)
  then show ?thesis using wf_only_in [OF o] only_inD(2) [OF o] assms(1) t(2) by (simp add: swapped_def)
qed

lemma wf_ext_apart:
  assumes "wf_fdisk st" "4 \<le> i" "i < g_partitions st" "m < g_partitions st"
  shows "apart (the (ext_pointer (ptes st ! i))) (get_part_table st m)"
proof -
  obtain a b where ab: "a < 4" "b < 4" "a \<noteq> b" "part_table (ptes st ! i) = Some (pt_offset (sectorbuffer (ptes st ! i)) a)"
    "ext_pointer (ptes st ! i) = Some (pt_offset (sectorbuffer (ptes st ! i)) b)"
    using wf_logicalE [OF assms(1-3)] by metis
  obtain c where c: "c < 4" "get_part_table st m = pt_offset (sectorbuffer (ptes st ! m)) c" using wf_slot(1) [OF assms(1,4)] by blast
  show ?thesis
  proof (cases "m = i")
    case True
    then show ?thesis using ab by (auto simp: get_part_table_def intro: pt_offset_apart)
  next
    case False
    have "sectorbuffer (ptes st ! m) \<noteq> sectorbuffer (ptes st ! i)"
    proof (cases "m < 4")
      case True
      then show ?thesis using wf_slot(3) [OF assms(1,4)] wf_slot(3) [OF assms(1,3)] assms(2) by auto
    next
      case m: False
      have "inj_on (\<lambda>i. sectorbuffer (ptes st ! i)) {4..<g_partitions st}" using assms(1) by (simp add: wf_fdisk_def)
      from inj_onD [OF this, of m i] show ?thesis using m False assms(2-4) by auto
    qed
    then show ?thesis using ab(2,5) c by (auto intro: pt_offset_apart)
  qed
qed

text \<open>Changes of an entry of the table that leave its pointers and its buffer alone.\<close>

lemma wf_upd_pte:
  assumes "wf_fdisk st" "part_table (f (ptes st ! i)) = part_table (ptes st ! i)" "sectorbuffer (f (ptes st ! i)) = sectorbuffer (ptes st ! i)"
    and "4 \<le> i \<Longrightarrow> ext_pointer (f (ptes st ! i)) = ext_pointer (ptes st ! i)"
    and "i < 4 \<Longrightarrow> offset_from_dev_start (f (ptes st ! i)) = offset_from_dev_start (ptes st ! i)"
  shows "wf_fdisk (upd_pte i f st)"
proof (cases "i < length (ptes st)")
  case True
  have s: "sectorbuffer (ptes (upd_pte i f st) ! j) = sectorbuffer (ptes st ! j)" "part_table (ptes (upd_pte i f st) ! j) = part_table (ptes st ! j)"
    "4 \<le> j \<Longrightarrow> ext_pointer (ptes (upd_pte i f st) ! j) = ext_pointer (ptes st ! j)"
    "j < 4 \<Longrightarrow> offset_from_dev_start (ptes (upd_pte i f st) ! j) = offset_from_dev_start (ptes st ! j)" for j
    using assms(2-5) True by (auto simp: upd_pte_nth)
  have "wf_logical (upd_pte i f st) j = wf_logical st j" if "4 \<le> j" for j
    using s that by (simp add: wf_logical_def Let_def)
  then show ?thesis using assms(1) s by (simp add: wf_fdisk_def)
next
  case False
  then show ?thesis using assms(1) by (simp add: upd_pte_def list_update_beyond)
qed

lemma swap_primaries_swapped:
  assumes "wf_fdisk st" "i < 4" "k < 4" "i \<noteq> k"
  shows "swapped i k st (swap_primaries i k st)"
proof -
  define st1 where "st1 = upd_pte k (ext_pointer_update (\<lambda>_. ext_pointer (ptes st ! i))) (upd_pte i (ext_pointer_update (\<lambda>_. ext_pointer (ptes st ! k))) st)"
  define st2 where "st2 = exchange (get_part_table st1 i) (get_part_table st1 k) st1"
  have e: "swap_primaries i k st = set_changed k (set_changed i st2)" by (simp add: swap_primaries_def Let_def st1_def st2_def)
  have wf1: "wf_fdisk st1" unfolding st1_def using assms by (intro wf_upd_pte) (auto simp: upd_pte_nth)
  have len: "length (ptes st) = 60" "4 \<le> g_partitions st" using assms(1) by (simp_all add: wf_fdisk_def MAXIMUM_PARTS_def)
  have g: "g_partitions st1 = g_partitions st" by (simp add: st1_def)
  have t1: "get_part_table st1 j = get_part_table st j" "offset_from_dev_start (ptes st1 ! j) = offset_from_dev_start (ptes st ! j)" for j
    using len assms by (auto simp: st1_def get_part_table_def upd_pte_nth)
  have f1: "fields st1 p = fields st p" for p by (rule fields_cong) (simp add: st1_def)
  have b: "in_buf st1 (get_part_table st1 i)" "in_buf st1 (get_part_table st1 k)" "apart (get_part_table st1 i) (get_part_table st1 k)"
    using assms(2-4) len(2) g by (auto intro: wf_in_buf wf_apart wf1)
  have o: "only_in {get_part_table st1 i, get_part_table st1 k} st1 st2" unfolding st2_def by (intro only_in_exchange only_in_refl) auto
  have t2: "get_part_table st2 j = get_part_table st1 j" "ptes st2 = ptes st1" for j using only_inD(1) [OF o] by (simp_all add: get_part_table_def)
  have r: "fields st2 (get_part_table st1 j) = fields st1 (get_part_table st1 j)" if "j < g_partitions st" "j \<noteq> i" "j \<noteq> k" for j
    using only_inD(7) [OF o] wf_apart [OF wf1] assms(2,3) that len(2) g by simp
  have z: "offset_from_dev_start (ptes st ! i) = 0" "offset_from_dev_start (ptes st ! k) = 0" using wf_primary(3) assms by auto
  have "entry st2 j = entry st (if j = i then k else if j = k then i else j)" if "j < g_partitions st" for j
    using fields_exchange [OF b, folded st2_def] r [OF that] t1 t2 f1 z by (auto simp: entry_def)
  moreover have "wf_fdisk st2" using wf_only_in [OF o] wf1 by simp
  ultimately show ?thesis using only_inD(2) [OF o] g t1(2) t2(2) by (simp add: swapped_def e set_changed_pte)
qed

text \<open>The exchange of two sectors of the chain leaves all entries as they are.\<close>

lemma swap_links_same:
  assumes "wf_fdisk st" "5 \<le> j" "j + 1 < g_partitions st" "st' = swap_links j st"
  shows "wf_fdisk st'" "g_partitions st' = g_partitions st" "\<And>i. i < g_partitions st \<Longrightarrow> entry st' i = entry st i"
    "\<And>i. offset_from_dev_start (ptes st' ! i) = offset_from_dev_start (ptes st ! (if i = j then j + 1 else if i = j + 1 then j else i))"
proof -
  define oj ojj where "oj = offset_from_dev_start (ptes st ! j)" and "ojj = offset_from_dev_start (ptes st ! (j + 1))"
  define st1 where "st1 = upd_pte (j + 1) (offset_from_dev_start_update (\<lambda>_. oj)) (upd_pte j (offset_from_dev_start_update (\<lambda>_. ojj)) st)"
  let ?p = "get_part_table st1 j" and ?q = "get_part_table st1 (j + 1)"
  define st2 where "st2 = set_start_sect ?p (get_start_sect st1 ?p + oj - ojj) st1"
  define st3 where "st3 = set_start_sect ?q (get_start_sect st2 ?q + ojj - oj) st2"
  let ?x = "the (ext_pointer (ptes st3 ! (j - 1)))" and ?y = "the (ext_pointer (ptes st3 ! j))"
  have e: "st' = set_start_sect ?y (oj - extended_offset st3) (set_start_sect ?x (ojj - extended_offset st3) st3)"
    by (simp add: assms(4) swap_links_def Let_def oj_def ojj_def st1_def st2_def st3_def)
  have len: "length (ptes st) = 60" "g_partitions st \<le> 60" using assms(1) by (simp_all add: wf_fdisk_def MAXIMUM_PARTS_def)
  have wf1: "wf_fdisk st1" unfolding st1_def using assms by (intro wf_upd_pte) (auto simp: upd_pte_nth)
  have g1: "g_partitions st1 = g_partitions st" by (simp add: st1_def)
  have t1: "get_part_table st1 i = get_part_table st i"
    "offset_from_dev_start (ptes st1 ! i) = offset_from_dev_start (ptes st ! (if i = j then j + 1 else if i = j + 1 then j else i))" for i
    using len assms(3) by (auto simp: st1_def get_part_table_def upd_pte_nth oj_def ojj_def)
  have f1: "fields st1 r = fields st r" for r by (rule fields_cong) (simp add: st1_def)
  have o2: "only_in {?p, ?q} st1 st2" unfolding st2_def by (intro only_in_start only_in_refl) auto
  have o3: "only_in {?p, ?q} st1 st3" unfolding st3_def using o2 by (intro only_in_start) auto
  have o4: "only_in {?x, ?y} st3 st'" unfolding e by (intro only_in_start only_in_refl) auto
  have b: "in_buf st1 ?p" "in_buf st1 ?q" "apart ?p ?q" using assms(3) g1 by (auto intro: wf_in_buf wf_apart wf1)
  have pt: "ptes st2 = ptes st1" "ptes st3 = ptes st1" "ptes st' = ptes st1" using only_inD(1) o2 o3 o4 by metis+
  have gp: "g_partitions st3 = g_partitions st" "g_partitions st' = g_partitions st" using only_inD(2) o3 o4 g1 by metis+
  have wf3: "wf_fdisk st3" using wf_only_in [OF o3] wf1 by simp
  show "wf_fdisk st'" using wf_only_in [OF o4] wf3 by simp
  show "g_partitions st' = g_partitions st" by (rule gp)
  show off: "offset_from_dev_start (ptes st' ! i) = offset_from_dev_start (ptes st ! (if i = j then j + 1 else if i = j + 1 then j else i))" for i
    using t1(2) pt(3) by simp
  have p: "fields st3 ?p = (case fields st1 ?p of (b, t, s, n) \<Rightarrow> (b, t, s + oj - ojj, n))"
    using fields_only [OF only_start apart_sym [OF b(3)], of _ st2] fields_start [OF b(1)] by (simp add: st3_def st2_def fields_def)
  have "fields st2 ?q = fields st1 ?q" unfolding st2_def by (rule fields_only [OF only_start b(3)])
  then have q: "fields st3 ?q = (case fields st1 ?q of (b, t, s, n) \<Rightarrow> (b, t, s + ojj - oj, n))"
    using fields_start [of st2 ?q] only_inD(4) [OF o2] b(2) by (simp add: st3_def) (simp add: fields_def)
  have r: "fields st3 (get_part_table st1 i) = fields st1 (get_part_table st1 i)" if "i < g_partitions st" "i \<noteq> j" "i \<noteq> j + 1" for i
    using only_inD(7) [OF o3] wf_apart [OF wf1] assms(3) that g1 by simp
  have t3: "get_part_table st3 i = get_part_table st1 i" "get_part_table st' i = get_part_table st1 i" for i using pt by (simp_all add: get_part_table_def)
  have x: "fields st' (get_part_table st3 i) = fields st3 (get_part_table st3 i)" if "i < g_partitions st" for i
    using wf_ext_apart [OF wf3, of "j - 1" i] wf_ext_apart [OF wf3, of j i] assms(2,3) gp(1) that
    by (intro only_inD(7) [OF o4]) auto
  show "entry st' i = entry st i" if "i < g_partitions st" for i
    using x [OF that] p q r [OF that] f1 t1 t3 pt off by (cases "i = j \<or> i = j + 1") (auto simp: entry_def oj_def ojj_def split: prod.splits)
qed

section \<open>The loops end\<close>

text \<open>Moving a larger value back lowers this sum.\<close>

definition weight :: "nat \<Rightarrow> (nat \<Rightarrow> nat) \<Rightarrow> nat" where
  "weight n f = (\<Sum>i<n. (n - i) * f i)"

lemma weight_swap:
  assumes "k < i" "i < n" "f i < f k" "\<And>j. j < n \<Longrightarrow> f' j = f (if j = i then k else if j = k then i else j)"
  shows "weight n f' < weight n f"
proof -
  have split: "weight n g = (n - k) * g k + ((n - i) * g i + (\<Sum>j \<in> {..<n} - {k} - {i}. (n - j) * g j))" for g
    unfolding weight_def using assms(1,2) by (subst sum.remove [of _ k], simp, simp, subst sum.remove [of _ i]) auto
  have rest: "(\<Sum>j \<in> {..<n} - {k} - {i}. (n - j) * f' j) = (\<Sum>j \<in> {..<n} - {k} - {i}. (n - j) * f j)"
    using assms(4) by (intro sum.cong) auto
  obtain d where d: "n - k = (n - i) + d" "0 < d" using assms(1,2) by (metis diff_less_mono2 less_imp_add_positive order.strict_trans)
  have "d * f i < d * f k" using d(2) assms(3) by simp
  then have "(n - k) * f i + (n - i) * f k < (n - k) * f k + (n - i) * f i" by (simp add: d(1) add_mult_distrib)
  then show ?thesis using assms(1,2,4) by (simp add: split rest)
qed

definition keeps :: "fdisk \<Rightarrow> fdisk \<Rightarrow> bool" where
  "keeps st st' \<longleftrightarrow> wf_fdisk st' \<and> g_partitions st' = g_partitions st
     \<and> mset (map (entry st') [0..<4]) = mset (map (entry st) [0..<4])
     \<and> mset (map (entry st') [4..<g_partitions st]) = mset (map (entry st) [4..<g_partitions st])"

lemma keeps_trans: "keeps a b \<Longrightarrow> keeps b c \<Longrightarrow> keeps a c"
  by (simp add: keeps_def)

lemma keeps_refl: "wf_fdisk st \<Longrightarrow> keeps st st"
  by (simp add: keeps_def)

lemma mset_swap:
  assumes "i \<in> {a..<b}" "k \<in> {a..<b}" "\<And>j. j \<in> {a..<b} \<Longrightarrow> f' j = f (if j = i then k else if j = k then i else j)"
  shows "mset (map f' [a..<b]) = mset (map f [a..<b])"
proof -
  define t where "t = (\<lambda>j. if j = i then k else if j = k then i else j)"
  have t: "inj_on t {a..<b}" "t ` {a..<b} = {a..<b}" using assms(1,2) by (auto simp: t_def inj_on_def image_iff)
  have "image_mset f' (mset_set {a..<b}) = image_mset f (image_mset t (mset_set {a..<b}))"
    unfolding multiset.map_comp using assms(3) by (intro image_mset_cong) (auto simp: t_def)
  also have "\<dots> = image_mset f (mset_set {a..<b})" using image_mset_mset_set [OF t(1)] t(2) by simp
  finally show ?thesis by (simp flip: mset_upt)
qed

lemma swapped_keeps:
  assumes "swapped i k st st'" "i < 4 \<and> k < 4 \<or> i \<in> {4..<g_partitions st} \<and> k \<in> {4..<g_partitions st}" "4 \<le> g_partitions st"
  shows "keeps st st'"
proof -
  have e: "entry st' j = entry st (if j = i then k else if j = k then i else j)" if "j < g_partitions st" for j
    using assms(1) that by (simp add: swapped_def)
  have same: "mset (map (entry st') [a..<b]) = mset (map (entry st) [a..<b])" if "b \<le> g_partitions st" "i \<notin> {a..<b}" "k \<notin> {a..<b}" for a b
    by (rule arg_cong [of _ _ mset]) (use that e in auto)
  have swap: "mset (map (entry st') [a..<b]) = mset (map (entry st) [a..<b])" if "b \<le> g_partitions st" "i \<in> {a..<b}" "k \<in> {a..<b}" for a b
    using that(1) by (intro mset_swap [OF that(2,3)] e) simp
  have "wf_fdisk st'" "g_partitions st' = g_partitions st" using assms(1) by (simp_all add: swapped_def)
  moreover have "mset (map (entry st') [0..<4]) = mset (map (entry st) [0..<4])
      \<and> mset (map (entry st') [4..<g_partitions st]) = mset (map (entry st) [4..<g_partitions st])"
    using assms(2)
  proof
    assume "i < 4 \<and> k < 4"
    then show ?thesis using assms(3) by (intro conjI same swap) auto
  next
    assume "i \<in> {4..<g_partitions st} \<and> k \<in> {4..<g_partitions st}"
    then show ?thesis using assms(3) by (intro conjI same swap) auto
  qed
  ultimately show ?thesis by (simp add: keeps_def)
qed

text \<open>The sectors a table speaks of are below half of the range, where \<open>int\<close> and \<open>sector_t\<close> agree.\<close>

definition small :: "fdisk \<Rightarrow> bool" where
  "small st \<longleftrightarrow> (\<forall>i < g_partitions st. unat (begins st i) < 2 ^ 31)"

lemma sint_less: "unat (a :: u32) < 2 ^ 31 \<Longrightarrow> unat b < 2 ^ 31 \<Longrightarrow> (sint a < sint b) = (a < b)"
  unfolding sint_small [of a] sint_small [of b] word_less_nat_alt by (rule of_nat_less_iff)

lemma keeps_small:
  assumes "keeps st st'" "small st" "4 \<le> g_partitions st"
  shows "small st'"
proof -
  have "mset (map (entry st') [0..<4]) = mset (map (entry st) [0..<4])"
    "mset (map (entry st') [4..<g_partitions st]) = mset (map (entry st) [4..<g_partitions st])"
    using assms(1) unfolding keeps_def by blast+
  from this [THEN arg_cong, of set_mset]
  have eq: "entry st' ` {0..<4} = entry st ` {0..<4}" "entry st' ` {4..<g_partitions st} = entry st ` {4..<g_partitions st}" by simp_all
  have "\<exists>j < g_partitions st. entry st' i = entry st j" if "i < g_partitions st" for i
  proof (cases "i < 4")
    case True
    then have "entry st' i \<in> entry st ` {0..<4}" using eq(1) by auto
    then obtain x where "x < 4" "entry st' i = entry st x" by auto
    then show ?thesis using assms(3) by (meson less_le_trans)
  next
    case False
    then have "entry st' i \<in> entry st ` {4..<g_partitions st}" using eq(2) that by auto
    then show ?thesis by auto
  qed
  then show ?thesis using assms(1,2) by (fastforce simp: small_def keeps_def)
qed

lemma find_SomeD: "find P xs = Some x \<Longrightarrow> x \<in> set xs \<and> P x"
  by (auto simp: find_Some_iff)

text \<open>
  The interface of the three loops of the command: each looks for a pair in the wrong order,
  exchanges it and starts again. What every exchange keeps, the loop keeps, and if every exchange
  lowers a cost the loop ends in a state in which no such pair is left.
\<close>

locale exchange_loop =
  fixes loop :: "fdisk \<Rightarrow> fdisk option" and pick :: "fdisk \<Rightarrow> 'p option" and swap :: "'p \<Rightarrow> fdisk \<Rightarrow> fdisk"
    and fit :: "fdisk \<Rightarrow> bool" and kept :: "fdisk \<Rightarrow> fdisk \<Rightarrow> bool" and cost :: "fdisk \<Rightarrow> nat"
  assumes loop_eq: "loop st = (case pick st of None \<Rightarrow> Some st | Some x \<Rightarrow> loop (swap x st))"
    and progress: "fit st \<Longrightarrow> pick st = Some x \<Longrightarrow> fit (swap x st) \<and> kept st (swap x st) \<and> cost (swap x st) < cost st"
    and kept_refl: "fit st \<Longrightarrow> kept st st"
    and kept_trans: "kept a b \<Longrightarrow> kept b c \<Longrightarrow> kept a c"
begin

lemma ends: "fit st \<Longrightarrow> \<exists>st'. loop st = Some st' \<and> fit st' \<and> kept st st' \<and> pick st' = None"
proof (induction "cost st" arbitrary: st rule: less_induct)
  case less
  show ?case
  proof (cases "pick st")
    case None
    then show ?thesis using less.prems loop_eq [of st] kept_refl by auto
  next
    case (Some x)
    note p = progress [OF less.prems Some]
    obtain st' where "loop (swap x st) = Some st'" "fit st'" "kept (swap x st) st'" "pick st' = None" using less.hyps p by blast
    then show ?thesis using loop_eq [of st] Some kept_trans p by auto
  qed
qed

end

text \<open>The first stage sorts the sectors of the chain and leaves all entries as they are.\<close>

definition pick_link :: "fdisk \<Rightarrow> nat option" where
  "pick_link st = find (\<lambda>j. sint (offset_from_dev_start (ptes st ! j)) > sint (offset_from_dev_start (ptes st ! (j + 1)))) [5..<g_partitions st - 1]"

definition links_small :: "fdisk \<Rightarrow> bool" where
  "links_small st \<longleftrightarrow> wf_fdisk st \<and> (\<forall>i \<in> {5..<g_partitions st}. unat (offset_from_dev_start (ptes st ! i)) < 2 ^ 31)"

definition same_entries :: "fdisk \<Rightarrow> fdisk \<Rightarrow> bool" where
  "same_entries st st' \<longleftrightarrow> g_partitions st' = g_partitions st \<and> (\<forall>i < g_partitions st. entry st' i = entry st i)"

lemma swap_links_progress:
  assumes "links_small st" "pick_link st = Some j"
  shows "links_small (swap_links j st) \<and> same_entries st (swap_links j st)
    \<and> weight (g_partitions (swap_links j st)) (\<lambda>i. unat (offset_from_dev_start (ptes (swap_links j st) ! i)))
      < weight (g_partitions st) (\<lambda>i. unat (offset_from_dev_start (ptes st ! i)))"
proof -
  have r: "5 \<le> j" "j + 1 < g_partitions st" and l: "sint (offset_from_dev_start (ptes st ! (j + 1))) < sint (offset_from_dev_start (ptes st ! j))"
    using assms(2) by (auto simp: pick_link_def dest!: find_SomeD)
  have l: "offset_from_dev_start (ptes st ! (j + 1)) < offset_from_dev_start (ptes st ! j)"
    using assms(1) r by (intro iffD1 [OF sint_less l]) (auto simp: links_small_def)
  have "wf_fdisk st" using assms(1) by (simp add: links_small_def)
  note s = swap_links_same [OF this r refl]
  have "weight (g_partitions st) (\<lambda>i. unat (offset_from_dev_start (ptes (swap_links j st) ! i))) < weight (g_partitions st) (\<lambda>i. unat (offset_from_dev_start (ptes st ! i)))"
    using r l by (intro weight_swap [of j "j + 1"]) (auto simp: s(4) word_less_nat_alt)
  then show ?thesis using assms(1) r by (auto simp: links_small_def same_entries_def s)
qed

interpretation chain: exchange_loop stage1 pick_link swap_links links_small same_entries
  "\<lambda>st. weight (g_partitions st) (\<lambda>i. unat (offset_from_dev_start (ptes st ! i)))"
proof
  show "stage1 st = (case pick_link st of None \<Rightarrow> Some st | Some j \<Rightarrow> stage1 (swap_links j st))" for st
    by (subst stage1.simps) (simp only: pick_link_def)
qed (rule swap_links_progress, assumption+, auto simp: same_entries_def)

text \<open>The second stage sorts the first sectors of the logical partitions.\<close>

definition pick_start :: "fdisk \<Rightarrow> nat option" where
  "pick_start st = find (\<lambda>j. sint (begins st j) > sint (begins st (j + 1))) [4..<g_partitions st - 1]"

definition starts_small :: "fdisk \<Rightarrow> bool" where
  "starts_small st \<longleftrightarrow> wf_fdisk st \<and> small st"

definition keeps_primaries :: "fdisk \<Rightarrow> fdisk \<Rightarrow> bool" where
  "keeps_primaries st st' \<longleftrightarrow> keeps st st' \<and> (\<forall>j < 4. entry st' j = entry st j)"

lemma starts_compare:
  assumes "starts_small st" "j \<in> {4..<g_partitions st - 1}"
  shows "sint (begins st (j + 1)) < sint (begins st j) \<longleftrightarrow> begins st (j + 1) < begins st j"
  using assms by (intro sint_less) (auto simp: starts_small_def small_def)

lemma swap_starts_progress:
  assumes "starts_small st" "pick_start st = Some j"
  shows "starts_small (swap_starts j st) \<and> keeps_primaries st (swap_starts j st)
    \<and> weight (g_partitions (swap_starts j st)) (\<lambda>i. unat (begins (swap_starts j st) i)) < weight (g_partitions st) (\<lambda>i. unat (begins st i))"
proof -
  have j: "j \<in> {4..<g_partitions st - 1}" "sint (begins st (j + 1)) < sint (begins st j)"
    using assms(2) by (auto simp: pick_start_def dest!: find_SomeD)
  then have r: "j + 1 < g_partitions st" "4 \<le> j" and l: "begins st (j + 1) < begins st j" using starts_compare [OF assms(1) j(1)] by auto
  have wf: "wf_fdisk st" "small st" "4 \<le> g_partitions st" using assms(1) by (simp_all add: starts_small_def wf_fdisk_def)
  have s: "swapped j (j + 1) st (swap_starts j st)" using wf(1) r(1) by (rule swap_starts_swapped)
  have k: "keeps st (swap_starts j st)" using s r wf(3) by (intro swapped_keeps) auto
  have en: "entry (swap_starts j st) i = entry st (if i = j then j + 1 else if i = j + 1 then j else i)" if "i < g_partitions st" for i
    using s that by (simp add: swapped_def)
  have "weight (g_partitions st) (\<lambda>i. unat (begins (swap_starts j st) i)) < weight (g_partitions st) (\<lambda>i. unat (begins st i))"
    using r l by (intro weight_swap [of j "j + 1"]) (auto simp: en word_less_nat_alt)
  then show ?thesis
    using s k keeps_small [OF k wf(2,3)] en r wf(3) by (auto simp: starts_small_def keeps_primaries_def swapped_def)
qed

interpretation starts: exchange_loop stage2 pick_start swap_starts starts_small keeps_primaries
  "\<lambda>st. weight (g_partitions st) (\<lambda>i. unat (begins st i))"
proof
  show "stage2 st = (case pick_start st of None \<Rightarrow> Some st | Some j \<Rightarrow> stage2 (swap_starts j st))" for st
    by (subst stage2.simps) (simp only: pick_start_def entry_simps)
  show "keeps_primaries a b \<Longrightarrow> keeps_primaries b c \<Longrightarrow> keeps_primaries a c" for a b c
    using keeps_trans by (auto simp: keeps_primaries_def)
qed (rule swap_starts_progress, assumption+, auto simp: keeps_primaries_def starts_small_def keeps_refl)

section \<open>The order of the entries\<close>

lemma wrong_from_Some:
  assumes "wrong_from st [m..<n] lp li = Some (i, k)" "lp = 0 \<or> li < m \<and> used st li \<and> begins st li = lp" "n \<le> 4"
  shows "i < n \<and> k < i \<and> used st i \<and> used st k \<and> begins st i < begins st k"
  using assms(1,2)
proof (induction "n - m" arbitrary: m lp li)
  case (Suc d)
  then have "m < n" by simp
  then have l: "[m..<n] = m # [Suc m..<n]" by (simp add: upt_conv_Cons)
  have m4: "m \<noteq> 4" using \<open>m < n\<close> assms(3) by simp
  have ih: "i < n \<and> k < i \<and> used st i \<and> used st k \<and> begins st i < begins st k"
    if "wrong_from st [Suc m..<n] lp' li' = Some (i, k)" "lp' = 0 \<or> li' < Suc m \<and> used st li' \<and> begins st li' = lp'" for lp' li'
    using Suc(1) [of "Suc m"] Suc(2) that by simp
  show ?case
  proof (cases "used st m")
    case False
    then show ?thesis using Suc(3,4) m4 by (intro ih [of lp li]) (auto simp: l entry_simps Let_def)
  next
    case True
    show ?thesis
    proof (cases "begins st m < lp")
      case less: True
      then have "i = m" "k = li" using Suc(3) True m4 by (simp_all add: l entry_simps Let_def)
      moreover have "lp \<noteq> 0" using less by auto
      ultimately show ?thesis using less True Suc(4) \<open>m < n\<close> by auto
    next
      case False
      then show ?thesis using Suc(3) True m4 by (intro ih [of "begins st m" m]) (auto simp: l entry_simps Let_def)
    qed
  qed
qed simp

lemma wrong_from_sorted:
  assumes "\<forall>j \<in> {m..<n - 1}. begins st j \<le> begins st (j + 1)" "m < n \<Longrightarrow> lp \<le> begins st m" "4 < m"
  shows "wrong_from st [m..<n] lp li = None"
  using assms
proof (induction "n - m" arbitrary: m lp li)
  case (Suc d)
  then have "m < n" by simp
  then have l: "[m..<n] = m # [Suc m..<n]" by (simp add: upt_conv_Cons)
  have ih: "wrong_from st [Suc m..<n] lp' li' = None" if "Suc m < n \<Longrightarrow> lp' \<le> begins st (Suc m)" for lp' li'
    using Suc(1) [of "Suc m"] Suc(2,3,5) that by simp
  have step: "begins st m \<le> begins st (Suc m)" if "Suc m < n" using Suc(3) that by auto
  have lp: "lp \<le> begins st m" using Suc(4) \<open>m < n\<close> .
  show ?case using ih step lp order_trans [OF lp step] Suc(5) by (auto simp: l entry_simps Let_def not_less)
qed simp

lemma wrong_p_order_split:
  assumes "4 \<le> g_partitions st"
  shows "wrong_p_order st = (case wrong_from st [0..<4] 0 0 of None \<Rightarrow> wrong_from st [4..<g_partitions st] 0 4 | Some r \<Rightarrow> Some r)"
proof -
  have restart: "wrong_from st [4..<g] lp li = wrong_from st [4..<g] 0 4" for g lp li
    by (cases "4 < g") (simp_all add: upt_conv_Cons Let_def)
  have "wrong_from st (is @ [4..<g]) lp li = (case wrong_from st is lp li of None \<Rightarrow> wrong_from st [4..<g] 0 4 | Some r \<Rightarrow> Some r)" for "is" g lp li
  proof (induction "is" arbitrary: lp li)
    case Nil
    show ?case using restart [of g lp li] by simp
  qed (simp add: Let_def)
  moreover have "[0..<g_partitions st] = [0..<4] @ [4..<g_partitions st]"
    using upt_add_eq_append [of 0 4 "g_partitions st - 4"] assms by (simp only: le_add_diff_inverse)
  ultimately show ?thesis by (simp only: wrong_p_order_def)
qed

lemma wrong_from_None:
  "wrong_from st xs lp li = None \<Longrightarrow> 4 \<notin> set xs \<Longrightarrow> sorted (lp # map (begins st) (filter (used st) xs))"
  by (induction xs arbitrary: lp li)
    (auto simp: entry_simps Let_def not_less split: if_splits; blast intro: order_trans)+

definition in_disk_order :: "fdisk \<Rightarrow> bool" where
  "in_disk_order st \<longleftrightarrow> sorted (map (begins st) (filter (used st) [0..<4]))
     \<and> sorted (map (begins st) (filter (used st) [4..<g_partitions st]))"

lemma wrong_p_order_None:
  assumes "wrong_p_order st = None" "4 \<le> g_partitions st"
  shows "in_disk_order st"
proof -
  have w: "wrong_from st [0..<4] 0 0 = None" "wrong_from st [4..<g_partitions st] 0 4 = None"
    using assms(1) unfolding wrong_p_order_split [OF assms(2)] by (auto split: option.splits)
  have "sorted (map (begins st) (filter (used st) [4..<g_partitions st]))"
  proof (cases "4 < g_partitions st")
    case True
    then have l: "[4..<g_partitions st] = 4 # [5..<g_partitions st]" by (simp add: upt_conv_Cons)
    have "wrong_from st [5..<g_partitions st] (if used st 4 then begins st 4 else 0) 4 = None"
      using w(2) unfolding l by (simp add: entry_simps Let_def split: if_splits)
    from wrong_from_None [OF this] show ?thesis unfolding l by (simp split: if_splits)
  qed simp
  moreover have "4 \<notin> set [0..<4]" by simp
  note wrong_from_None [OF w(1) this]
  ultimately show ?thesis by (simp add: in_disk_order_def)
qed

lemma wrong_from_set: "wrong_from st xs lp li = Some (i, k) \<Longrightarrow> i \<in> set xs"
  by (induction xs arbitrary: lp li) (auto simp: Let_def split: if_splits)

text \<open>The loop over the primary entries; it leaves the sectors of the chain alone.\<close>

definition pick_primary :: "fdisk \<Rightarrow> (nat \<times> nat) option" where
  "pick_primary st = (case wrong_p_order st of None \<Rightarrow> None | Some r \<Rightarrow> if fst r < 4 then Some r else None)"

lemma pick_primary_eq:
  assumes "4 \<le> g_partitions st"
  shows "pick_primary st = wrong_from st [0..<4] 0 0"
proof (cases "wrong_from st [0..<4] 0 0")
  case None
  have "\<not> fst r < 4" if "wrong_from st [4..<g_partitions st] 0 4 = Some r" for r
    using wrong_from_set [of st "[4..<g_partitions st]" 0 4 "fst r" "snd r"] that by simp
  then show ?thesis using None by (auto simp: pick_primary_def wrong_p_order_split [OF assms] split: option.split)
next
  case (Some r)
  have "fst r \<in> set [0..<4]" using wrong_from_set [of st "[0..<4]" 0 0 "fst r" "snd r"] Some by simp
  then show ?thesis using Some by (simp add: pick_primary_def wrong_p_order_split [OF assms])
qed

definition keeps_links :: "fdisk \<Rightarrow> fdisk \<Rightarrow> bool" where
  "keeps_links st st' \<longleftrightarrow> keeps st st'
     \<and> (\<forall>j < g_partitions st. offset_from_dev_start (ptes st' ! j) = offset_from_dev_start (ptes st ! j))"

lemma swap_primaries_progress:
  assumes "wf_fdisk st" "pick_primary st = Some r"
  shows "wf_fdisk (swap_primaries (fst r) (snd r) st) \<and> keeps_links st (swap_primaries (fst r) (snd r) st)
    \<and> weight 4 (\<lambda>i. if used (swap_primaries (fst r) (snd r) st) i then unat (begins (swap_primaries (fst r) (snd r) st) i) else 0)
      < weight 4 (\<lambda>i. if used st i then unat (begins st i) else 0)"
proof -
  obtain i k where r: "r = (i, k)" by fastforce
  have g: "4 \<le> g_partitions st" using assms(1) by (simp add: wf_fdisk_def)
  have ik: "i < 4" "k < i" "used st i" "used st k" "begins st i < begins st k"
    using wrong_from_Some [of st 0 4 0 0 i k] assms(2) pick_primary_eq [OF g] r by auto
  let ?s = "swap_primaries i k st"
  have s: "swapped i k st ?s" using ik assms(1) by (intro swap_primaries_swapped) auto
  have k: "keeps st ?s" using s ik g by (intro swapped_keeps) auto
  have en: "entry ?s j = entry st (if j = i then k else if j = k then i else j)" if "j < 4" for j
    using s that g by (simp add: swapped_def)
  have "weight 4 (\<lambda>i. if used ?s i then unat (begins ?s i) else 0) < weight 4 (\<lambda>i. if used st i then unat (begins st i) else 0)"
    using ik by (intro weight_swap [of k i]) (auto simp: en word_less_nat_alt)
  then show ?thesis using s k unfolding r fst_conv snd_conv keeps_links_def swapped_def by blast
qed

interpretation prim: exchange_loop fix_primaries pick_primary "\<lambda>r. swap_primaries (fst r) (snd r)" wf_fdisk keeps_links
  "\<lambda>st. weight 4 (\<lambda>i. if used st i then unat (begins st i) else 0)"
proof
  show "fix_primaries st = (case pick_primary st of None \<Rightarrow> Some st | Some r \<Rightarrow> fix_primaries (swap_primaries (fst r) (snd r) st))" for st
    by (subst fix_primaries.simps) (simp add: pick_primary_def split: option.split)
  show "keeps_links a b \<Longrightarrow> keeps_links b c \<Longrightarrow> keeps_links a c" for a b c
    using keeps_trans [of a b c] by (auto simp: keeps_links_def) (simp add: keeps_def)
qed (rule swap_primaries_progress, assumption+, auto simp: keeps_links_def keeps_refl)

lemma wrong_from_cong: "(\<And>i. i \<in> set xs \<Longrightarrow> entry st' i = entry st i) \<Longrightarrow> wrong_from st' xs lp li = wrong_from st xs lp li"
  by (induction xs arbitrary: lp li) (auto simp: entry_simps Let_def)

lemma fold_set_changed: "wf_fdisk (fold set_changed is st) = wf_fdisk st" "entry (fold set_changed is st) = entry st"
    "g_partitions (fold set_changed is st) = g_partitions st"
  by (induction "is" arbitrary: st) auto

lemma fix_chain_sorts:
  assumes "wf_fdisk st" "small st" "\<forall>i \<in> {5..<g_partitions st}. unat (offset_from_dev_start (ptes st ! i)) < 2 ^ 31"
    and "wrong_from st [0..<4] 0 0 = None"
  shows "\<exists>st'. fix_chain_of_logicals st = Some st' \<and> keeps st st' \<and> wrong_p_order st' = None"
proof -
  have g: "4 \<le> g_partitions st" using assms(1) by (simp add: wf_fdisk_def)
  have "links_small st" using assms(1,3) by (simp add: links_small_def)
  then obtain st1 where r1: "stage1 st = Some st1" "links_small st1" "same_entries st st1" using chain.ends by blast
  then have s1: "stage1 st = Some st1" "wf_fdisk st1" "g_partitions st1 = g_partitions st" "\<forall>i < g_partitions st. entry st1 i = entry st i"
    by (simp_all add: same_entries_def links_small_def)
  have "starts_small st1" using assms(2) s1(2-4) by (simp add: starts_small_def small_def)
  then obtain st2 where r2: "stage2 st1 = Some st2" "starts_small st2" "keeps_primaries st1 st2" "pick_start st2 = None" using starts.ends by blast
  have s2: "stage2 st1 = Some st2" "keeps st1 st2" "\<forall>j < 4. entry st2 j = entry st1 j" using r2(1,3) by (simp_all add: keeps_primaries_def)
  have g2: "g_partitions st2 = g_partitions st" using s2(2) s1(3) by (simp add: keeps_def)
  have sorted2: "begins st2 j \<le> begins st2 (j + 1)" if "j \<in> {4..<g_partitions st - 1}" for j
  proof -
    have "\<not> sint (begins st2 (j + 1)) < sint (begins st2 j)" using r2(4) that g2 unfolding pick_start_def find_None_iff by auto
    then have "\<not> begins st2 (j + 1) < begins st2 j" using starts_compare [OF r2(2), of j] that unfolding g2 by blast
    then show ?thesis by (rule leI)
  qed
  define st' where "st' = fold set_changed [4..<g_partitions st2] st2"
  have run: "fix_chain_of_logicals st = Some st'" by (simp add: fix_chain_of_logicals_def s1(1) s2(1) st'_def)
  have en: "entry st' = entry st2" "g_partitions st' = g_partitions st2" "wf_fdisk st' = wf_fdisk st2" by (simp_all add: st'_def fold_set_changed)
  have k1: "keeps st st1"
    unfolding keeps_def using s1 g by (auto intro!: arg_cong [of _ _ mset] simp del: mset_map)
  have k2: "keeps st1 st'" using s2(2) en unfolding keeps_def by simp
  have gg: "g_partitions st' = g_partitions st" using en(2) s2(2) s1(3) by (simp add: keeps_def)
  have "wrong_from st' [0..<4] 0 0 = wrong_from st [0..<4] 0 0"
    using s2(3) s1(4) g en(1) by (intro wrong_from_cong) auto
  moreover have "wrong_from st' [4..<g_partitions st] 0 4 = None"
  proof (cases "4 < g_partitions st")
    case True
    then have l: "[4..<g_partitions st] = 4 # [5..<g_partitions st]" by (simp add: upt_conv_Cons)
    have 5: "begins st' 4 \<le> begins st' 5" if "5 < g_partitions st" using sorted2 [of 4] that en(1) by simp
    have "wrong_from st' [5..<g_partitions st] lp li = None" if "5 < g_partitions st \<Longrightarrow> lp \<le> begins st' 5" for lp li
      using sorted2 en(1) that by (intro wrong_from_sorted) auto
    then show ?thesis unfolding l using 5 by (simp add: entry_simps Let_def)
  qed simp
  ultimately have "wrong_p_order st' = None" using assms(4) g gg by (simp add: wrong_p_order_split)
  then show ?thesis using run keeps_trans [OF k1 k2] by blast
qed

text \<open>
  C31. The expert command that fixes the order of a partition table always ends, provided all
  sectors lie below 2147483648. It neither loses nor invents a partition: the primary entries and
  the logical ones each hold the same flags, types, first sectors and lengths as before, and the
  used entries of either kind then begin at increasing sectors.
\<close>

theorem fdisk_fix_order:
  assumes "wf_fdisk st" "small st" "\<forall>i \<in> {5..<g_partitions st}. unat (offset_from_dev_start (ptes st ! i)) < 2 ^ 31"
  shows "\<exists>st'. fix_partition_table_order st = Some st' \<and> in_disk_order st'
    \<and> mset (map (entry st') [0..<4]) = mset (map (entry st) [0..<4])
    \<and> g_partitions st' = g_partitions st
    \<and> mset (map (entry st') [4..<g_partitions st]) = mset (map (entry st) [4..<g_partitions st])"
proof -
  have g: "4 \<le> g_partitions st" using assms(1) by (simp add: wf_fdisk_def)
  have "\<exists>st'. fix_partition_table_order st = Some st' \<and> keeps st st' \<and> wrong_p_order st' = None"
  proof (cases "wrong_p_order st")
    case None
    then show ?thesis using keeps_refl [OF assms(1)] by (simp add: fix_partition_table_order_def)
  next
    case (Some r)
    obtain st1 where r1: "fix_primaries st = Some st1" "keeps_links st st1" "pick_primary st1 = None" using prim.ends [OF assms(1)] by blast
    have s: "fix_primaries st = Some st1" "keeps st st1" "wrong_from st1 [0..<4] 0 0 = None"
        "\<forall>j < g_partitions st. offset_from_dev_start (ptes st1 ! j) = offset_from_dev_start (ptes st ! j)"
      using r1 pick_primary_eq [of st1] g by (simp_all add: keeps_links_def keeps_def)
    have e: "fix_partition_table_order st = (if wrong_p_order st1 \<noteq> None then fix_chain_of_logicals st1 else Some st1)"
      by (simp add: fix_partition_table_order_def Some s(1))
    have wf1: "wf_fdisk st1" "g_partitions st1 = g_partitions st" using s(2) by (simp_all add: keeps_def)
    show ?thesis
    proof (cases "wrong_p_order st1 = None")
      case True
      then show ?thesis using e s(2) by auto
    next
      case False
      have "\<exists>st'. fix_chain_of_logicals st1 = Some st' \<and> keeps st1 st' \<and> wrong_p_order st' = None"
        using s(3,4) assms(3) wf1(2) by (intro fix_chain_sorts wf1(1) keeps_small [OF s(2) assms(2) g]) auto
      then show ?thesis using e False keeps_trans [OF s(2)] by auto
    qed
  qed
  then obtain st' where r: "fix_partition_table_order st = Some st'" "keeps st st'" "wrong_p_order st' = None" by blast
  have "in_disk_order st'" using wrong_p_order_None [OF r(3)] r(2) g by (simp add: keeps_def)
  then show ?thesis using r(1,2) unfolding keeps_def by blast
qed

lemma set_partition_begins:
  assumes "wf_fdisk st" "n < g_partitions st" "i < g_partitions st"
  shows "begins (set_partition n False start stop sysid st) i = (if i = n then start else begins st i)"
proof -
  let ?p = "get_part_table st n" and ?off = "offset_from_dev_start (ptes st ! n)"
  let ?s = "store_partition ?p ?off start stop sysid st"
  have o: "only ?p st ?s" by (rule store_partition_only)
  have s: "set_partition n False start stop sysid st = set_changed n ?s" by (simp add: set_partition_store)
  have t: "get_part_table ?s j = get_part_table st j" "ptes ?s = ptes st" for j using onlyD(1) [OF o] by (simp_all add: get_part_table_def)
  have "begins ?s n = start"
    using store_partition_fields(2) [OF wf_in_buf [OF assms(1,2)]] by (simp add: entry_def fields_def t)
  moreover have "entry ?s i = entry st i" if "i \<noteq> n"
    using fields_only [OF o] wf_apart [OF assms(1,2,3)] that by (simp add: entry_def t)
  ultimately show ?thesis unfolding s by simp
qed

lemma demo_two_small: "small (demo_two inp)"
proof -
  have "begins (demo_fdisk inp) i = 0" if "i < 4" for i
    using that by (simp add: entry_def fields_def get_start_sect_def read4_little_endian_def part_byte_def get_part_table_def demo_pte pt_offset_def)
  then have "begins (demo_two inp) i = (if i = 1 then 100 else if i = 0 then 200 else 0)" if "i < 4" for i
    using that by (simp add: demo_two_def set_partition_begins wf_set_partition)
  then show ?thesis by (simp add: small_def)
qed

theorem fdisk_fix_order_witness:
  "\<exists>st'. fix_partition_table_order (demo_two []) = Some st' \<and> in_disk_order st'
    \<and> mset (map (entry st') [0..<4]) = mset (map (entry (demo_two [])) [0..<4])"
  using fdisk_fix_order [OF demo_two_facts(1) demo_two_small, of "[]"] by (simp del: mset_map) blast

end
