(* ===== verification/FdiskState.thy ===== *)
theory FdiskState
  imports FdiskOrder
begin

text \<open>
  The invariant of the partition editor over whole sessions: in every state that boot and any
  sequence of commands can lead to, the entries lie inside their sector buffers and apart.
\<close>

section \<open>Building blocks\<close>

definition fdisk_ok :: "fdisk \<Rightarrow> bool" where
  "fdisk_ok st \<longleftrightarrow> wf_fdisk st \<and> 512 \<le> unat (sector_size st) \<and> (extended_offset st \<noteq> 0 \<longrightarrow> 5 \<le> g_partitions st)"

lemma wf_upd [simp]:
  "wf_fdisk (st\<lparr>input := a\<rparr>) = wf_fdisk st" "wf_fdisk (st\<lparr>line_ptr := l\<rparr>) = wf_fdisk st" "wf_fdisk (st\<lparr>units_per_sector := u\<rparr>) = wf_fdisk st"
  "wf_fdisk (st\<lparr>sector_size := u\<rparr>) = wf_fdisk st" "wf_fdisk (st\<lparr>sector_offset := u\<rparr>) = wf_fdisk st"
  "wf_fdisk (st\<lparr>g_heads := u\<rparr>) = wf_fdisk st" "wf_fdisk (st\<lparr>g_sectors := u\<rparr>) = wf_fdisk st" "wf_fdisk (st\<lparr>g_cylinders := u\<rparr>) = wf_fdisk st"
  "wf_fdisk (st\<lparr>display_in_cyl_units := c\<rparr>) = wf_fdisk st" "wf_fdisk (st\<lparr>dos_compatible_flag := c\<rparr>) = wf_fdisk st"
  "wf_fdisk (st\<lparr>ext_index := n\<rparr>) = wf_fdisk st" "wf_fdisk (st\<lparr>user_cylinders := u\<rparr>) = wf_fdisk st"
  "wf_fdisk (st\<lparr>user_heads := u\<rparr>) = wf_fdisk st" "wf_fdisk (st\<lparr>user_sectors := u\<rparr>) = wf_fdisk st"
  "wf_fdisk (st\<lparr>pt_heads := u\<rparr>) = wf_fdisk st" "wf_fdisk (st\<lparr>pt_sectors := u\<rparr>) = wf_fdisk st"
  "wf_fdisk (st\<lparr>kern_heads := u\<rparr>) = wf_fdisk st" "wf_fdisk (st\<lparr>kern_sectors := u\<rparr>) = wf_fdisk st"
  "wf_fdisk (st\<lparr>extended_offset := u\<rparr>) = wf_fdisk st" "wf_fdisk (st\<lparr>total_number_of_sectors := u\<rparr>) = wf_fdisk st"
  "wf_fdisk (st\<lparr>disk := d\<rparr>) = wf_fdisk st"
  by (simp_all add: wf_fdisk_def wf_logical_def)

lemma ok_same: "same_table st st' \<Longrightarrow> fdisk_ok st \<Longrightarrow> fdisk_ok st'"
  using same_tableD(4,8,10,13) [of st st'] by (simp add: fdisk_ok_def)

lemma only_fields:
  "only p st st' \<Longrightarrow> sector_size st' = sector_size st \<and> extended_offset st' = extended_offset st \<and> g_partitions st' = g_partitions st"
  by (auto simp: only_def)

lemma ok_only: "only p st st' \<Longrightarrow> fdisk_ok st \<Longrightarrow> fdisk_ok st'"
  using wf_only [of p st st'] only_fields [of p st st'] by (simp add: fdisk_ok_def)

lemma upd_pte_sector_size [simp]: "sector_size (upd_pte i f st) = sector_size st"
  by (simp add: upd_pte_def)

lemma set_changed_sector_size [simp]: "sector_size (set_changed i st) = sector_size st" "extended_offset (set_changed i st) = extended_offset st"
  by (simp_all add: set_changed_def)

lemma ok_set_changed [simp]: "fdisk_ok (set_changed i st) = fdisk_ok st"
  by (simp add: fdisk_ok_def)

text \<open>Filling the sixteen bytes of an entry, from any source.\<close>

lemma only_fold:
  assumes "only p st s" "\<forall>k \<in> set ks. k < 16"
  shows "only p st (fold (\<lambda>k. set_part_byte p k (f k)) ks s)"
  using assms by (induction ks arbitrary: s) (auto intro: only_set)

lemma only_clear: "only p st (clear_partition (Some p) st)"
  unfolding clear_partition_def option.case by (rule only_fold [OF only_refl]) simp

lemma ok_clear: "fdisk_ok st \<Longrightarrow> fdisk_ok (clear_partition p st)"
  by (cases p) (auto simp: clear_partition_def [of None] intro: ok_only only_clear)

lemma ok_set_byte: "fdisk_ok st \<Longrightarrow> k < 16 \<Longrightarrow> fdisk_ok (set_part_byte p k v st)"
  by (blast intro: ok_only only_set only_refl)

lemma ok_start: "fdisk_ok st \<Longrightarrow> fdisk_ok (set_start_sect p v st)"
  by (blast intro: ok_only only_start)

lemma ok_nr: "fdisk_ok st \<Longrightarrow> fdisk_ok (set_nr_sects p v st)"
  unfolding set_nr_sects_def by (rule ok_only [OF only_store4 [OF only_refl]]) auto

lemma ok_hsc: "fdisk_ok st \<Longrightarrow> fdisk_ok (set_hsc_start_end p a b st)"
  unfolding set_hsc_start_end_def Let_def by (rule ok_only [OF only_hsc [OF only_hsc [OF only_refl]]]) auto

lemma ok_set_partition: "fdisk_ok st \<Longrightarrow> fdisk_ok (set_partition n doext start stop sysid st)"
  by (simp add: fdisk_ok_def wf_set_partition)

lemma ok_upd_pte:
  assumes "fdisk_ok st" "part_table (f (ptes st ! i)) = part_table (ptes st ! i)" "sectorbuffer (f (ptes st ! i)) = sectorbuffer (ptes st ! i)"
    and "4 \<le> i \<Longrightarrow> ext_pointer (f (ptes st ! i)) = ext_pointer (ptes st ! i)"
    and "i < 4 \<Longrightarrow> offset_from_dev_start (f (ptes st ! i)) = offset_from_dev_start (ptes st ! i)"
  shows "fdisk_ok (upd_pte i f st)"
  using assms wf_upd_pte by (simp add: fdisk_ok_def)

text \<open>Fewer entries, and a new one with a buffer of its own behind the first \<open>m\<close>.\<close>

lemma wf_fewer: "wf_fdisk st \<Longrightarrow> 4 \<le> m \<Longrightarrow> m \<le> g_partitions st \<Longrightarrow> wf_fdisk (st\<lparr>g_partitions := m\<rparr>)"
  by (auto simp: wf_fdisk_def wf_logical_def intro: inj_on_subset)

lemma wf_extend:
  assumes "wf_fdisk st" "4 \<le> m" "m \<le> g_partitions st" "m < MAXIMUM_PARTS" "512 \<le> length c"
    and "ptes st' = (ptes st)[m := e]" "bufs st' = (bufs st)(nbufs st := c)" "nbufs st' = nbufs st + 1" "g_partitions st' = m + 1"
    and "part_table e = Some (pt_offset (nbufs st) a)" "ext_pointer e = Some (pt_offset (nbufs st) b)" "a < 4" "b < 4" "a \<noteq> b"
      "sectorbuffer e = nbufs st"
  shows "wf_fdisk st'"
proof -
  have len: "length (ptes st) = MAXIMUM_PARTS" using assms(1) by (simp add: wf_fdisk_def)
  have nth: "ptes st' ! i = (if i = m then e else ptes st ! i)" for i using assms(4,6) len by (simp add: nth_list_update)
  have "wf_logical st i \<Longrightarrow> wf_logical st' i" if "i \<noteq> m" for i
    using that by (simp add: wf_logical_def nth assms(8) Let_def)
  then have old: "wf_logical st' i" if "i \<in> {4..<m}" for i using assms(1,3) that by (auto simp: wf_fdisk_def)
  have new: "wf_logical st' m"
  proof -
    have "0 < nbufs st" using assms(1) by (simp add: wf_fdisk_def)
    moreover have "list_ex (\<lambda>a. part_table e = Some (pt_offset (nbufs st) a)
        \<and> list_ex (\<lambda>b. ext_pointer e = Some (pt_offset (nbufs st) b) \<and> a \<noteq> b) [0..<4]) [0..<4]"
      unfolding list_ex_iff using assms(10-14) by (intro bexI [of _ a] conjI bexI [of _ b]) auto
    ultimately show ?thesis using assms(8,15) by (simp add: wf_logical_def nth)
  qed
  have "inj_on (\<lambda>i. sectorbuffer (ptes st ! i)) {4..<g_partitions st}" using assms(1) by (simp add: wf_fdisk_def)
  then have inj: "inj_on (\<lambda>i. sectorbuffer (ptes st ! i)) {4..<m}" using assms(3) by (auto intro: inj_on_subset)
  have less: "sectorbuffer (ptes st ! i) < nbufs st" if "i \<in> {4..<m}" for i
    using assms(1,3) that by (auto simp: wf_fdisk_def wf_logical_def Let_def)
  have "inj_on (\<lambda>i. sectorbuffer (ptes st' ! i)) {4..<m + 1}"
    using inj less assms(15) by (auto simp: inj_on_def nth less_Suc_eq) (metis less_irrefl)+
  moreover have "\<forall>i < 4. part_table (ptes st' ! i) = Some (pt_offset 0 i) \<and> offset_from_dev_start (ptes st' ! i) = 0 \<and> sectorbuffer (ptes st' ! i) = 0"
    using assms(1,2) by (simp add: nth wf_fdisk_def)
  moreover have "\<forall>b < nbufs st'. 512 \<le> length (bufs st' b)" using assms(1,5,7,8) by (auto simp: wf_fdisk_def less_Suc_eq)
  moreover have "\<forall>i \<in> {4..<m + 1}. wf_logical st' i" using old new by (auto simp: less_Suc_eq)
  ultimately show ?thesis using assms(2,4,6,8,9) len by (simp add: wf_fdisk_def)
qed

section \<open>Deleting and adding\<close>

text \<open>The entries behind a deleted one move up.\<close>

lemma wf_shift:
  assumes "wf_fdisk st" "4 \<le> i" "i < g_partitions st" "5 < g_partitions st"
    and "st' = st\<lparr>g_partitions := g_partitions st - 1,
        ptes := take i (ptes st) @ take (g_partitions st - 1 - i) (drop (i + 1) (ptes st)) @ drop (g_partitions st - 1) (ptes st)\<rparr>"
  shows "wf_fdisk st'"
proof -
  have len: "length (ptes st) = MAXIMUM_PARTS" "g_partitions st \<le> MAXIMUM_PARTS" using assms(1) by (simp_all add: wf_fdisk_def)
  define h where "h = (\<lambda>j. if j < i then j else j + 1)"
  have nth: "ptes st' ! j = ptes st ! h j" if "j < g_partitions st - 1" for j
    using that assms(3,5) len by (auto simp: h_def nth_append min_def)
  have h: "j \<in> {4..<g_partitions st - 1} \<Longrightarrow> h j \<in> {4..<g_partitions st}" "j < 4 \<Longrightarrow> h j = j" "h j = h k \<Longrightarrow> j = k" for j k
    using assms(2) by (auto simp: h_def split: if_splits)
  have inj: "inj_on (\<lambda>i. sectorbuffer (ptes st ! i)) {4..<g_partitions st}" using assms(1) by (simp add: wf_fdisk_def)
  have "inj_on (\<lambda>i. sectorbuffer (ptes st' ! i)) {4..<g_partitions st - 1}"
  proof (rule inj_onI)
    fix j k assume a: "j \<in> {4..<g_partitions st - 1}" "k \<in> {4..<g_partitions st - 1}" "sectorbuffer (ptes st' ! j) = sectorbuffer (ptes st' ! k)"
    then have "h j = h k" using inj_onD [OF inj _ h(1) h(1), of j k] nth by auto
    then show "j = k" by (rule h(3))
  qed
  moreover have "wf_logical st' j" if "j \<in> {4..<g_partitions st - 1}" for j
  proof -
    have "wf_logical st (h j)" using assms(1) h(1) [OF that] by (simp add: wf_fdisk_def)
    then show ?thesis using nth [of j] that by (simp add: wf_logical_def assms(5))
  qed
  moreover have "\<forall>i < 4. part_table (ptes st' ! i) = Some (pt_offset 0 i) \<and> offset_from_dev_start (ptes st' ! i) = 0 \<and> sectorbuffer (ptes st' ! i) = 0"
    using assms(1,4) nth h(2) by (simp add: wf_fdisk_def)
  moreover have "length (ptes st') = MAXIMUM_PARTS" using assms(3,5) len by (auto simp: min_def)
  moreover have "4 \<le> g_partitions st - 1" "g_partitions st - 1 \<le> MAXIMUM_PARTS" using assms(4) len(2) by linarith+
  moreover have same: "g_partitions st' = g_partitions st - 1" "bufs st' = bufs st" "nbufs st' = nbufs st" by (simp_all add: assms(5))
  moreover have "0 < nbufs st" "\<forall>b < nbufs st. 512 \<le> length (bufs st b)" using assms(1) by (simp_all add: wf_fdisk_def)
  ultimately show ?thesis unfolding wf_fdisk_def same by blast
qed

lemma ok_four: "fdisk_ok st \<Longrightarrow> 4 \<le> g_partitions st"
  by (simp add: fdisk_ok_def wf_fdisk_def)

lemma ok_fewer: "fdisk_ok st \<Longrightarrow> 5 \<le> m \<Longrightarrow> m \<le> g_partitions st \<Longrightarrow> fdisk_ok (st\<lparr>g_partitions := m\<rparr>)"
  by (simp add: fdisk_ok_def wf_fewer)

lemma ok_primary_only: "fdisk_ok st \<Longrightarrow> fdisk_ok (st\<lparr>g_partitions := 4, extended_offset := 0\<rparr>)"
  using wf_fewer [of st 4] ok_four [of st] by (simp add: fdisk_ok_def)

lemma only_partitions: "only p st st' \<Longrightarrow> g_partitions st' = g_partitions st"
  by (rule onlyD(2))

lemma ok_copy: "fdisk_ok st \<Longrightarrow> fdisk_ok (fold (\<lambda>k s. set_part_byte r k (f k) s) [0..<16] st)"
  by (rule ok_only [OF only_fold [OF only_refl]]) simp_all

lemma unlink_ok:
  assumes "fdisk_ok st"
  shows "fdisk_ok (unlink i st)" "g_partitions (unlink i st) = g_partitions st"
proof -
  have s: "only t st (set_start_sect t v st)" for t v by (rule only_start)
  have c: "only r st (set_nr_sects r w (set_start_sect r v (fold (\<lambda>k s. set_part_byte r k (f k) s) [0..<16] st)))" for r v w f
    unfolding set_nr_sects_def set_start_sect_def by (intro only_store4 only_fold only_refl) simp_all
  show "fdisk_ok (unlink i st)"
    using assms by (auto simp: unlink_def Let_def intro!: ok_upd_pte ok_only [OF c] intro: ok_start split: option.split)
  show "g_partitions (unlink i st) = g_partitions st"
    using onlyD(2) [OF c] onlyD(2) [OF s] by (auto simp: unlink_def Let_def split: option.split)
qed

lemma delete_partition_ok:
  assumes "fdisk_ok st" "i < g_partitions st"
  shows "fdisk_ok (delete_partition i st)"
proof -
  define s where "s = set_changed i st"
  have s: "fdisk_ok s" "i < g_partitions s" "4 \<le> g_partitions s" using assms ok_four [OF assms(1)] by (simp_all add: s_def)
  have "fdisk_ok (if IS_EXTENDED x \<and> i = ext_index s then upd_pte (ext_index s) (ext_pointer_update (\<lambda>_. None)) (s\<lparr>g_partitions := 4, extended_offset := 0\<rparr>) else s)"
    if "i < 4" for x
    using s that by (auto intro!: ok_upd_pte ok_primary_only)
  then have 1: "i < 4 \<Longrightarrow> fdisk_ok (clear_partition p (if IS_EXTENDED x \<and> i = ext_index s
      then upd_pte (ext_index s) (ext_pointer_update (\<lambda>_. None)) (s\<lparr>g_partitions := 4, extended_offset := 0\<rparr>) else s))" for p x
    by (rule ok_clear)
  have 2: "i > 4 \<Longrightarrow> fdisk_ok (set_changed (i - 1) (clear_partition p (s\<lparr>g_partitions := g_partitions s - 1\<rparr>)))" for p
    using s by (auto intro!: ok_clear ok_fewer)
  note u = unlink_ok [OF s(1), of i]
  have 3: "fdisk_ok ((unlink i s)\<lparr>g_partitions := g_partitions (unlink i s) - 1,
      ptes := take i (ptes (unlink i s)) @ take (g_partitions (unlink i s) - 1 - i) (drop (i + 1) (ptes (unlink i s))) @ drop (g_partitions (unlink i s) - 1) (ptes (unlink i s))\<rparr>)"
    if "4 \<le> i" "g_partitions (unlink i s) > 5"
    using wf_shift [OF _ that(1) _ that(2) refl] u s(2) that(2) by (auto simp: fdisk_ok_def)
  have 4: "fdisk_ok (clear_partition p (unlink i s))" for p using u(1) by (rule ok_clear)
  show ?thesis
    unfolding delete_partition_def s_def [symmetric] Let_def using assms(1) 1 2 3 4 by (simp add: not_less split del: if_split cong: if_cong) (simp split: if_split)
qed

lemma add_loop_same:
  assumes "add_loop extra es limit st temp nr = Some (Inr (s, st'))"
  shows "same_table st st'"
proof -
  have "r = Inr (s, st') \<longrightarrow> same_table st st'" if "add_loop extra es limit st temp nr = Some r" for extra es limit st temp nr r
    using that
  proof (induction rule: add_loop.raw_induct [rotated, consumes 1, case_names step])
    case (step loop extra es limit st temp nr r)
    define start where "start = add_pass (sector_offset st) extra es temp"
    define again where "again = (start \<ge> temp + units_per_sector st \<and> nr)"
    define temp' where "temp' = (if again then start else temp)"
    note b = step(2) [unfolded Let_def, folded start_def, folded again_def, folded temp'_def]
    have asked: "same_table st (snd x)" if "ask_start start limit st = Inr x" for x
      using ask_start_facts(2) [of start limit st "fst x" "snd x"] that by simp
    show ?case
      using b step(1) asked by (auto split: if_splits sum.splits intro: same_table_trans)
  qed
  then show ?thesis using assms by blast
qed

lemma ask_stop_same: "ask_stop start limit st = Inr (s, st') \<Longrightarrow> same_table st st'"
  using read_int_facts by (auto simp: ask_stop_def Let_def split: if_splits)

lemma place_link_ok: "fdisk_ok st \<Longrightarrow> fdisk_ok (snd (place_link n start st)) \<and> g_partitions (snd (place_link n start st)) = g_partitions st"
  by (auto simp: place_link_def Let_def intro!: ok_upd_pte)

lemma link_extended_ok:
  assumes "fdisk_ok st" "n < 4"
  shows "fdisk_ok (link_extended n start st)"
proof -
  define st1 where "st1 = upd_pte n (\<lambda>e. e\<lparr>ext_pointer := part_table e\<rparr>) (st\<lparr>ext_index := n, extended_offset := start\<rparr>)"
  have wf1: "wf_fdisk st1" unfolding st1_def using assms by (intro wf_upd_pte) (auto simp: fdisk_ok_def)
  have "wf_fdisk (link_extended n start st)"
    using assms by (intro wf_extend [OF wf1, of 4 "replicate (unat (sector_size st)) 0" _ _ 0 1])
      (auto simp: link_extended_def st1_def upd_pte_def Let_def fdisk_ok_def wf_fdisk_def MAXIMUM_PARTS_def)
  then show ?thesis using assms(1) by (simp add: fdisk_ok_def link_extended_def upd_pte_def Let_def)
qed

lemma add_finish_ok:
  assumes "fdisk_ok st" "IS_EXTENDED sys \<Longrightarrow> n < 4"
  shows "fdisk_ok (add_finish n sys start stop st)"
  using assms by (auto simp: add_finish_def Let_def intro!: link_extended_ok ok_set_partition)

lemma add_partition_ok:
  assumes "add_partition n sys st = Some (Inr st')" "fdisk_ok st" "IS_EXTENDED sys \<Longrightarrow> n < 4" "n < g_partitions st"
  shows "fdisk_ok st'"
proof (cases "part_table (ptes st ! n) \<noteq> None \<and> sys_ind st (get_part_table st n) \<noteq> 0")
  case True
  then show ?thesis using assms(1,2) by (simp add: add_partition_def)
next
  case False
  note run = assms(1) [unfolded add_partition_def if_not_P [OF False] Let_def]
  obtain start0 st1 where r: "add_loop (if n < 4 then 0 else sector_offset st) (add_entries n st) (add_limit n st) st (add_start n st) False = Some (Inr (start0, st1))"
  proof (cases "add_loop (if n < 4 then 0 else sector_offset st) (add_entries n st) (add_limit n st) st (add_start n st) False")
    case None
    then show ?thesis using run by simp
  next
    case (Some y)
    then obtain x where "y = Inr x" using run by (cases y) simp_all
    then show ?thesis using Some that by (cases x) simp
  qed
  define start where "start = fst (place_link n start0 st1)"
  define st2 where "st2 = snd (place_link n start0 st1)"
  define limit2 where "limit2 = fold (limit_step start) (zip (add_bounds n st) (map offset_from_dev_start (take (g_partitions st2) (ptes st2)))) (add_limit n st)"
  have "(if start > limit2 then Inr (if n > 4 then st2\<lparr>g_partitions := g_partitions st2 - 1\<rparr> else st2)
      else and_then (ask_stop start limit2 st2) (\<lambda>(stop, st3). Inr (add_finish n sys start stop st3))) = Inr st'"
    using run unfolding r by (simp add: case_prod_beta start_def st2_def limit2_def cong: if_cong)
  moreover have t: "same_table st st1" using r by (rule add_loop_same)
  then have "fdisk_ok st1" "g_partitions st1 = g_partitions st" using ok_same [OF t assms(2)] same_tableD(4) [OF t] by simp_all
  then have 2: "fdisk_ok st2" "g_partitions st2 = g_partitions st" using place_link_ok [of st1 n start0] by (simp_all add: st2_def)
  ultimately show ?thesis
    using assms(3,4) by (auto split: if_splits prod.splits intro!: add_finish_ok ok_fewer intro: ok_same ask_stop_same)
qed

lemma add_logical_ok:
  assumes "add_logical st = Some (Inr st')" "fdisk_ok st" "4 < g_partitions st"
  shows "fdisk_ok st'"
proof (cases "g_partitions st > 5 \<or> sys_ind st (get_part_table st 4) \<noteq> 0")
  case False
  then have "add_partition (g_partitions st - 1) LINUX_NATIVE st = Some (Inr st')" using assms(1) by (simp add: add_logical_def)
  from add_partition_ok [OF this assms(2)] show ?thesis using assms(3) by (simp add: native_type)
next
  case True
  define e where "e = \<lparr>part_table = Some (pt_offset (nbufs st) 0), ext_pointer = Some (pt_offset (nbufs st) 1),
        offset_from_dev_start = 0, sectorbuffer = nbufs st, changed = True\<rparr>"
  define c where "c = replicate (unat (sector_size st)) (0 :: u8)"
  define st1 where "st1 = upd_pte (g_partitions st) (\<lambda>_. e)
      (st\<lparr>bufs := (bufs st)(nbufs st := c), nbufs := nbufs st + 1, g_partitions := g_partitions st + 1\<rparr>)"
  have g: "g_partitions st < MAXIMUM_PARTS" using assms(1) True by (auto simp: add_logical_def split: if_splits)
  have r: "add_partition (g_partitions st1 - 1) LINUX_NATIVE st1 = Some (Inr st')"
    using assms(1) True g by (simp add: add_logical_def st1_def c_def e_def Let_def)
  have len: "512 \<le> length c" "wf_fdisk st" using assms(2) by (simp_all add: c_def fdisk_ok_def)
  have "ptes st1 = (ptes st)[g_partitions st := e]" "bufs st1 = (bufs st)(nbufs st := c)" "nbufs st1 = nbufs st + 1"
    "g_partitions st1 = g_partitions st + 1" by (simp_all add: st1_def upd_pte_def)
  note new = this
  have "wf_fdisk st1"
    by (rule wf_extend [where st = st and m = "g_partitions st" and c = c and e = e and a = 0 and b = 1])
      (use assms(3) g new len in \<open>simp_all add: e_def\<close>)
  then have "fdisk_ok st1" using assms(2) by (auto simp: fdisk_ok_def st1_def upd_pte_def)
  moreover have "g_partitions st1 = g_partitions st + 1" by (simp add: st1_def)
  ultimately show ?thesis using add_partition_ok [OF r] by (simp add: native_type)
qed

section \<open>Reading the table\<close>

lemma scan_facts:
  assumes "fold (scan_entry st b) ks (part, ext) = (part', ext')" "\<forall>k \<in> set ks. k < 4"
    and "part = None \<or> (\<exists>a < 4. part = Some (pt_offset b a) \<and> \<not> IS_EXTENDED (sys_ind st (pt_offset b a)))"
    and "ext = None \<or> (\<exists>a < 4. ext = Some (pt_offset b a) \<and> IS_EXTENDED (sys_ind st (pt_offset b a)))"
  shows "(part' = None \<or> (\<exists>a < 4. part' = Some (pt_offset b a) \<and> \<not> IS_EXTENDED (sys_ind st (pt_offset b a))))
    \<and> (ext' = None \<or> (\<exists>a < 4. ext' = Some (pt_offset b a) \<and> IS_EXTENDED (sys_ind st (pt_offset b a))))"
  using assms
proof (induction ks arbitrary: part ext)
  case (Cons k ks)
  obtain p1 e1 where s: "scan_entry st b k (part, ext) = (p1, e1)" by fastforce
  show ?case
  proof (rule Cons.IH)
    show "fold (scan_entry st b) ks (p1, e1) = (part', ext')" using Cons.prems(1) s by simp
    show "\<forall>k \<in> set ks. k < 4" using Cons.prems(2) by simp
    show "p1 = None \<or> (\<exists>a < 4. p1 = Some (pt_offset b a) \<and> \<not> IS_EXTENDED (sys_ind st (pt_offset b a)))"
      using s Cons.prems(2,3) by (auto simp: scan_entry_def Let_def split: if_splits)
    show "e1 = None \<or> (\<exists>a < 4. e1 = Some (pt_offset b a) \<and> IS_EXTENDED (sys_ind st (pt_offset b a)))"
      using s Cons.prems(2,4) by (auto simp: scan_entry_def Let_def split: if_splits)
  qed
qed simp

lemma pt_offset_inj [simp]: "pt_offset b a = pt_offset b c \<longleftrightarrow> a = c"
  by (simp add: pt_offset_def)

text \<open>The two pointers of a sector of the chain are different entries of it.\<close>

lemma fill_pointers_facts:
  assumes "fill_pointers b (fold (scan_entry st b) [0..<4] (None, None)) = (part, ext)"
  obtains a c where "a < 4" "c < 4" "a \<noteq> c" "part = Some (pt_offset b a)" "ext = Some (pt_offset b c)"
proof -
  obtain p0 e0 where f: "fold (scan_entry st b) [0..<4] (None, None) = (p0, e0)" by fastforce
  have "(p0 = None \<or> (\<exists>a < 4. p0 = Some (pt_offset b a) \<and> \<not> IS_EXTENDED (sys_ind st (pt_offset b a))))
    \<and> (e0 = None \<or> (\<exists>a < 4. e0 = Some (pt_offset b a) \<and> IS_EXTENDED (sys_ind st (pt_offset b a))))"
    by (rule scan_facts [OF f]) simp_all
  then consider (none) "p0 = None" "e0 = None" | (link) c where "p0 = None" "c < 4" "e0 = Some (pt_offset b c)"
    | (part) a where "a < 4" "p0 = Some (pt_offset b a)" "e0 = None"
    | (both) a c where "a < 4" "p0 = Some (pt_offset b a)" "c < 4" "e0 = Some (pt_offset b c)" "a \<noteq> c"
    by blast
  then show ?thesis
  proof cases
    case none
    then show ?thesis using assms that [of 0 1] unfolding f by (simp add: fill_pointers_def)
  next
    case (link c)
    then show ?thesis using assms that [of "if c = 0 then 1 else 0" c] unfolding f by (auto simp: fill_pointers_def)
  next
    case (part a)
    then show ?thesis using assms that [of a "if a = 0 then 1 else 0"] unfolding f by (auto simp: fill_pointers_def)
  next
    case (both a c)
    then show ?thesis using assms that [of a c] unfolding f by (simp add: fill_pointers_def)
  qed
qed

lemma read_chain_ok: "read_chain p st = Inr (complete, st') \<Longrightarrow> fdisk_ok st \<Longrightarrow> fdisk_ok st'"
proof (induction p st rule: read_chain.induct)
  case (1 p st)
  let ?g = "g_partitions st"
  show ?case
  proof (cases "\<not> IS_EXTENDED (sys_ind st p) \<or> ?g \<ge> MAXIMUM_PARTS")
    case True
    then show ?thesis using 1(2,3) ok_clear by (auto simp: read_chain.simps [of p st] split: if_splits)
  next
    case False
    then obtain st1 where r: "read_pte ?g (extended_offset st + get_start_sect st p) st = Inr st1"
      using 1(2) by (auto simp: read_chain.simps [of p st])
    define st2 where "st2 = (if extended_offset st1 = 0 then st1\<lparr>extended_offset := get_start_sect st p\<rparr> else st1)"
    define b where "b = sectorbuffer (ptes st2 ! ?g)"
    obtain part ext where f: "fill_pointers b (fold (scan_entry st2 b) [0..<4] (None, None)) = (part, ext)" by fastforce
    define st3 where "st3 = (upd_pte ?g (\<lambda>e. e\<lparr>part_table := part, ext_pointer := ext\<rparr>) st2)\<lparr>g_partitions := ?g + 1\<rparr>"
    have c: "read_chain (the ext) st3 = Inr (complete, st')"
      using 1(2) False r unfolding read_chain.simps [of p st] by (simp add: Let_def st3_def f [unfolded b_def st2_def] st2_def)
    have "fdisk_ok st3"
    proof -
      define off n where "off = unat (extended_offset st + get_start_sect st p) * unat (sector_size st)" and "n = unat (sector_size st)"
      have d: "off + n \<le> length (disk st)" and st1: "st1 = upd_pte ?g (\<lambda>_. \<lparr>part_table = None, ext_pointer = None,
            offset_from_dev_start = extended_offset st + get_start_sect st p, sectorbuffer = nbufs st, changed = False\<rparr>)
          (st\<lparr>bufs := (bufs st)(nbufs st := take n (drop off (disk st))), nbufs := nbufs st + 1\<rparr>)"
        using r by (auto simp: read_pte_def Let_def off_def n_def split: if_splits)
      have wf: "wf_fdisk st" "512 \<le> n" "4 \<le> ?g" "length (ptes st) = MAXIMUM_PARTS" using 1(3) ok_four [OF 1(3)] by (simp_all add: fdisk_ok_def n_def wf_fdisk_def)
      have b: "b = nbufs st" using False wf(4) by (simp add: b_def st2_def st1 upd_pte_nth) 
      obtain a a' where k: "a < 4" "a' < 4" "a \<noteq> a'" "part = Some (pt_offset b a)" "ext = Some (pt_offset b a')" using fill_pointers_facts [OF f] .
      define e where "e = \<lparr>part_table = part, ext_pointer = ext, offset_from_dev_start = extended_offset st + get_start_sect st p, sectorbuffer = nbufs st, changed = False\<rparr>"
      have "wf_fdisk st3"
      proof (rule wf_extend [where st = st and m = ?g and c = "take n (drop off (disk st))" and e = e and a = a and b = a'])
        show "ptes st3 = (ptes st)[?g := e]" using False wf(4) by (simp add: st3_def st2_def st1 upd_pte_def e_def)
      qed (use wf d k b False in \<open>simp_all add: st3_def st2_def st1 upd_pte_def e_def\<close>)
      then show ?thesis using 1(3) wf(3) by (auto simp: fdisk_ok_def st3_def st2_def st1 upd_pte_def)
    qed
    then show ?thesis
      using 1(1) [OF _ _ r st2_def b_def refl f [symmetric] refl c [unfolded st3_def]] False by (simp add: st3_def)
  qed
qed

lemma remove_links_ok: "remove_links k st = Inr st' \<Longrightarrow> fdisk_ok st \<Longrightarrow> fdisk_ok st'"
proof (induction k arbitrary: st)
  case 0
  then show ?case by (simp add: remove_links.simps split: option.splits)
next
  case (Suc k)
  show ?case
  proof (cases "empty_link st")
    case None
    then show ?thesis using Suc.prems by (simp add: remove_links.simps)
  next
    case (Some i)
    then have "i < g_partitions st" unfolding empty_link_def by (auto dest!: find_SomeD)
    then have "fdisk_ok (delete_partition i st)" using Suc.prems(2) by (intro delete_partition_ok)
    moreover have "remove_links k (delete_partition i st) = Inr st'" using Suc.prems(1) Some by (simp add: remove_links.simps [of "Suc k"])
    ultimately show ?thesis using Suc.IH by blast
  qed
qed

lemma ok_ext_index [simp]: "fdisk_ok (st\<lparr>ext_index := n\<rparr>) = fdisk_ok st"
  by (simp add: fdisk_ok_def)

lemma read_extended_ok:
  assumes "read_extended ext st = Inr st'" "fdisk_ok st" "ext < 4"
  shows "fdisk_ok st'"
proof -
  define st0 where "st0 = upd_pte ext (\<lambda>e. e\<lparr>ext_pointer := part_table e\<rparr>) (st\<lparr>ext_index := ext\<rparr>)"
  have 0: "fdisk_ok st0" unfolding st0_def using assms(2,3) by (intro ok_upd_pte) auto
  show ?thesis
    using assms(1) 0 unfolding read_extended_def st0_def [symmetric] Let_def
    by (auto split: if_splits intro: remove_links_ok read_chain_ok)
qed

lemma mark_flags_ok: "fdisk_ok st \<Longrightarrow> fdisk_ok (mark_flags st)"
proof -
  have "fdisk_ok (fold (\<lambda>i s. if valid_part_table_flag (bufs s (sectorbuffer (ptes s ! i))) then s else set_changed i s) ks st)" if "fdisk_ok st" for ks
    using that by (induction ks arbitrary: st) auto
  then show "fdisk_ok st \<Longrightarrow> fdisk_ok (mark_flags st)" by (simp add: mark_flags_def)
qed

lemma boot_extended_ok: "boot_extended i st = Inr st' \<Longrightarrow> fdisk_ok st \<Longrightarrow> i < 4 \<Longrightarrow> fdisk_ok st'"
  by (auto simp: boot_extended_def split: if_splits intro: read_extended_ok)

lemma created_table_ok:
  assumes "created_table st = Inr st'" "fdisk_ok st"
  shows "fdisk_ok st'"
proof -
  obtain s0 s1 s2 s3 where "boot_extended 0 st = Inr s0" "boot_extended 1 s0 = Inr s1" "boot_extended 2 s1 = Inr s2" "boot_extended 3 s2 = Inr s3"
      "st' = mark_flags s3"
    using assms(1) by (auto simp: created_table_def)
  then show ?thesis using assms(2) by (auto intro!: mark_flags_ok dest!: boot_extended_ok)
qed

text \<open>The buffers and the table of entries before the four primary entries are set up.\<close>

definition buffers_ok :: "fdisk \<Rightarrow> bool" where
  "buffers_ok st \<longleftrightarrow> length (ptes st) = MAXIMUM_PARTS \<and> 0 < nbufs st \<and> (\<forall>b < nbufs st. 512 \<le> length (bufs st b))
     \<and> 512 \<le> unat (sector_size st) \<and> extended_offset st = 0"

lemma init_ptes_ok: "buffers_ok st \<Longrightarrow> fdisk_ok (init_ptes chg st)"
  by (auto simp: buffers_ok_def fdisk_ok_def wf_fdisk_def init_ptes_def Let_def MAXIMUM_PARTS_def nth_append)

lemma length_fold_update: "length (fold (\<lambda>k b. b[f k := v]) ks b) = length b"
  by (induction ks arbitrary: b) auto

lemma create_doslabel_ok:
  assumes "create_doslabel st = Inr st'" "fdisk_ok st"
  shows "fdisk_ok st'"
proof -
  define c where "c = (fold (\<lambda>k b. b[510 - 4 * 16 + k := 0]) [0..<4 * 16] (bufs st 0))[510 := 0x55, 511 := (0xaa :: u8)]"
  define s where "s = set_changed 0 (set_all_unchanged (st\<lparr>g_partitions := 4, bufs := (bufs st)(0 := c), extended_offset := 0\<rparr>))"
  have "length c = length (bufs st 0)" by (simp add: c_def length_fold_update)
  then have "buffers_ok s"
    using assms(2) by (auto simp: s_def buffers_ok_def fdisk_ok_def wf_fdisk_def set_changed_def set_all_unchanged_def upd_pte_def)
  moreover have "create_doslabel st = created_table (init_ptes True s)"
    by (simp add: create_doslabel_def Let_def s_def c_def write_part_table_flag_def set_all_unchanged_def)
  ultimately show ?thesis using assms(1) created_table_ok init_ptes_ok by simp
qed

text \<open>Reading the geometry sets numbers only.\<close>

definition same_layout :: "fdisk \<Rightarrow> fdisk \<Rightarrow> bool" where
  "same_layout st st' \<longleftrightarrow> ptes st' = ptes st \<and> bufs st' = bufs st \<and> nbufs st' = nbufs st \<and> g_partitions st' = g_partitions st
     \<and> extended_offset st' = extended_offset st"

lemma wf_same_layout: "same_layout st st' \<Longrightarrow> wf_fdisk st' = wf_fdisk st"
  by (simp add: same_layout_def wf_fdisk_def wf_logical_def)

lemma sectorsize_layout: "same_layout st (get_sectorsize st)"
  by (simp add: same_layout_def get_sectorsize_def split: option.split)

lemma kernel_geometry_layout: "same_layout st (get_kernel_geometry st) \<and> sector_size (get_kernel_geometry st) = sector_size st"
  by (simp add: same_layout_def get_kernel_geometry_def split: option.split)

lemma table_geometry_layout: "same_layout st (get_partition_table_geometry st) \<and> sector_size (get_partition_table_geometry st) = sector_size st"
  by (simp add: same_layout_def get_partition_table_geometry_def split: prod.split)

lemma geometry_layout:
  "same_layout st (update_units (get_geometry st)) \<and> sector_size (update_units (get_geometry st)) = sector_size (get_sectorsize st)"
proof -
  define s1 where "s1 = (get_sectorsize st)\<lparr>g_heads := 0, g_cylinders := 0, g_sectors := 0, kern_heads := 0, kern_sectors := 0, pt_heads := 0, pt_sectors := 0\<rparr>"
  define s2 where "s2 = get_partition_table_geometry (get_kernel_geometry s1)"
  have "same_layout st s1 \<and> sector_size s1 = sector_size (get_sectorsize st)" using sectorsize_layout [of st] by (simp add: same_layout_def s1_def)
  then have "same_layout st s2 \<and> sector_size s2 = sector_size (get_sectorsize st)"
    using kernel_geometry_layout [of s1] table_geometry_layout [of "get_kernel_geometry s1"] unfolding s2_def same_layout_def by metis
  moreover have "same_layout s2 (update_units (get_geometry st)) \<and> sector_size (update_units (get_geometry st)) = sector_size s2"
    unfolding get_geometry_def Let_def s1_def [symmetric] s2_def [symmetric] update_units_def same_layout_def by simp
  ultimately show ?thesis unfolding same_layout_def by metis
qed

lemma get_boot_ok:
  assumes "get_boot st = Inr st'" "buffers_ok st" "\<forall>a. ioc_blksszget st = Some a \<longrightarrow> 512 \<le> unat a"
  shows "fdisk_ok st'"
proof -
  define c where "c = take 512 (disk st) @ drop 512 (bufs st 0)"
  define st2 where "st2 = (init_ptes False st)\<lparr>bufs := (bufs st)(0 := c)\<rparr>"
  have ib: "bufs (init_ptes False st) = bufs st" by (simp add: init_ptes_def Let_def)
  have d: "512 \<le> length (disk st)" using assms(1) by (auto simp: get_boot_def Let_def split: if_splits)
  have "init_ptes False (st\<lparr>bufs := (bufs st)(0 := c)\<rparr>) = st2" by (simp add: st2_def init_ptes_def Let_def)
  moreover have "buffers_ok (st\<lparr>bufs := (bufs st)(0 := c)\<rparr>)" using assms(2) d by (simp add: buffers_ok_def c_def)
  ultimately have 2: "fdisk_ok st2" using init_ptes_ok by metis
  have "512 \<le> unat (sector_size (get_sectorsize st2))"
    using assms(3) 2 by (auto simp: get_sectorsize_def fdisk_ok_def st2_def init_ptes_def Let_def split: option.split)
  then have "fdisk_ok (update_units (get_geometry st2))"
    using 2 geometry_layout [of st2] wf_same_layout [of st2 "update_units (get_geometry st2)"] by (simp add: fdisk_ok_def same_layout_def)
  moreover have "(if \<not> valid_part_table_flag (bufs (update_units (get_geometry st2)) 0) then create_doslabel (update_units (get_geometry st2))
      else created_table (update_units (get_geometry st2))) = Inr st'"
    using assms(1) d by (simp add: get_boot_def Let_def st2_def c_def ib cong: if_cong)
  ultimately show ?thesis by (auto split: if_splits intro: create_doslabel_ok created_table_ok)
qed

section \<open>Commands\<close>

lemma read_nonempty_same: "read_nonempty st = Inr st' \<Longrightarrow> same_table st st'"
proof (induction st rule: read_nonempty.induct)
  case (1 st)
  note e = 1(2) [unfolded read_nonempty.simps [of st]]
  then obtain s1 where s1: "read_line st = Inr s1" by auto
  have "same_table s1 st'" using e 1(1) [OF s1] s1 by (auto split: if_splits)
  then show ?case using read_line_same [OF s1] same_table_trans by blast
qed

lemma read_hex_same: "read_hex st = Inr (v, st') \<Longrightarrow> same_table st st'"
proof (induction st rule: read_hex.induct)
  case (1 st)
  note e = 1(4) [unfolded read_hex.simps [of st]]
  then obtain s1 where s1: "read_nonempty st = Inr s1" by auto
  have "same_table s1 st'" using e 1(1-3) [OF s1] s1 by (auto split: if_splits option.splits)
  then show ?case using read_nonempty_same [OF s1] same_table_trans by blast
qed

lemma get_partition_facts:
  assumes "get_partition mx st = Inr (i, st')" "mx \<le> 60"
  shows "i < mx" "same_table st st'"
proof -
  obtain v where v: "read_int 1 0 (of_nat mx) 0 st = Inr (v, st')" "i = unat (v - 1)" using assms(1) by (auto simp: get_partition_def)
  note f = read_int_facts [OF v(1)]
  show "same_table st st'" using f by blast
  have "1 \<le> unat v" "unat v \<le> mx" using f assms(2) by (simp_all add: word_le_nat_alt unat_of_nat)
  moreover from this have "unat (v - 1) = unat v - 1" by (intro unat_minus_one) auto
  ultimately show "i < mx" using v(2) by linarith
qed

lemma select_partition_facts:
  assumes "select_partition P mx st = Inr (sel, st')" "mx \<le> 60"
  shows "same_table st st'" "\<And>i. sel = Some i \<Longrightarrow> i < mx"
proof -
  define found where "found = filter (\<lambda>i. case part_table (ptes st ! i) of None \<Rightarrow> False | Some p \<Rightarrow> P st p) [0..<mx]"
  have sub: "i < mx" if "i \<in> set found" for i using that by (auto simp: found_def)
  note e = assms(1) [unfolded select_partition_def, folded found_def]
  have "same_table st st' \<and> (\<forall>i. sel = Some i \<longrightarrow> i < mx)"
    using e sub get_partition_facts [OF _ assms(2)] by (auto split: list.splits)
  then show "same_table st st'" "\<And>i. sel = Some i \<Longrightarrow> i < mx" by blast+
qed

lemma ok_sixty: "fdisk_ok st \<Longrightarrow> g_partitions st \<le> 60"
  by (simp add: fdisk_ok_def wf_fdisk_def MAXIMUM_PARTS_def)

lemma select_and_add_ok:
  assumes "select_and_add sys st = Some (Inr st')" "fdisk_ok st"
  shows "fdisk_ok st'"
proof -
  obtain sel s where r: "get_nonexisting_partition 4 st = Inr (sel, s)"
    using assms(1) by (auto simp: select_and_add_def split: sum.splits prod.splits)
  note f = select_partition_facts [OF r [unfolded get_nonexisting_partition_def]]
  have ok: "fdisk_ok s" using f(1) assms(2) ok_same by simp
  show ?thesis
  proof (cases sel)
    case None
    then show ?thesis using assms(1) r ok by (simp add: select_and_add_def)
  next
    case (Some i)
    have "add_partition i sys s = Some (Inr st')" using assms(1) r Some by (simp add: select_and_add_def)
    moreover have "i < 4" "i < g_partitions s" using f(2) [of i] Some ok_four [OF ok] by simp_all
    ultimately show ?thesis using add_partition_ok ok by blast
  qed
qed

lemma ok_logical: "fdisk_ok st \<Longrightarrow> extended_offset st \<noteq> 0 \<Longrightarrow> 4 < g_partitions st"
  by (simp add: fdisk_ok_def)

lemma new_choice_ok: "new_choice st = Some (Inr st') \<Longrightarrow> fdisk_ok st \<Longrightarrow> fdisk_ok st'"
proof (induction st rule: new_choice.induct)
  case (1 st)
  note e = 1(2) [unfolded new_choice.simps [of st]]
  then obtain s where s: "read_nonempty st = Inr s" by (auto split: sum.splits)
  have ok: "fdisk_ok s" using ok_same [OF read_nonempty_same [OF s] 1(3)] .
  show ?case
    using e [unfolded s sum.case Let_def] 1(1) [OF s refl] ok
    by (auto split: if_splits intro: select_and_add_ok add_logical_ok ok_logical)
qed

lemma new_partition_ok: "new_partition st = Some (Inr st') \<Longrightarrow> fdisk_ok st \<Longrightarrow> fdisk_ok st'"
  by (auto simp: new_partition_def Let_def split: if_splits intro: new_choice_ok add_logical_ok ok_logical)

lemma toggle_active_ok: "fdisk_ok st \<Longrightarrow> fdisk_ok (toggle_active i st)"
  by (simp add: toggle_active_def Let_def ok_set_byte)

lemma change_sysid_ok:
  assumes "change_sysid st = Inr st'" "fdisk_ok st"
  shows "fdisk_ok st'"
proof -
  obtain sel s where r: "get_existing_partition (g_partitions st) st = Inr (sel, s)" using assms(1) by (auto simp: change_sysid_def)
  note f = select_partition_facts [OF r [unfolded get_existing_partition_def] ok_sixty [OF assms(2)]]
  have ok: "fdisk_ok s" using f(1) assms(2) by (rule ok_same)
  have hex: "fdisk_ok x" if "read_hex s = Inr (v, x)" for v x using read_hex_same [OF that] ok by (rule ok_same)
  show ?thesis
    using assms(1) r ok hex by (auto simp: change_sysid_def Let_def split: option.splits if_splits intro!: ok_set_byte)
qed

lemma ok_scalars [simp]:
  "fdisk_ok (update_units st) = fdisk_ok st" "fdisk_ok (toggle_dos_compatibility_flag st) = fdisk_ok st" "fdisk_ok (change_units st) = fdisk_ok st"
  "fdisk_ok (st\<lparr>g_cylinders := u, user_cylinders := v\<rparr>) = fdisk_ok st" "fdisk_ok (st\<lparr>g_heads := u, user_heads := v\<rparr>) = fdisk_ok st"
  "fdisk_ok (st\<lparr>g_sectors := u, user_sectors := v\<rparr>) = fdisk_ok st" "fdisk_ok (st\<lparr>g_sectors := u, user_sectors := v, sector_offset := w\<rparr>) = fdisk_ok st"
  by (simp_all add: fdisk_ok_def update_units_def toggle_dos_compatibility_flag_def change_units_def Let_def)

lemma only_frame [simp]:
  "sector_size (set_start_sect p v st) = sector_size st" "extended_offset (set_start_sect p v st) = extended_offset st"
  "sector_size (put_bytes p bs st) = sector_size st" "extended_offset (put_bytes p bs st) = extended_offset st"
  using only_fields [OF only_start [of p st v]] only_fields [OF put_bytes_only [of p st bs]] by simp_all

lemma swap_frames [simp]:
  "sector_size (swap_links j st) = sector_size st" "extended_offset (swap_links j st) = extended_offset st"
  "sector_size (swap_starts j st) = sector_size st" "extended_offset (swap_starts j st) = extended_offset st"
  "sector_size (swap_primaries i k st) = sector_size st" "extended_offset (swap_primaries i k st) = extended_offset st"
  by (simp_all add: swap_links_def swap_starts_def swap_primaries_def exchange_def Let_def)

lemma swapped_ok: "swapped i k st st' \<Longrightarrow> fdisk_ok st \<Longrightarrow> sector_size st' = sector_size st \<Longrightarrow> extended_offset st' = extended_offset st \<Longrightarrow> fdisk_ok st'"
  by (simp add: swapped_def fdisk_ok_def)

lemma stage1_ok: "stage1 st = Some st' \<Longrightarrow> fdisk_ok st \<longrightarrow> fdisk_ok st'"
proof (induction rule: stage1.raw_induct [rotated, consumes 1, case_names step])
  case (step loop st st')
  show ?case
  proof (cases "find (\<lambda>j. sint (offset_from_dev_start (ptes st ! j)) > sint (offset_from_dev_start (ptes st ! (j + 1)))) [5..<g_partitions st - 1]")
    case None
    then show ?thesis using step(2) by simp
  next
    case (Some j)
    then have "5 \<le> j" "j + 1 < g_partitions st" by (auto dest!: find_SomeD)
    then have "fdisk_ok st \<longrightarrow> fdisk_ok (swap_links j st)" using swap_links_same [OF _ _ _ refl, of st j] by (simp add: fdisk_ok_def)
    moreover have "loop (swap_links j st) = Some st'" using step(2) Some by simp
    ultimately show ?thesis using step(1) by blast
  qed
qed

lemma stage2_ok: "stage2 st = Some st' \<Longrightarrow> fdisk_ok st \<longrightarrow> fdisk_ok st'"
proof (induction rule: stage2.raw_induct [rotated, consumes 1, case_names step])
  case (step loop st st')
  show ?case
  proof (cases "find (\<lambda>j. sint (get_partition_start_from_dev_start st j) > sint (get_partition_start_from_dev_start st (j + 1))) [4..<g_partitions st - 1]")
    case None
    then show ?thesis using step(2) by simp
  next
    case (Some j)
    then have "j + 1 < g_partitions st" by (auto dest!: find_SomeD)
    then have "fdisk_ok st \<longrightarrow> fdisk_ok (swap_starts j st)"
      using swap_starts_swapped [of st j] by (auto intro: swapped_ok simp: fdisk_ok_def [of st])
    moreover have "loop (swap_starts j st) = Some st'" using step(2) Some by simp
    ultimately show ?thesis using step(1) by blast
  qed
qed

lemma fix_order_ok:
  assumes "fix_partition_table_order st = Some st'" "fdisk_ok st"
  shows "fdisk_ok st'"
proof -
  have prim: "fdisk_ok s'" if "fix_primaries s = Some s'" "fdisk_ok s" for s s'
  proof -
    have "fix_primaries s = Some s' \<Longrightarrow> fdisk_ok s \<longrightarrow> fdisk_ok s'"
    proof (induction rule: fix_primaries.raw_induct [rotated, consumes 1, case_names step])
      case (step loop s s')
      show ?case
      proof (rule impI)
        assume ok: "fdisk_ok s"
        note g = ok_four [OF ok]
        show "fdisk_ok s'"
        proof (cases "wrong_from s [0..<4] 0 0")
          case None
          have "wrong_p_order s = None \<or> (\<exists>r. wrong_p_order s = Some r \<and> \<not> fst r < 4)"
            using wrong_from_set [of s "[4..<g_partitions s]" 0 4] None by (cases "wrong_from s [4..<g_partitions s] 0 4") (auto simp: wrong_p_order_split [OF g])
          then show ?thesis using step(2) ok by auto
        next
          case (Some r)
          have ik: "fst r < 4" "snd r < fst r" using wrong_from_Some [of s 0 4 0 0 "fst r" "snd r"] Some by auto
          have "swapped (fst r) (snd r) s (swap_primaries (fst r) (snd r) s)"
            using ok ik by (intro swap_primaries_swapped) (auto simp: fdisk_ok_def)
          then have "fdisk_ok (swap_primaries (fst r) (snd r) s)" using ok by (rule swapped_ok) simp_all
          moreover have "loop (swap_primaries (fst r) (snd r) s) = Some s'"
            using step(2) ik Some by (simp add: wrong_p_order_split [OF g])
          ultimately show ?thesis using step(1) by blast
        qed
      qed
    qed
    then show ?thesis using that by blast
  qed
  have "fdisk_ok (fold set_changed is s) = fdisk_ok s" for "is" s by (induction "is" arbitrary: s) auto
  then have chain: "fdisk_ok s'" if "fix_chain_of_logicals s = Some s'" "fdisk_ok s" for s s'
    using that stage1_ok stage2_ok unfolding fix_chain_of_logicals_def bind_eq_Some_conv by blast
  show ?thesis
    using assms prim chain unfolding fix_partition_table_order_def by (auto simp: bind_eq_Some_conv split: if_splits)
qed

lemma move_begin_ok:
  assumes "move_begin i st = Inr st'" "fdisk_ok st"
  shows "fdisk_ok st'"
proof (cases "warn_geometry st \<or> sys_ind st (get_part_table st i) = 0 \<or> get_nr_sects st (get_part_table st i) = 0
    \<or> IS_EXTENDED (sys_ind st (get_part_table st i))")
  case True
  then show ?thesis using assms by (auto simp: move_begin_def Let_def split: if_splits)
next
  case False
  let ?p = "get_part_table st i" and ?f = "get_partition_start_from_dev_start st i"
  obtain new st1 where r: "read_int 0 ?f (?f + get_nr_sects st ?p - 1) ?f st = Inr (new, st1)"
    using assms(1) False by (auto simp: move_begin_def Let_def)
  have 1: "fdisk_ok st1" using ok_same assms(2) read_int_facts [OF r] by blast
  show ?thesis
  proof (cases "new = ?f")
    case True
    then show ?thesis using assms(1) False r 1 by (simp add: move_begin_def Let_def)
  next
    case new: False
    define rel where "rel = new - offset_from_dev_start (ptes st1 ! i)"
    define nr where "nr = get_nr_sects st ?p + (get_start_sect st1 ?p - rel)"
    define st2 where "st2 = set_nr_sects ?p nr (set_start_sect ?p rel st1)"
    obtain st3 where 3: "read_nonempty st2 = Inr st3" "st' = set_changed i (if (of_char (hd (line_ptr st3)) :: nat) OR 0x20 = of_char (CHR ''y'')
        then set_hsc_start_end ?p new (new + nr - 1) st3 else st3)"
      using assms(1) False r new by (auto simp: move_begin_def Let_def rel_def nr_def st2_def)
    have "fdisk_ok st2" unfolding st2_def using 1 by (intro ok_nr ok_start)
    then have "fdisk_ok st3" using ok_same read_nonempty_same [OF 3(1)] by blast
    then show ?thesis using 3(2) ok_hsc by simp
  qed
qed

lemma expert_command_ok: "expert_command st = Some (Inr (Next st')) \<Longrightarrow> fdisk_ok st \<Longrightarrow> fdisk_ok st'"
  "expert_command st = Some (Inr (Back st')) \<Longrightarrow> fdisk_ok st \<Longrightarrow> fdisk_ok st'"
proof -
  assume ok: "fdisk_ok st"
  have int: "fdisk_ok s" if "read_int a b c d st = Inr (v, s)" for a b c d v s using ok_same [OF _ ok] read_int_facts [OF that] by blast
  have part: "fdisk_ok s" if "get_partition (g_partitions st) st = Inr (i, s)" for i s
    using ok_same [OF _ ok] get_partition_facts(2) [OF that ok_sixty [OF ok]] by blast
  show "fdisk_ok st'" if "expert_command st = Some (Inr (Next st'))"
    using that ok int part move_begin_ok fix_order_ok
    by (auto simp: expert_command_def Let_def bind_eq_Some_conv split: if_splits)
  show "fdisk_ok st'" if "expert_command st = Some (Inr (Back st'))"
    using that ok by (auto simp: expert_command_def Let_def bind_eq_Some_conv split: if_splits)
qed

lemma xselect_ok: "xselect st = Some (Inr (Next st')) \<Longrightarrow> fdisk_ok st \<Longrightarrow> fdisk_ok st'"
proof -
  have "xselect st = Some r \<Longrightarrow> r = Inr (Next st') \<longrightarrow> fdisk_ok st \<longrightarrow> fdisk_ok st'" for r
  proof (induction rule: xselect.raw_induct [rotated, consumes 1, case_names step])
    case (step loop st r)
    show ?case
    proof (intro impI)
      assume r: "r = Inr (Next st')" and ok: "fdisk_ok st"
      obtain st1 where 1: "read_nonempty st = Inr st1" using step(2) r by (auto split: sum.splits)
      have ok1: "fdisk_ok st1" using ok_same [OF read_nonempty_same [OF 1] ok] .
      obtain y where y: "expert_command st1 = Some y" using step(2) 1 by (cases "expert_command st1") auto
      then obtain x where x: "expert_command st1 = Some (Inr x)" using step(2) 1 r by (cases y) simp_all
      show "fdisk_ok st'"
      proof (cases x)
        case (Next st2)
        then have "loop st2 = Some r" using step(2) 1 x by simp
        then show ?thesis using step(1) r expert_command_ok(1) [of st1 st2] x Next ok1 by blast
      next
        case (Back st2)
        then show ?thesis using step(2) 1 x r expert_command_ok(2) [of st1 st2] ok1 by simp
      next
        case (Done b st2)
        then show ?thesis using step(2) 1 x r by simp
      qed
    qed
  qed
  then show "xselect st = Some (Inr (Next st')) \<Longrightarrow> fdisk_ok st \<Longrightarrow> fdisk_ok st'" by blast
qed

lemma command_ok:
  assumes "command st = Some (Inr (Next st'))" "fdisk_ok st"
  shows "fdisk_ok st'"
proof -
  have part: "fdisk_ok s" if "get_partition (g_partitions st) st = Inr (i, s)" for i s
    using ok_same [OF _ assms(2)] get_partition_facts(2) [OF that ok_sixty [OF assms(2)]] by blast
  have del: "fdisk_ok (case sel of None \<Rightarrow> s | Some j \<Rightarrow> delete_partition j s)"
    if "get_existing_partition (g_partitions st) st = Inr (sel, s)" for sel s
  proof -
    note f = select_partition_facts [OF that [unfolded get_existing_partition_def] ok_sixty [OF assms(2)]]
    have "fdisk_ok s" "g_partitions s = g_partitions st" using ok_same [OF f(1) assms(2)] same_tableD(4) [OF f(1)] by simp_all
    then show ?thesis using f(2) delete_partition_ok by (auto split: option.split)
  qed
  have new: "fdisk_ok s" if "new_partition st = Some (Inr s)" for s using new_partition_ok [OF that assms(2)] .
  show ?thesis
    using assms part del new toggle_active_ok create_doslabel_ok change_sysid_ok xselect_ok
    by (auto simp: command_def Let_def bind_eq_Some_conv split: if_splits)
qed

text \<open>
  The states of a session: after the table was read, and after every command of either menu. Every
  command starts with a line that is not empty.
\<close>

inductive session :: "fdisk \<Rightarrow> fdisk \<Rightarrow> bool" for st0 where
  booted: "get_boot st0 = Inr st \<Longrightarrow> session st0 st"
| main: "session st0 st \<Longrightarrow> read_nonempty st = Inr st1 \<Longrightarrow> command st1 = Some (Inr (Next st2)) \<Longrightarrow> session st0 st2"
| expert: "session st0 st \<Longrightarrow> read_nonempty st = Inr st1 \<Longrightarrow> expert_command st1 = Some (Inr (Next st2)) \<Longrightarrow> session st0 st2"

lemma session_ok:
  assumes "session st0 st" "buffers_ok st0" "\<forall>a. ioc_blksszget st0 = Some a \<longrightarrow> 512 \<le> unat a"
  shows "fdisk_ok st"
  using assms(1)
proof induction
  case (booted st)
  then show ?case using get_boot_ok assms(2,3) by blast
next
  case (main st st1 st2)
  then show ?case using command_ok ok_same read_nonempty_same by blast
next
  case (expert st st1 st2)
  then show ?case using expert_command_ok(1) ok_same read_nonempty_same by blast
qed

lemma options_buffers:
  assumes "fdisk_options bopt copt hopt sopt uopt (INIT_G inp dsk ssz geo) = Some st0"
  shows "buffers_ok st0 \<and> ioc_blksszget st0 = ssz"
  using assms
  by (auto simp: fdisk_options_def INIT_G_def Let_def buffers_ok_def DEFAULT_SECTOR_SIZE_def MAX_SECTOR_SIZE_def not_less word_le_nat_alt
      split: option.splits if_splits)


section \<open>Writing and reading back\<close>

lemma created_table_plain:
  "\<forall>i < 4. \<not> IS_EXTENDED (sys_ind st (get_part_table st i)) \<Longrightarrow> created_table st = Inr (mark_flags st)"
  by (simp add: created_table_def boot_extended_def)

lemma mark_flags_plain: "g_partitions st = 4 \<Longrightarrow> valid_part_table_flag (bufs st (sectorbuffer (ptes st ! 3))) \<Longrightarrow> mark_flags st = st"
  by (simp add: mark_flags_def upt_rec)

text \<open>Reading a table without an extended partition gives the bytes of the first sector.\<close>

lemma get_boot_plain:
  assumes "512 \<le> length (disk st)" "length (ptes st) = MAXIMUM_PARTS" "valid_part_table_flag (disk st)" "512 \<le> length (bufs st 0)"
    and "\<forall>i < 4. \<not> IS_EXTENDED (disk st ! (0x1be + i * 16 + 4))"
  obtains st' where "get_boot st = Inr st'" "g_partitions st' = 4"
    "\<And>i. i < 4 \<Longrightarrow> get_part_table st' i = pt_offset 0 i \<and> offset_from_dev_start (ptes st' ! i) = 0"
    "\<And>i k. i < 4 \<Longrightarrow> k < 16 \<Longrightarrow> part_byte st' (pt_offset 0 i) k = disk st ! (0x1be + i * 16 + k)"
proof -
  define c where "c = take 512 (disk st) @ drop 512 (bufs st 0)"
  define st2 where "st2 = (init_ptes False st)\<lparr>bufs := (bufs st)(0 := c)\<rparr>"
  define st3 where "st3 = update_units (get_geometry st2)"
  have ib: "bufs (init_ptes False st) = bufs st" by (simp add: init_ptes_def Let_def)
  have f: "bufs st3 = (bufs st)(0 := c)" "ptes st3 = ptes st2" "g_partitions st3 = 4"
    using geometry_layout [of st2] by (simp_all add: same_layout_def st3_def) (simp_all add: st2_def init_ptes_def Let_def)
  have e: "ptes st2 ! i = \<lparr>part_table = Some (pt_offset 0 i), ext_pointer = None, offset_from_dev_start = 0, sectorbuffer = 0, changed = False\<rparr>" if "i < 4" for i
    using that assms(2) by (simp add: st2_def init_ptes_def Let_def nth_append)
  have b: "part_byte st3 (pt_offset 0 i) k = disk st ! (0x1be + i * 16 + k)" if "i < 4" "k < 16" for i k
    using that assms(1) by (simp add: part_byte_def f(1) pt_offset_def c_def nth_append)
  have v: "valid_part_table_flag (bufs st3 0)" using assms(1,3) by (simp add: f(1) c_def valid_part_table_flag_def nth_append)
  have t: "get_part_table st3 i = pt_offset 0 i" if "i < 4" for i using e [OF that] by (simp add: get_part_table_def f(2))
  have "get_boot st = created_table st3"
    using assms(1) v by (simp add: get_boot_def Let_def st3_def st2_def c_def ib)
  also have "\<dots> = Inr (mark_flags st3)" using assms(5) b t by (intro created_table_plain) auto
  also have "mark_flags st3 = st3" using e [of 3] v f by (intro mark_flags_plain) simp_all
  finally show ?thesis using that f(2,3) t b e by simp
qed

lemma write_table_plain:
  assumes "wf_fdisk st" "g_partitions st = 4" "list_ex (\<lambda>i. changed (ptes st ! i)) [0..<4]"
    and "unat (sector_size st) \<le> length (bufs st 0)" "unat (sector_size st) \<le> length (disk st)"
  shows "write_table st = (True, (if list_ex (\<lambda>i. changed (ptes st ! i)) [0..<3] then set_changed 3 st else st)
      \<lparr>bufs := (bufs st)(0 := (bufs st 0)[510 := 0x55, 511 := 0xaa]),
       disk := take (unat (sector_size st)) ((bufs st 0)[510 := 0x55, 511 := 0xaa]) @ drop (unat (sector_size st)) (disk st)\<rparr>)"
proof -
  define s where "s = (if list_ex (\<lambda>i. changed (ptes st ! i)) [0..<3] then set_changed 3 st else st)"
  have "length (ptes st) = 60" using assms(1) by (simp add: wf_fdisk_def MAXIMUM_PARTS_def)
  moreover have "list_ex (\<lambda>i. changed (ptes st ! i)) [0..<3] \<or> changed (ptes st ! 3)"
  proof -
    obtain i where "i < 4" "changed (ptes st ! i)" using assms(3) by (auto simp: list_ex_iff)
    moreover have "i = 3 \<or> i < 3" using \<open>i < 4\<close> by linarith
    ultimately show ?thesis by (auto simp: list_ex_iff)
  qed
  ultimately have "changed (ptes s ! 3)" by (auto simp: s_def set_changed_def upd_pte_nth)
  moreover have "sectorbuffer (ptes s ! 3) = 0" "offset_from_dev_start (ptes s ! 3) = 0"
    using wf_primary(3,4) [OF assms(1), of 3] by (auto simp: s_def set_changed_pte)
  moreover have "bufs s = bufs st" "disk s = disk st" "sector_size s = sector_size st" by (simp_all add: s_def set_changed_def)
  moreover have "[3..<4 :: nat] = [3]" by (simp add: upt_rec)
  ultimately show ?thesis
    using assms(2,4,5) by (simp add: write_table_def s_def [symmetric] write_part_table_flag_def write_sector_def Let_def)
qed



lemma demo_one_more:
  "sector_size (demo_one inp) = 512" "length (bufs (demo_one inp) 0) = 2048" "changed (ptes (demo_one inp) ! 0)"
  "sys_ind (demo_one inp) (get_part_table (demo_one inp) 0) = LINUX_NATIVE"
proof -
  let ?st = "demo_fdisk inp"
  let ?s = "store_partition (get_part_table ?st 0) (offset_from_dev_start (ptes ?st ! 0)) 63 99 LINUX_NATIVE ?st"
  have e: "demo_one inp = set_changed 0 ?s" by (simp add: demo_one_def set_partition_store)
  have o: "only (get_part_table ?st 0) ?st ?s" by (rule store_partition_only)
  have t: "get_part_table ?s 0 = get_part_table ?st 0" using onlyD(1) [OF o] by (simp add: get_part_table_def)
  have b: "in_buf ?st (get_part_table ?st 0)" by (rule wf_in_buf) simp_all
  show "sector_size (demo_one inp) = 512"
    by (simp add: demo_one_def demo_fdisk_def init_ptes_def INIT_G_def DEFAULT_SECTOR_SIZE_def Let_def)
  show "length (bufs (demo_one inp) 0) = 2048" using onlyD(7) [OF o, of 0] by (simp add: e)
  show "changed (ptes (demo_one inp) ! 0)" using onlyD(1) [OF o] by (simp add: e set_changed_def upd_pte_nth)
  show "sys_ind (demo_one inp) (get_part_table (demo_one inp) 0) = LINUX_NATIVE"
    using store_partition_fields(1) [OF b] by (simp add: e t)
qed


end
