(* ===== verification/Mkvfat.thy ===== *)
theory Mkvfat
  imports HashCore Tr Dd
begin

text \<open>
  \<open>util-linux/mkfs_vfat.c\<close>, which the flash script runs on the partition for the user's data, and
  \<open>libbb/get_volsize.c\<close>. The program finds the size of the volume, guesses the media, computes the
  number of clusters and the size of the FATs, and writes the file system from the beginning on
  without seeking. \<open>off_t\<close> has 64 bits. The structures of the boot and info sectors are written
  field by field at their offsets, which the source states beside the fields.
\<close>

section \<open>Constants\<close>

definition SECTOR_SIZE :: u32 where "SECTOR_SIZE = 512"
definition EOF_FAT32 :: u32 where "EOF_FAT32 = 0x0FFFFFF8"
definition MAX_CLUST_32 :: u32 where "MAX_CLUST_32 = 0x0FFFFFF0"
definition ATTR_VOLUME :: u8 where "ATTR_VOLUME = 8"
definition NUM_FATS :: u32 where "NUM_FATS = 2"
definition info_sector_number :: u32 where "info_sector_number = 1"
definition backup_boot_sector :: u32 where "backup_boot_sector = 3"
definition reserved_sect :: u32 where "reserved_sect = 6"
definition BOOT_SIGN :: u16 where "BOOT_SIGN = 0xAA55"
definition FAT_FSINFO_SIG1 :: u32 where "FAT_FSINFO_SIG1 = 0x41615252"
definition FAT_FSINFO_SIG2 :: u32 where "FAT_FSINFO_SIG2 = 0x61417272"

definition boot_code :: bytes where
  "boot_code = map char_of [0x0e, 0x1f, 0xbe, 0x77, 0x7c, 0xac, 0x22, 0xc0, 0x74, 0x0b, 0x56, 0xb4, 0x0e, 0xbb, 0x07, 0x00,
     0xcd, 0x10, 0x5e, 0xeb, 0xf0, 0x32, 0xe4, 0xcd, 0x16, 0xcd, 0x19, 0xeb, 0xfe :: nat]
     @ ''This is not a bootable disk'' @ [CHR 0x0D, CHR 0x0A, NUL]"

section \<open>The device\<close>

text \<open>
  What is opened: its kind, its bytes and the position in it; \<open>dv_limit\<close>, the largest size it can have
  (the size of a block device, the limit of the file system for a file); what the calls answer
  (\<open>BLKSSZGET\<close>, \<open>HDIO_GETGEO\<close> with heads and sectors, \<open>FDGETPRM\<close> with size, sectors and heads, \<open>None\<close>
  for a failing call) and how the kernel splits the writes.
\<close>

datatype node_kind = BlockDev | RegularFile | OtherNode

record vdev =
  dv_kind :: node_kind
  dv_data :: bytes
  dv_pos :: nat
  dv_limit :: nat
  dv_seekable :: bool
  dv_events :: "io_event list"
  dv_blksszget :: "u32 option"
  dv_getgeo :: "(u8 \<times> u8) option"
  dv_fdgetprm :: "(u32 \<times> u32 \<times> u32) option"

datatype vfat_error = OpenFailed | SizeMissing | IoctlFailed | SeekFailed | BadNumber num_error | ImageTooBig | ImageTooSmall
  | TooSmallForFat32 | TooManySectors | WriteFailed

text \<open>\<open>xwrite\<close> at the position; no write reaches behind the limit.\<close>

definition dev_write :: "bytes \<Rightarrow> vdev \<Rightarrow> vfat_error + vdev" where
  "dev_write b d =
     (if dv_limit d < dv_pos d + length b then Inl WriteFailed
      else case xwrite b \<lparr>sk_data = [], sk_events = dv_events d\<rparr> of
        Inl _ \<Rightarrow> Inl WriteFailed
      | Inr s \<Rightarrow> Inr (d\<lparr>dv_data := overlay (dv_pos d) (sk_data s) (dv_data d), dv_pos := dv_pos d + length (sk_data s),
                        dv_events := sk_events s\<rparr>))"

text \<open>\<open>lseek\<close>; a position is an \<open>off_t\<close>, so one before the beginning is negative.\<close>

definition dev_seek :: "int \<Rightarrow> vdev \<Rightarrow> vdev option" where
  "dev_seek pos d = (if dv_seekable d \<and> 0 \<le> pos \<and> pos \<le> int (dv_limit d) then Some (d\<lparr>dv_pos := nat pos\<rparr>) else None)"

definition get_volume_size_in_bytes :: "string option \<Rightarrow> nat \<Rightarrow> bool \<Rightarrow> vdev \<Rightarrow> vfat_error + (u64 \<times> vdev)" where
  "get_volume_size_in_bytes override override_units may_extend d =
     and_then
       (case override of
          Some s \<Rightarrow>
            (case xatou_range ULLONG_MAX s 0 LLONG_MAX of
               Inl e \<Rightarrow> Inl (BadNumber e)
             | Inr v \<Rightarrow>
                 if v \<ge> LLONG_MAX div override_units then Inl ImageTooBig
                 else
                   let result = v * override_units in
                   case dev_seek (int result - 1) d of
                     Some d1 \<Rightarrow>
                       if may_extend then and_then (dev_write [NUL] d1) (\<lambda>d2. Inr (of_nat result, d2))
                       else Inr (of_nat result, d1)
                   | None \<Rightarrow> Inr (of_nat result, d))
        | None \<Rightarrow> if dv_seekable d then Inr (of_nat (length (dv_data d)), d) else Inl SeekFailed)
       (\<lambda>(result, d'). case dev_seek 0 d' of
          None \<Rightarrow> Inl SeekFailed
        | Some d'' \<Rightarrow> if result < 16 * 1024 then Inl ImageTooSmall else Inr (result, d''))"

section \<open>Media parameters\<close>

definition sector_size :: "string option \<Rightarrow> vdev \<Rightarrow> vfat_error + u32" where
  "sector_size size_arg d =
     (if dv_kind d \<noteq> BlockDev then
        if dv_kind d \<noteq> RegularFile \<and> size_arg = None then Inl SizeMissing else Inr SECTOR_SIZE
      else case dv_blksszget d of
        None \<Rightarrow> Inl IoctlFailed
      | Some min_bytes_per_sect \<Rightarrow> Inr (if sint min_bytes_per_sect > 512 then min_bytes_per_sect else SECTOR_SIZE))"

record media =
  volume_size_sect :: u64
  media_byte :: u8
  heads :: u8
  sect_per_track :: u16
  sect_per_clust :: u8

definition set_cluster_size :: "u64 \<Rightarrow> u8" where
  "set_cluster_size volume_size_bytes =
     (if volume_size_bytes \<ge> 260 * 1024 * 1024 then
        let t = (ucast (drop_bit 1 (drop_bit 31 volume_size_bytes)) :: u32) in
        if t \<ge> 4 then 32 else if t \<ge> 2 then 16 else 8
      else 1)"

text \<open>
  A geometry makes the volume a hard disk. Otherwise its size in sectors tells a floppy disk or its
  image, and any other size is a hard disk again unless the driver says it is a floppy. The heads and
  sectors the floppy driver reports are always overwritten.
\<close>

definition guess_media :: "u64 \<Rightarrow> u64 \<Rightarrow> vdev \<Rightarrow> media" where
  "guess_media volume_size_bytes vss d =
     (let hard = (\<lambda>h s. \<lparr>volume_size_sect = vss, media_byte = 0xf8, heads = h, sect_per_track = s,
            sect_per_clust = set_cluster_size volume_size_bytes\<rparr>);
          geo = (case dv_getgeo d of Some (h, s) \<Rightarrow> s \<noteq> 0 \<and> h \<noteq> 0 | None \<Rightarrow> False)
      in if geo then hard (fst (the (dv_getgeo d))) (ucast (snd (the (dv_getgeo d))))
         else
           let v = (case dv_fdgetprm d of Some (sz, sect, head) \<Rightarrow> ucast sz | None \<Rightarrow> vss);
               floppy = (\<lambda>m. \<lparr>volume_size_sect = v, media_byte = m, heads = 2,
                 sect_per_track = (let t = (ucast ((ucast v :: u32) div 160) :: u16) in if t < 9 then 9 else t), sect_per_clust = 1\<rparr>)
           in if v = 2 * 360 then floppy 0xfd
              else if v = 2 * 720 \<or> v = 2 * 1200 then floppy 0xf9
              else if v = 2 * 1440 \<or> v = 2 * 2880 then floppy 0xf0
              else if dv_fdgetprm d = None then hard 255 63
              else floppy 0xf0)"

section \<open>Clusters and tables\<close>

text \<open>
  One round of the search: the number of clusters for the present sizes is right, the table has to
  grow, or the clusters are too many and have to be made larger (\<open>next:\<close>). All arithmetic wraps as
  in the source; \<open>spf_adj\<close> is read as an \<open>int\<close>.
\<close>

datatype clust_step = FoundTotal u32 | GrowFat u32 | LargerClusters

definition clust_round :: "u64 \<Rightarrow> u32 \<Rightarrow> u32 \<Rightarrow> u8 \<Rightarrow> clust_step" where
  "clust_round vss bps sect_per_fat spc =
     (let tcl = (vss - ucast reserved_sect - ucast (NUM_FATS * sect_per_fat)) div ucast spc in
      if tcl > 0x80ffffff then LargerClusters
      else
        let total_clust = (ucast tcl :: u32);
            spf_adj = ((total_clust + 2) + (bps div 4) - 1) div (bps div 4) - sect_per_fat
        in if sint spf_adj \<le> 0 then
             if total_clust \<le> MAX_CLUST_32 then FoundTotal total_clust else LargerClusters
           else GrowFat (sect_per_fat + ((spf_adj div 2) OR 1)))"

partial_function (option) clust_loop :: "u64 \<Rightarrow> u32 \<Rightarrow> u32 \<Rightarrow> u8 \<Rightarrow> (vfat_error + (u32 \<times> u32 \<times> u8)) option" where
  "clust_loop vss bps sect_per_fat spc =
     (case clust_round vss bps sect_per_fat spc of
        FoundTotal total_clust \<Rightarrow> Some (Inr (sect_per_fat, total_clust, spc))
      | GrowFat sect_per_fat' \<Rightarrow> clust_loop vss bps sect_per_fat' spc
      | LargerClusters \<Rightarrow>
          if spc = 128 then Some (Inl TooManySectors)
          else clust_loop vss bps ((sect_per_fat div 2) OR 1) (spc * 2))"

declare clust_loop.simps [code]

section \<open>The image\<close>

text \<open>Stores into the buffer, in order; \<open>strncpy\<close> fills its field with zeros.\<close>

definition stores :: "(nat \<times> bytes) list \<Rightarrow> bytes \<Rightarrow> bytes" where
  "stores = fold (\<lambda>(off, b). blit off b)"

definition strncpy :: "nat \<Rightarrow> string \<Rightarrow> bytes" where
  "strncpy n s = take n s @ replicate (n - length s) NUL"

definition boot_stores :: "media \<Rightarrow> u32 \<Rightarrow> u32 \<Rightarrow> u8 \<Rightarrow> u32 \<Rightarrow> string \<Rightarrow> (nat \<times> bytes) list" where
  "boot_stores md bps sect_per_fat spc volume_id volume_label =
     [(0x000, [CHR 0xEB, CHR 0x58, CHR 0x90] @ ''mkdosfs'' @ [NUL]),
      (0x00b, le_bytes 2 bps),
      (0x00d, le_bytes 1 spc),
      (0x00e, le_bytes 2 reserved_sect),
      (0x010, le_bytes 1 NUM_FATS)]
     @ (if volume_size_sect md \<le> 0xffff then [(0x013, le_bytes 2 (volume_size_sect md))] else [])
     @ [(0x015, le_bytes 1 (media_byte md)),
      (0x018, le_bytes 2 (sect_per_track md)),
      (0x01a, le_bytes 2 (ucast (heads md) :: u16)),
      (0x020, le_bytes 4 (volume_size_sect md)),
      (0x024, le_bytes 4 sect_per_fat),
      (0x02c, le_bytes 4 (2 :: u32)),
      (0x030, le_bytes 2 info_sector_number),
      (0x032, le_bytes 2 backup_boot_sector),
      (0x042, le_bytes 1 (0x29 :: u8)),
      (0x043, le_bytes 4 volume_id),
      (0x052, strncpy 8 ''FAT32   ''),
      (0x047, strncpy 11 volume_label),
      (0x05a, boot_code),
      (0x1fe, le_bytes 2 BOOT_SIGN)]"

definition info_stores :: "nat \<Rightarrow> u32 \<Rightarrow> (nat \<times> bytes) list" where
  "info_stores base total_clust =
     [(base, le_bytes 4 FAT_FSINFO_SIG1),
      (base + 484, le_bytes 4 FAT_FSINFO_SIG2),
      (base + 488, le_bytes 4 (total_clust - 1)),
      (base + 492, le_bytes 4 (2 :: u32)),
      (base + 510, le_bytes 2 BOOT_SIGN)]"

definition fat_stores :: "u8 \<Rightarrow> (nat \<times> bytes) list" where
  "fat_stores media =
     [(0, le_bytes 4 ((0x0fffff00 :: u32) OR ucast media)),
      (4, le_bytes 4 (0xffffffff :: u32)),
      (8, le_bytes 4 EOF_FAT32)]"

definition root_stores :: "string \<Rightarrow> (nat \<times> bytes) list" where
  "root_stores volume_label =
     (if volume_label \<noteq> [] then [(0, strncpy 11 volume_label), (0x00b, le_bytes 1 ATTR_VOLUME)] else [])"

fun write_times :: "nat \<Rightarrow> bytes \<Rightarrow> vdev \<Rightarrow> vfat_error + vdev" where
  "write_times 0 b d = Inr d"
| "write_times (Suc n) b d = and_then (dev_write b d) (write_times n b)"

definition write_fat :: "nat \<Rightarrow> u32 \<Rightarrow> bytes \<Rightarrow> vdev \<Rightarrow> vfat_error + vdev" where
  "write_fat bps sect_per_fat buf d =
     and_then (dev_write (take bps buf) d) (write_times (unat sect_per_fat - 1) (take bps (drop bps buf)))"

definition write_image :: "media \<Rightarrow> u32 \<Rightarrow> u32 \<Rightarrow> u32 \<Rightarrow> u8 \<Rightarrow> u32 \<Rightarrow> string \<Rightarrow> vdev \<Rightarrow> vfat_error + vdev" where
  "write_image md bytes_per_sect sect_per_fat total_clust spc volume_id volume_label d =
     (let bps = unat bytes_per_sect;
          buf = replicate (unat ((reserved_sect OR 2 OR ucast spc) * bytes_per_sect)) NUL;
          buf1 = stores (boot_stores md bytes_per_sect sect_per_fat spc volume_id volume_label @ info_stores bps total_clust) buf;
          buf2 = stores ((0, replicate (unat (bytes_per_sect * 2)) NUL) # fat_stores (media_byte md)) buf1;
          buf3 = stores ((0, replicate (unat (ucast spc * bytes_per_sect)) NUL) # root_stores volume_label) buf2
      in and_then (dev_write (take (unat (bytes_per_sect * backup_boot_sector)) buf1) d) (\<lambda>d1.
         and_then (dev_write (take (unat (bytes_per_sect * (reserved_sect - backup_boot_sector))) buf1) d1) (\<lambda>d2.
         and_then (write_fat bps sect_per_fat buf2 d2) (\<lambda>d3.
         and_then (write_fat bps sect_per_fat buf2 d3) (\<lambda>d4.
         dev_write (take (unat (ucast spc * bytes_per_sect)) buf3) d4)))))"

text \<open>The program, behind its options: \<open>None\<close> is not returning, the device \<open>None\<close> cannot be opened.\<close>

definition mkfs_vfat_main :: "string \<Rightarrow> string option \<Rightarrow> u32 \<Rightarrow> vdev option \<Rightarrow> (vfat_error + vdev) option" where
  "mkfs_vfat_main volume_label size_arg volume_id dev =
     (case dev of
        None \<Rightarrow> Some (Inl OpenFailed)
      | Some d \<Rightarrow>
          (case and_then (sector_size size_arg d) (\<lambda>bps.
                and_then (get_volume_size_in_bytes size_arg 1024 True d) (\<lambda>(bytes, d1). Inr (bps, bytes, d1))) of
             Inl e \<Rightarrow> Some (Inl e)
           | Inr (bps, volume_size_bytes, d1) \<Rightarrow>
               let md = guess_media volume_size_bytes (volume_size_bytes div ucast bps) d1 in
               if sint (volume_size_sect md - ucast reserved_sect) < 4 then Some (Inl TooSmallForFat32)
               else map_option (\<lambda>r. and_then r (\<lambda>(sect_per_fat, total_clust, spc).
                      write_image md bps sect_per_fat total_clust spc volume_id volume_label d1))
                    (clust_loop (volume_size_sect md) bps 1 (sect_per_clust md))))"

end
