(* ===== verification/VfatLayout.thy ===== *)
theory VfatLayout
  imports Mkvfat
begin

text \<open>
  The search of \<open>mkfs_vfat_main\<close> for the number of clusters and the size of the tables: every round is
  arithmetic on natural numbers, the search ends, and what it finds fits the volume.
\<close>

section \<open>A round of the search\<close>

lemmas vfat_consts = reserved_sect_def NUM_FATS_def MAX_CLUST_32_def SECTOR_SIZE_def backup_boot_sector_def
  info_sector_number_def

text \<open>The sectors a table of \<open>T\<close> clusters needs, with \<open>B\<close> entries in a sector.\<close>

definition fat_need :: "nat \<Rightarrow> nat \<Rightarrow> nat" where
  "fat_need B T = (T + 2 + B - 1) div B"

definition clusters :: "nat \<Rightarrow> nat \<Rightarrow> nat \<Rightarrow> nat" where
  "clusters V F C = (V - 2 * F) div C"

lemma fat_need_Suc: "0 < B \<Longrightarrow> fat_need B T = Suc ((T + 1) div B)"
  using div_add_self2 [of B "T + 1"] by (simp add: fat_need_def)

lemma fat_need_holds:
  assumes "0 < B" "fat_need B T \<le> F"
  shows "T + 2 \<le> F * B"
proof -
  have "(T + 1) div B < F" using assms fat_need_Suc by simp
  then show ?thesis using assms(1) by (simp add: div_less_iff_less_mult Suc_le_eq)
qed

lemma fat_need_le: "128 \<le> B \<Longrightarrow> fat_need B T \<le> Suc ((T + 1) div 128)"
  using div_le_mono2 [of 128 B "T + 1"] fat_need_Suc [of B T] by simp

lemma clusters_le: "clusters V F C \<le> V - 2 * F"
  unfolding clusters_def by (rule div_le_dividend)

lemma or_1_nat: "(n OR 1 :: nat) = n + of_bool (even n)"
  by (rule or_one_eq)

lemma half_or_1: "0 < n \<Longrightarrow> (n div 2 OR 1 :: nat) \<le> n" "1 \<le> (n OR 1 :: nat)"
  unfolding or_1_nat by (cases "n = 1"; cases "even (n div 2)"; simp; presburger) (cases "n = 0", simp_all)

lemma unat_up_word:
  assumes "LENGTH('a) \<le> LENGTH('b)"
  shows "unat (ucast (w :: 'a::len word) :: 'b::len word) = unat w"
proof -
  have "unat w < 2 ^ LENGTH('a)" by (rule unsigned_less)
  also have "\<dots> \<le> 2 ^ LENGTH('b)" using assms by (rule power_increasing) simp
  finally show ?thesis by (simp add: unsigned_ucast_eq take_bit_nat_eq_self)
qed

lemma unat_up: "unat (ucast (w :: u32) :: u64) = unat w" "unat (ucast (v :: u8) :: u64) = unat v"
    "unat (ucast v :: u32) = unat v" "unat (ucast v :: u16) = unat v"
  by (simp_all add: unat_up_word)

lemma unat_or_1: "unat (w OR 1 :: u32) = (unat w OR 1)"
  by (simp add: unsigned_or_eq)

text \<open>The bounds under which no operation of a round wraps.\<close>

definition round_ok :: "nat \<Rightarrow> u32 \<Rightarrow> nat \<Rightarrow> nat \<Rightarrow> bool" where
  "round_ok V bps F C \<longleftrightarrow> 512 \<le> unat bps \<and> unat bps < 2 ^ 31 \<and> 1 \<le> F \<and> 4 * F \<le> V \<and> F < 2 ^ 26 \<and> 1 \<le> C \<and> C \<le> 128"

lemma round_tcl:
  fixes vss :: u64 and spc :: u8
  assumes "unat vss = V + 6" "round_ok V bps (unat spf) (unat spc)"
  shows "unat ((vss - ucast reserved_sect - ucast (NUM_FATS * spf)) div ucast spc) = clusters V (unat spf) (unat spc)"
proof -
  have f: "unat (NUM_FATS * spf) = 2 * unat spf"
    using assms(2) unat_mult_lem [of "2 :: u32" spf] by (simp add: round_ok_def NUM_FATS_def)
  have "unat (vss - 6) = V"
    using unat_sub [of 6 vss] assms(1) by (simp add: word_le_nat_alt)
  then have "unat (vss - 6 - ucast (NUM_FATS * spf)) = V - 2 * unat spf"
    using unat_sub [of "ucast (NUM_FATS * spf)" "vss - 6"] f assms(2)
    by (simp add: word_le_nat_alt unat_up round_ok_def)
  then show ?thesis
    by (simp add: unat_div unat_up clusters_def reserved_sect_def)
qed

lemma round_need:
  assumes "round_ok V bps (unat spf) C" "unat t = T" "T \<le> 0x80ffffff"
  shows "unat ((t + 2 + (bps div 4) - 1) div (bps div 4)) = fat_need (unat bps div 4) T"
    and "fat_need (unat bps div 4) T < 2 ^ 26"
proof -
  define B where "B = unat bps div 4"
  have "512 \<le> unat bps" "unat bps < 2 ^ 31" using assms(1) by (simp_all add: round_ok_def)
  then have B: "128 \<le> B" "B < 2 ^ 29" by (simp_all add: B_def less_mult_imp_div_less le_div_geq)
  have u: "unat (bps div 4) = B" by (simp add: unat_div B_def)
  have "unat (t + 2) = T + 2" using unat_add_lem [of t 2] assms(2,3) by simp
  moreover from this have "unat (t + 2 + (bps div 4)) = T + 2 + B"
    using unat_add_lem [of "t + 2" "bps div 4"] assms(3) u B by simp
  moreover from this have "unat (t + 2 + (bps div 4) - 1) = T + 2 + B - 1"
    using unat_sub [of 1 "t + 2 + (bps div 4)"] by (simp add: word_le_nat_alt)
  ultimately show "unat ((t + 2 + (bps div 4) - 1) div (bps div 4)) = fat_need (unat bps div 4) T"
    by (simp add: unat_div u fat_need_def B_def)
  show "fat_need (unat bps div 4) T < 2 ^ 26"
    using fat_need_le [OF B(1), of T] div_le_mono [of "T + 1" "0x81000000" 128] assms(3) by (simp add: B_def)
qed

lemma sint_diff_small:
  assumes "unat (a :: u32) < 2 ^ 26" "unat b < 2 ^ 26"
  shows "sint (a - b) \<le> 0 \<longleftrightarrow> unat a \<le> unat b"
    and "unat b < unat a \<Longrightarrow> unat (a - b) = unat a - unat b"
proof -
  have "signed_take_bit 31 (int A - int B) = int A - int B" if "A < 2 ^ 26" "B < 2 ^ 26" for A B
    using that by (intro signed_take_bit_int_eq_self) simp_all
  from this [OF assms] have "signed_take_bit 31 (int (unat a) - int (unat b)) = int (unat a) - int (unat b)" .
  moreover have "sint (a - b) = signed_take_bit 31 (sint a - sint b)" by (simp add: sint_word_ariths)
  ultimately have "sint (a - b) = int (unat a) - int (unat b)"
    using assms sint_small [of a] sint_small [of b] by simp
  then show "sint (a - b) \<le> 0 \<longleftrightarrow> unat a \<le> unat b" by linarith
  show "unat b < unat a \<Longrightarrow> unat (a - b) = unat a - unat b"
    by (rule unat_sub) (simp add: word_le_nat_alt)
qed

text \<open>A round in natural numbers: \<open>T\<close> clusters and the sectors their table needs.\<close>

lemma clust_round_eq:
  fixes vss :: u64 and spc :: u8
  assumes "unat vss = V + 6" "round_ok V bps (unat spf) (unat spc)"
  defines "F \<equiv> unat spf" and "T \<equiv> clusters V (unat spf) (unat spc)" and "N \<equiv> fat_need (unat bps div 4) (clusters V (unat spf) (unat spc))"
  shows "0x80ffffff < T \<Longrightarrow> clust_round vss bps spf spc = LargerClusters"
    and "T \<le> 0x80ffffff \<Longrightarrow> N \<le> F \<Longrightarrow> 0x0ffffff0 < T \<Longrightarrow> clust_round vss bps spf spc = LargerClusters"
    and "T \<le> 0x0ffffff0 \<Longrightarrow> N \<le> F \<Longrightarrow> \<exists>t. clust_round vss bps spf spc = FoundTotal t \<and> unat t = T"
    and "T \<le> 0x80ffffff \<Longrightarrow> F < N \<Longrightarrow>
      \<exists>w. clust_round vss bps spf spc = GrowFat w \<and> unat w = F + ((N - F) div 2 OR 1) \<and> unat w \<le> N \<and> N < 2 ^ 26"
proof -
  let ?tcl = "(vss - ucast reserved_sect - ucast (NUM_FATS * spf)) div ucast spc"
  let ?need = "\<lambda>t. (t + 2 + (bps div 4) - 1) div (bps div 4) :: u32"
  have tcl: "unat ?tcl = T" using round_tcl [OF assms(1,2)] by (simp add: T_def)
  have big: "?tcl > 0x80ffffff \<longleftrightarrow> 0x80ffffff < T" using tcl by (simp add: word_less_nat_alt)
  then show "0x80ffffff < T \<Longrightarrow> clust_round vss bps spf spc = LargerClusters"
    by (simp add: clust_round_def Let_def)
  define t where "t = (ucast ?tcl :: u32)"
  have t: "unat t = T" if "T \<le> 0x80ffffff"
    using that tcl by (simp add: t_def unsigned_ucast_eq take_bit_nat_eq_self)
  have F: "F < 2 ^ 26" using assms(2) by (simp add: round_ok_def F_def)
  have eq: "clust_round vss bps spf spc =
      (if N \<le> F then if T \<le> 0x0ffffff0 then FoundTotal t else LargerClusters else GrowFat (spf + ((?need t - spf) div 2 OR 1)))"
    and N: "unat (?need t) = N" "N < 2 ^ 26" if "T \<le> 0x80ffffff"
  proof -
    note n = round_need [OF assms(2) t [OF that] that]
    show "unat (?need t) = N" "N < 2 ^ 26" using n by (simp_all add: N_def T_def)
    then have "sint (?need t - spf) \<le> 0 \<longleftrightarrow> N \<le> F" using sint_diff_small(1) [of "?need t" spf] F by (simp add: F_def)
    moreover have "t \<le> MAX_CLUST_32 \<longleftrightarrow> T \<le> 0x0ffffff0" using t [OF that] by (simp add: word_le_nat_alt MAX_CLUST_32_def)
    ultimately show "clust_round vss bps spf spc =
      (if N \<le> F then if T \<le> 0x0ffffff0 then FoundTotal t else LargerClusters else GrowFat (spf + ((?need t - spf) div 2 OR 1)))"
      using big that by (simp add: clust_round_def Let_def flip: t_def)
  qed
  show "T \<le> 0x80ffffff \<Longrightarrow> N \<le> F \<Longrightarrow> 0x0ffffff0 < T \<Longrightarrow> clust_round vss bps spf spc = LargerClusters"
    using eq by simp
  show "T \<le> 0x0ffffff0 \<Longrightarrow> N \<le> F \<Longrightarrow> \<exists>t. clust_round vss bps spf spc = FoundTotal t \<and> unat t = T"
    using eq t by simp
  assume a: "T \<le> 0x80ffffff" "F < N"
  have d: "unat ((?need t - spf) div 2 OR 1) = ((N - F) div 2 OR 1)"
    using sint_diff_small(2) [of "?need t" spf] N [OF a(1)] F a(2) by (simp add: unat_or_1 unat_div F_def)
  have le: "(N - F) div 2 OR 1 \<le> N - F" by (rule half_or_1) (use a(2) in simp)
  have "F + ((N - F) div 2 OR 1) \<le> N" using le a(2) by linarith
  also have "N < 2 ^ 32" using N(2) [OF a(1)] by simp
  finally have room: "F + ((N - F) div 2 OR 1) < 2 ^ 32" .
  have "unat (spf + ((?need t - spf) div 2 OR 1)) = F + ((N - F) div 2 OR 1)"
    using unat_add_lem [of spf "(?need t - spf) div 2 OR 1"] room unfolding d F_def by simp
  then show "\<exists>w. clust_round vss bps spf spc = GrowFat w \<and> unat w = F + ((N - F) div 2 OR 1) \<and> unat w \<le> N \<and> N < 2 ^ 26"
    using eq [OF a(1)] a le N(2) [OF a(1)] by simp
qed

section \<open>The search ends\<close>

text \<open>
  What the search returns for a volume of \<open>V\<close> sectors behind the reserved ones: sizes that fit, or the
  refusal of a volume that even the largest clusters cannot cover.
\<close>

definition layout_ok :: "nat \<Rightarrow> u32 \<Rightarrow> vfat_error + (u32 \<times> u32 \<times> u8) \<Rightarrow> bool" where
  "layout_ok V bps r \<longleftrightarrow> (case r of
     Inl e \<Rightarrow> e = TooManySectors \<and> 128 * 0x0ffffff0 < V
   | Inr (spf, t, spc) \<Rightarrow>
       unat t = clusters V (unat spf) (unat spc) \<and> unat t \<le> 0x0ffffff0 \<and> 2 \<le> unat t
       \<and> 4 * (unat t + 2) \<le> unat spf * unat bps \<and> 1 \<le> unat spf \<and> 4 * unat spf \<le> V \<and> unat spf < 2 ^ 26
       \<and> unat spc \<in> {1, 2, 4, 8, 16, 32, 64, 128})"

lemma layout_found:
  assumes "round_ok V bps (unat spf) (unat spc)" "unat t = clusters V (unat spf) (unat spc)" "unat t \<le> 0x0ffffff0"
    and "fat_need (unat bps div 4) (unat t) \<le> unat spf" "4 * unat spc \<le> V" "unat spc \<in> {1, 2, 4, 8, 16, 32, 64, 128}"
  shows "layout_ok V bps (Inr (spf, t, spc))"
proof -
  have r: "512 \<le> unat bps" "1 \<le> unat spf" "4 * unat spf \<le> V" "unat spf < 2 ^ 26" "1 \<le> unat spc"
    using assms(1) by (simp_all add: round_ok_def)
  have "0 < unat bps div 4" using r(1) by (simp add: div_greater_zero_iff)
  then have "unat t + 2 \<le> unat spf * (unat bps div 4)" by (rule fat_need_holds) (rule assms(4))
  then have "4 * (unat t + 2) \<le> unat spf * (4 * (unat bps div 4))" by simp
  also have "\<dots> \<le> unat spf * unat bps" by (intro mult_left_mono) simp_all
  finally have h: "4 * (unat t + 2) \<le> unat spf * unat bps" .
  have "2 * unat spc \<le> V - 2 * unat spf" using r(3) assms(5) by linarith
  then have "2 \<le> clusters V (unat spf) (unat spc)"
    using r(5) by (simp add: clusters_def less_eq_div_iff_mult_less_eq mult.commute)
  then show ?thesis using assms(2,3,6) h r by (simp add: layout_ok_def)
qed

text \<open>The next state of the search keeps the bounds.\<close>

lemma round_grow:
  assumes "round_ok V bps F C" "F < N" "N = fat_need (unat bps div 4) (clusters V F C)" "W \<le> N" "F < W" "N < 2 ^ 26"
  shows "round_ok V bps W C"
proof -
  have r: "512 \<le> unat bps" "1 \<le> F" "4 * F \<le> V" using assms(1) by (simp_all add: round_ok_def)
  have B: "128 \<le> unat bps div 4" using r(1) by (simp add: less_eq_div_iff_mult_less_eq)
  have "clusters V F C + 1 \<le> V - 1" using clusters_le [of V F C] r by linarith
  then have "(clusters V F C + 1) div 128 \<le> (V - 1) div 128" by (rule div_le_mono)
  then have "N \<le> Suc ((V - 1) div 128)" using fat_need_le [OF B] assms(3) by (metis Suc_le_mono order_trans)
  then have "4 * W \<le> V" using assms(4) r by linarith
  then show ?thesis using assms by (simp add: round_ok_def)
qed

lemma round_larger:
  assumes "round_ok V bps F C" "C < 128" "C \<in> {1, 2, 4, 8, 16, 32, 64, 128}"
  shows "round_ok V bps (F div 2 OR 1) (2 * C)"
proof -
  have "F div 2 OR 1 \<le> F" "1 \<le> (F div 2 OR 1)" using assms(1) half_or_1 by (simp_all add: round_ok_def)
  then show ?thesis using assms by (auto simp: round_ok_def)
qed

lemma clust_loop_returns:
  fixes vss :: u64 and spc :: u8
  assumes "unat vss = V + 6" "round_ok V bps (unat spf) (unat spc)" "4 * unat spc \<le> V" "unat spc \<in> {1, 2, 4, 8, 16, 32, 64, 128}"
  shows "\<exists>r. clust_loop vss bps spf spc = Some r \<and> layout_ok V bps r"
  using assms(2-4)
proof (induction "(128 - unat spc, 2 ^ 26 - unat spf)" arbitrary: spf spc rule: wf_induct_rule [OF wf_lex_prod [OF wf_less wf_less]])
  case (1 spf spc)
  note round = clust_round_eq [OF assms(1) "1.prems"(1)]
  let ?F = "unat spf" and ?T = "clusters V (unat spf) (unat spc)"
  let ?N = "fat_need (unat bps div 4) ?T"
  have larger: ?case if big: "0x0ffffff0 < ?T" and c: "clust_round vss bps spf spc = LargerClusters"
  proof (cases "spc = 128")
    case True
    have "0x0ffffff0 * 128 < V - 2 * ?F" using big True by (simp add: clusters_def less_eq_div_iff_mult_less_eq Suc_le_eq)
    then show ?thesis using c True by (subst clust_loop.simps) (simp add: layout_ok_def)
  next
    case False
    then have lt: "unat spc < 128" using "1.prems"(3) by (auto simp: word_unat_eq_iff)
    then have d: "unat (spc * 2) = 2 * unat spc" using unat_mult_lem [of spc 2] by simp
    have h: "unat (spf div 2 OR 1) = (?F div 2 OR 1)" by (simp add: unat_or_1 unat_div)
    have "4 * (2 * unat spc) \<le> V"
      using big clusters_le [of V ?F "unat spc"] lt by linarith
    moreover have "unat (spc * 2) \<in> {1, 2, 4, 8, 16, 32, 64, 128}" unfolding d using "1.prems"(3) lt by auto
    moreover have "128 - 2 * unat spc < 128 - unat spc" using lt "1.prems"(1) unfolding round_ok_def by linarith
    ultimately show ?thesis
      using 1(1) [of "spc * 2" "spf div 2 OR 1"] round_larger [OF "1.prems"(1) lt "1.prems"(3)] c False lt "1.prems"(1)
      by (subst clust_loop.simps) (simp add: d h round_ok_def)
  qed
  consider "0x80ffffff < ?T" | "?T \<le> 0x80ffffff" "?N \<le> ?F" "0x0ffffff0 < ?T" | "?T \<le> 0x0ffffff0" "?N \<le> ?F"
    | "?T \<le> 0x80ffffff" "?F < ?N" by linarith
  then show ?case
  proof cases
    case 1
    then show ?thesis using larger round(1) by simp
  next
    case 2
    then show ?thesis using larger round(2) by simp
  next
    case 3
    obtain t where t: "clust_round vss bps spf spc = FoundTotal t" "unat t = ?T" using round(3) [OF 3] by blast
    have "layout_ok V bps (Inr (spf, t, spc))"
      using layout_found [OF "1.prems"(1) t(2) _ _ "1.prems"(2,3)] 3 t(2) by simp
    then show ?thesis using t(1) by (subst clust_loop.simps) simp
  next
    case 4
    obtain w where w: "clust_round vss bps spf spc = GrowFat w" "unat w = ?F + ((?N - ?F) div 2 OR 1)" "unat w \<le> ?N" "?N < 2 ^ 26"
      using round(4) [OF 4] by blast
    have lt: "?F < unat w" using w(2) half_or_1(2) [of "(?N - ?F) div 2"] by linarith
    have "round_ok V bps (unat w) (unat spc)" by (rule round_grow [OF "1.prems"(1) 4(2) refl w(3) lt w(4)])
    moreover have "unat w < 2 ^ 26" using w(3,4) by linarith
    ultimately show ?thesis
      using 1(1) [of spc w] "1.prems"(2,3) lt w(1) by (subst clust_loop.simps) simp
  qed
qed

text \<open>The search as the program starts it, in terms of the sectors of the volume.\<close>

lemma clust_loop_start:
  fixes vss :: u64
  assumes "10 \<le> unat vss" "512 \<le> unat bps" "unat bps < 2 ^ 31" "spc \<in> {1, 8, 16, 32}" "4 * unat spc + 6 \<le> unat vss"
  shows "\<exists>r. clust_loop vss bps 1 spc = Some r \<and> layout_ok (unat vss - 6) bps r"
  using assms by (intro clust_loop_returns) (auto simp: round_ok_def)

text \<open>
  C37. The search for the size of the file allocation tables always ends. What it finds fits: every
  cluster and the two entries without a cluster have four bytes in the table, the reserved sectors,
  both tables and all clusters lie inside the volume and less than one cluster of it is left over,
  and the number of clusters is one that FAT32 can address. It gives up only on volumes that even
  clusters of 128 sectors cannot cover. No intermediate value wraps on the way.
\<close>

theorem vfat_layout_fits:
  fixes vss :: u64
  assumes "10 \<le> unat vss" "512 \<le> unat bps" "unat bps < 2 ^ 31" "spc \<in> {1, 8, 16, 32}" "4 * unat spc + 6 \<le> unat vss"
  shows "\<exists>r. clust_loop vss bps 1 spc = Some r \<and>
    (case r of
       Inl e \<Rightarrow> e = TooManySectors \<and> 128 * unat MAX_CLUST_32 < unat vss - 6
     | Inr (spf, total_clust, spc') \<Rightarrow>
         4 * (unat total_clust + 2) \<le> unat spf * unat bps
         \<and> 6 + 2 * unat spf + unat total_clust * unat spc' \<le> unat vss
         \<and> unat vss < 6 + 2 * unat spf + (unat total_clust + 1) * unat spc'
         \<and> 2 \<le> unat total_clust \<and> unat total_clust \<le> unat MAX_CLUST_32)"
proof -
  obtain r where r: "clust_loop vss bps 1 spc = Some r" "layout_ok (unat vss - 6) bps r"
    using clust_loop_start [OF assms] by blast
  have fit: "6 + 2 * F + (unat vss - 6 - 2 * F) div C * C \<le> unat vss
      \<and> unat vss < 6 + 2 * F + ((unat vss - 6 - 2 * F) div C + 1) * C" if "0 < C" "4 * F \<le> unat vss - 6" for F C
    using div_mult_mod_eq [of "unat vss - 6 - 2 * F" C] mod_less_divisor [OF that(1), of "unat vss - 6 - 2 * F"] that(2) assms(1)
    unfolding add_mult_distrib by linarith
  show ?thesis
  proof (cases r)
    case (Inl e)
    then show ?thesis using r by (simp add: layout_ok_def MAX_CLUST_32_def)
  next
    case (Inr q)
    obtain spf t c where q: "q = (spf, t, c)" by (cases q)
    have l: "layout_ok (unat vss - 6) bps (Inr (spf, t, c))" using r(2) Inr q by simp
    then have "0 < unat c" "4 * unat spf \<le> unat vss - 6" "unat t = (unat vss - 6 - 2 * unat spf) div unat c"
      by (auto simp: layout_ok_def clusters_def)
    with fit [OF this(1,2)] l show ?thesis by (simp add: r(1) Inr q layout_ok_def MAX_CLUST_32_def)
  qed
qed

theorem vfat_layout_fits_witness:
  "\<exists>r. clust_loop 532480 512 1 8 = Some r \<and>
    (case r of
       Inl e \<Rightarrow> e = TooManySectors \<and> 128 * unat MAX_CLUST_32 < unat (532480 :: u64) - 6
     | Inr (spf, total_clust, spc') \<Rightarrow>
         4 * (unat total_clust + 2) \<le> unat spf * unat (512 :: u32)
         \<and> 6 + 2 * unat spf + unat total_clust * unat spc' \<le> unat (532480 :: u64)
         \<and> unat (532480 :: u64) < 6 + 2 * unat spf + (unat total_clust + 1) * unat spc'
         \<and> 2 \<le> unat total_clust \<and> unat total_clust \<le> unat MAX_CLUST_32)"
  by (rule vfat_layout_fits) simp_all

end
