(* ===== verification/DiskFields.thy ===== *)
theory DiskFields
  imports Mkvfat
begin

text \<open>
  Little-endian fields of a sector: storing them into a buffer and reading them. Shared by the
  theories on \<open>mkfs.vfat\<close> and \<open>mke2fs\<close>.
\<close>

section \<open>Fields\<close>

fun le_value :: "bytes \<Rightarrow> nat" where
  "le_value [] = 0"
| "le_value (c # b) = of_char c + 256 * le_value b"

definition field :: "nat \<Rightarrow> nat \<Rightarrow> bytes \<Rightarrow> nat" where
  "field off n b = le_value (take n (drop off b))"

lemma le_value_append: "le_value (a @ b) = le_value a + 256 ^ length a * le_value b"
  by (induction a) (simp_all add: algebra_simps)

lemma le_value_zeros [simp]: "le_value (replicate n NUL) = 0"
  by (induction n) simp_all

lemma le_value_le_bytes: "le_value (le_bytes n w) = unat w mod 256 ^ n"
proof (induction n)
  case 0
  then show ?case by (simp add: le_bytes_def)
next
  case (Suc n)
  have "unat (drop_bit (8 * n) w) = unat w div 256 ^ n"
    unfolding unsigned_drop_bit_eq by (simp add: drop_bit_eq_div power_mult take_bit_nat_eq_self unsigned_less)
  moreover have "le_bytes (Suc n) w = le_bytes n w @ [char_of (unat (drop_bit (8 * n) w))]"
    by (simp add: le_bytes_def)
  ultimately show ?case
    using Suc mod_mult2_eq [of "unat w" "256 ^ n" 256] by (simp add: le_value_append mult.commute)
qed

lemma le_value_le_bytes_full: "unat w < 256 ^ n \<Longrightarrow> le_value (le_bytes n w) = unat w"
  by (simp add: le_value_le_bytes)

lemma field_take: "off + n \<le> m \<Longrightarrow> field off n (take m b) = field off n b"
  by (simp add: field_def drop_take min_def)

lemma field_append1: "off + n \<le> length a \<Longrightarrow> field off n (a @ b) = field off n a"
  by (simp add: field_def)

lemma field_append2: "length a \<le> off \<Longrightarrow> field off n (a @ b) = field (off - length a) n b"
  by (simp add: field_def)

lemma field_zeros: "field off n (replicate m NUL) = 0"
  by (simp add: field_def)

lemma field_blit:
  assumes "o' + length x \<le> length b" "o' = p \<and> length x = n \<or> o' + length x \<le> p \<or> p + n \<le> o'"
  shows "field p n (blit o' x b) = (if o' = p \<and> length x = n then le_value x else field p n b)"
proof -
  consider "o' = p" "length x = n" | "o' + length x \<le> p" "\<not> (o' = p \<and> length x = n)" | "p + n \<le> o'" "\<not> (o' = p \<and> length x = n)"
    using assms(2) by blast
  then show ?thesis
  proof cases
    case 1
    then show ?thesis using assms(1) by (simp add: field_def blit_def)
  next
    case 2
    then show ?thesis using assms(1) by (auto simp: field_def blit_def)
  next
    case 3
    then show ?thesis using assms(1) by (auto simp: field_def blit_def drop_take)
  qed
qed

text \<open>The value a field has behind a list of stores that hit it exactly or not at all.\<close>

fun stored :: "(nat \<times> bytes) list \<Rightarrow> nat \<Rightarrow> nat \<Rightarrow> nat \<Rightarrow> nat" where
  "stored [] p n v = v"
| "stored ((o', x) # xs) p n v = stored xs p n (if o' = p \<and> length x = n then le_value x else v)"

lemma length_stores: "list_all (\<lambda>(o', x). o' + length x \<le> length b) xs \<Longrightarrow> length (stores xs b) = length b"
  by (induction xs arbitrary: b) (auto simp: stores_def)

lemma field_stores:
  "list_all (\<lambda>(o', x). o' + length x \<le> length b \<and> (o' = p \<and> length x = n \<or> o' + length x \<le> p \<or> p + n \<le> o')) xs \<Longrightarrow>
   field p n (stores xs b) = stored xs p n (field p n b)"
  by (induction xs arbitrary: b) (auto simp: stores_def field_blit)

section \<open>Parts of a buffer\<close>

lemma length_strncpy [simp]: "length (strncpy n x) = n"
  by (simp add: strncpy_def)

lemma blit_append: "off + length x \<le> length a \<Longrightarrow> blit off x (a @ b) = blit off x a @ b"
  by (simp add: blit_def)

lemma stores_append: "list_all (\<lambda>(o', x). o' + length x \<le> length a) xs \<Longrightarrow> stores xs (a @ b) = stores xs a @ b"
  by (induction xs arbitrary: a) (auto simp: stores_def blit_append)

lemma take_stores:
  assumes "list_all (\<lambda>(o', x). o' + length x \<le> m) xs" "m \<le> length b"
  shows "take m (stores xs b) = stores xs (take m b)" and "drop m (stores xs b) = drop m b"
proof -
  have "stores xs (take m b @ drop m b) = stores xs (take m b) @ drop m b"
    using assms by (intro stores_append) (simp add: min_def)
  moreover have "length (stores xs (take m b)) = m"
    using assms length_stores [of "take m b" xs] by (simp add: min_def)
  ultimately show "take m (stores xs b) = stores xs (take m b)" "drop m (stores xs b) = drop m b" by simp_all
qed

lemma stores_Cons: "stores ((o', x) # xs) b = stores xs (blit o' x b)"
  by (simp add: stores_def)

lemma within_mono: "list_all (\<lambda>(o', x). o' + length x \<le> m) xs \<Longrightarrow> m \<le> n \<Longrightarrow> list_all (\<lambda>(o', x). o' + length x \<le> (n :: nat)) xs"
  by (auto simp: list_all_iff)

lemma unat_mod_self: "unat (v :: u8) mod 256 = unat v" "unat (w :: u32) mod 4294967296 = unat w"
proof -
  have "unat v < 2 ^ LENGTH(8)" "unat w < 2 ^ LENGTH(32)" by (rule unsigned_less)+
  then show "unat v mod 256 = unat v" "unat w mod 4294967296 = unat w" by simp_all
qed

text \<open>The size of a device that can be seeked.\<close>

lemma get_volume_size_block:
  assumes "dv_seekable d" "16384 \<le> length (dv_data d)" "length (dv_data d) < 2 ^ 63"
  shows "get_volume_size_in_bytes None u e d = Inr (of_nat (length (dv_data d)), d\<lparr>dv_pos := 0\<rparr>)"
proof -
  have "\<not> (of_nat (length (dv_data d)) :: u64) < 16384"
    using assms(2,3) by (simp add: word_less_nat_alt)
  then show ?thesis using assms(1) by (simp add: get_volume_size_in_bytes_def dev_seek_def)
qed

end
