(* ===== verification/VfatImage.thy ===== *)
theory VfatImage
  imports VfatLayout DiskFields
begin

text \<open>
  The image that \<open>mkfs_vfat_main\<close> writes. \<open>fat32_volume\<close> says what a driver expects of the sectors of a
  volume; it reads nothing but the bytes. The program makes every block device that is large enough
  such a volume, however the kernel splits its writes.
\<close>

section \<open>What a driver finds\<close>

text \<open>
  The sectors of a volume as the comments of the source describe them: the boot sector with its
  fields, the info sector, the copies of both, the tables and the clusters, of which the first has
  number 2.
\<close>

definition bpb_sector :: "bytes \<Rightarrow> nat" where "bpb_sector = field 0x00b 2"
definition bpb_clust :: "bytes \<Rightarrow> nat" where "bpb_clust = field 0x00d 1"
definition bpb_reserved :: "bytes \<Rightarrow> nat" where "bpb_reserved = field 0x00e 2"
definition bpb_fats :: "bytes \<Rightarrow> nat" where "bpb_fats = field 0x010 1"
definition bpb_size :: "bytes \<Rightarrow> nat" where "bpb_size = field 0x020 4"
definition bpb_fat_size :: "bytes \<Rightarrow> nat" where "bpb_fat_size = field 0x024 4"
definition bpb_root :: "bytes \<Rightarrow> nat" where "bpb_root = field 0x02c 4"
definition bpb_info :: "bytes \<Rightarrow> nat" where "bpb_info = field 0x030 2"
definition bpb_backup :: "bytes \<Rightarrow> nat" where "bpb_backup = field 0x032 2"

lemmas bpb_defs = bpb_sector_def bpb_clust_def bpb_reserved_def bpb_fats_def bpb_size_def bpb_fat_size_def bpb_root_def
  bpb_info_def bpb_backup_def

definition sectors :: "bytes \<Rightarrow> nat \<Rightarrow> nat \<Rightarrow> bytes" where
  "sectors b first n = take (n * bpb_sector b) (drop (first * bpb_sector b) b)"

definition fat_table :: "bytes \<Rightarrow> nat \<Rightarrow> bytes" where
  "fat_table b k = sectors b (bpb_reserved b + k * bpb_fat_size b) (bpb_fat_size b)"

definition fat_entry :: "bytes \<Rightarrow> nat \<Rightarrow> nat" where
  "fat_entry b i = field (4 * i) 4 (fat_table b 0)"

definition data_start :: "bytes \<Rightarrow> nat" where
  "data_start b = bpb_reserved b + bpb_fats b * bpb_fat_size b"

definition volume_clusters :: "bytes \<Rightarrow> nat" where
  "volume_clusters b = (bpb_size b - data_start b) div bpb_clust b"

definition root_dir :: "bytes \<Rightarrow> bytes" where
  "root_dir b = sectors b (data_start b + (bpb_root b - 2) * bpb_clust b) (bpb_clust b)"

definition fat32_volume :: "bytes \<Rightarrow> bool" where
  "fat32_volume b \<longleftrightarrow>
     field 0x1fe 2 b = unat BOOT_SIGN \<and> field 0x016 2 b = 0
     \<and> 512 \<le> bpb_sector b \<and> 0 < bpb_clust b \<and> 0 < bpb_fats b \<and> bpb_size b * bpb_sector b \<le> length b
     \<and> data_start b + volume_clusters b * bpb_clust b \<le> bpb_size b
     \<and> bpb_backup b + 3 \<le> bpb_reserved b \<and> sectors b (bpb_backup b) 3 = sectors b 0 3
     \<and> list_all (\<lambda>k. fat_table b k = fat_table b 0) [0..<bpb_fats b]
     \<and> 4 * (volume_clusters b + 2) \<le> bpb_fat_size b * bpb_sector b
     \<and> 2 \<le> bpb_root b \<and> bpb_root b < volume_clusters b + 2 \<and> unat EOF_FAT32 \<le> fat_entry b (bpb_root b)
     \<and> field (bpb_info b * bpb_sector b) 4 b = unat FAT_FSINFO_SIG1
     \<and> field (bpb_info b * bpb_sector b + 484) 4 b = unat FAT_FSINFO_SIG2
     \<and> field (bpb_info b * bpb_sector b + 488) 4 b = length (filter (\<lambda>i. fat_entry b i = 0) [2..<volume_clusters b + 2])"

section \<open>Writing in sequence\<close>

text \<open>The device when \<open>b\<close> has been written over the beginning of \<open>old\<close>.\<close>

definition dev_at :: "vdev \<Rightarrow> bytes \<Rightarrow> bytes \<Rightarrow> bool" where
  "dev_at d b old \<longleftrightarrow> dv_data d = b @ drop (length b) old \<and> dv_pos d = length b \<and> Eio \<notin> set (dv_events d)
     \<and> dv_limit d = length old"

lemma dev_write_at:
  assumes "dev_at d b old" "length b + length x \<le> length old"
  shows "\<exists>d'. dev_write x d = Inr d' \<and> dev_at d' (b @ x) old"
proof -
  obtain s where s: "xwrite x \<lparr>sk_data = [], sk_events = dv_events d\<rparr> = Inr s" "sk_data s = x" "Eio \<notin> set (sk_events s)"
    using xwrite_ok [of "\<lparr>sk_data = [], sk_events = dv_events d\<rparr>" x] assms(1) by (auto simp: dev_at_def)
  have "overlay (length b) x (b @ drop (length b) old) = (b @ x) @ drop (length (b @ x)) old"
    by (auto simp: overlay_def resize_def add.commute)
  then show ?thesis using assms s by (auto simp: dev_write_def dev_at_def)
qed

lemma write_times_at:
  "dev_at d b old \<Longrightarrow> length b + n * length x \<le> length old \<Longrightarrow>
   \<exists>d'. write_times n x d = Inr d' \<and> dev_at d' (b @ concat (replicate n x)) old"
proof (induction n arbitrary: d b)
  case 0
  then show ?case by simp
next
  case (Suc n)
  obtain d1 where d1: "dev_write x d = Inr d1" "dev_at d1 (b @ x) old"
    using dev_write_at [OF Suc.prems(1), of x] Suc.prems(2) by auto
  from Suc.IH [OF d1(2)] Suc.prems(2) show ?case by (auto simp: d1(1))
qed

lemma write_fat_at:
  assumes "dev_at d b old" "1 \<le> unat spf" "2 * s \<le> length buf" "length b + unat spf * s \<le> length old"
  shows "\<exists>d'. write_fat s spf buf d = Inr d' \<and>
    dev_at d' (b @ take s buf @ concat (replicate (unat spf - 1) (take s (drop s buf)))) old"
proof -
  have l: "s + (unat spf - 1) * s = unat spf * s" using assms(2) by (metis add.commute le_add_diff_inverse2 mult_Suc plus_1_eq_Suc)
  obtain d1 where d1: "dev_write (take s buf) d = Inr d1" "dev_at d1 (b @ take s buf) old"
    using dev_write_at [OF assms(1), of "take s buf"] assms(3,4) l by auto
  have "length (b @ take s buf) + (unat spf - 1) * length (take s (drop s buf)) \<le> length old"
    using assms(3,4) l by simp
  from write_times_at [OF d1(2) this] show ?thesis by (auto simp: write_fat_def d1(1))
qed

section \<open>The bytes written\<close>

definition boot_area :: "media \<Rightarrow> u32 \<Rightarrow> u32 \<Rightarrow> u32 \<Rightarrow> u8 \<Rightarrow> u32 \<Rightarrow> string \<Rightarrow> bytes" where
  "boot_area md bps spf t spc vid label =
     stores (boot_stores md bps spf spc vid label @ info_stores (unat bps) t) (replicate (3 * unat bps) NUL)"

definition fat_area :: "u8 \<Rightarrow> nat \<Rightarrow> bytes" where
  "fat_area m n = stores (fat_stores m) (replicate n NUL)"

definition root_area :: "string \<Rightarrow> nat \<Rightarrow> bytes" where
  "root_area label n = stores (root_stores label) (replicate n NUL)"

definition vfat_bytes :: "media \<Rightarrow> u32 \<Rightarrow> u32 \<Rightarrow> u32 \<Rightarrow> u8 \<Rightarrow> u32 \<Rightarrow> string \<Rightarrow> bytes" where
  "vfat_bytes md bps spf t spc vid label =
     boot_area md bps spf t spc vid label @ boot_area md bps spf t spc vid label
     @ fat_area (media_byte md) (unat spf * unat bps) @ fat_area (media_byte md) (unat spf * unat bps)
     @ root_area label (unat spc * unat bps)"

lemma length_boot_code [simp]: "length boot_code = 59"
  by (simp add: boot_code_def)

lemma boot_stores_within:
  "512 \<le> s \<Longrightarrow> list_all (\<lambda>(o', x). o' + length x \<le> 2 * s) (boot_stores md bps spf spc vid label @ info_stores s t)"
  by (simp add: boot_stores_def info_stores_def)

lemma fat_stores_within: "12 \<le> n \<Longrightarrow> list_all (\<lambda>(o', x). o' + length x \<le> n) (fat_stores m)"
  by (simp add: fat_stores_def)

lemma root_stores_within: "12 \<le> n \<Longrightarrow> list_all (\<lambda>(o', x). o' + length x \<le> n) (root_stores label)"
  by (simp add: root_stores_def)

lemma vfat_lengths:
  assumes "512 \<le> unat bps"
  shows "length (boot_area md bps spf t spc vid label) = 3 * unat bps"
    and "12 \<le> n \<Longrightarrow> length (fat_area m n) = n" "12 \<le> n \<Longrightarrow> length (root_area label n) = n"
proof -
  show "length (boot_area md bps spf t spc vid label) = 3 * unat bps"
    unfolding boot_area_def using within_mono [OF boot_stores_within [OF assms], of "3 * unat bps"]
    by (subst length_stores) simp_all
  show "12 \<le> n \<Longrightarrow> length (fat_area m n) = n"
    unfolding fat_area_def using fat_stores_within by (subst length_stores) simp_all
  show "12 \<le> n \<Longrightarrow> length (root_area label n) = n"
    unfolding root_area_def using root_stores_within by (subst length_stores) simp_all
qed

text \<open>The products of the source do not wrap.\<close>

lemma vfat_products:
  assumes "512 \<le> unat (bps :: u32)" "unat bps \<le> 32768" "unat (spc :: u8) \<in> {1, 2, 4, 8, 16, 32, 64, 128}"
  shows "unat (bps * backup_boot_sector) = 3 * unat bps" "unat (bps * (reserved_sect - backup_boot_sector)) = 3 * unat bps"
    and "unat (bps * 2) = 2 * unat bps" "unat (ucast spc * bps) = unat spc * unat bps"
    and "6 * unat bps \<le> unat ((reserved_sect OR 2 OR ucast spc) * bps)"
    and "unat spc * unat bps \<le> unat ((reserved_sect OR 2 OR ucast spc) * bps)"
proof -
  have m: "unat (w * bps) = unat w * unat bps" if "unat w < 2 ^ 17" for w :: u32
  proof -
    have "unat w * unat bps < 2 ^ 17 * 2 ^ 15" using that assms(1,2) by (intro mult_less_le_imp_less) simp_all
    then show ?thesis using unat_mult_lem [of w bps] by simp
  qed
  show "unat (bps * backup_boot_sector) = 3 * unat bps" "unat (bps * (reserved_sect - backup_boot_sector)) = 3 * unat bps"
    "unat (bps * 2) = 2 * unat bps"
    using m [of 3] m [of 2] by (simp_all add: vfat_consts mult.commute)
  show "unat (ucast spc * bps) = unat spc * unat bps"
    using m [of "ucast spc"] assms(3) by (auto simp: unat_up)
  have "spc \<in> {1, 2, 4, 8, 16, 32, 64, 128}" using assms(3) by (auto simp: word_unat_eq_iff)
  then have o: "6 \<le> unat (reserved_sect OR 2 OR ucast spc)" "unat spc \<le> unat (reserved_sect OR 2 OR ucast spc)"
      "unat (reserved_sect OR 2 OR ucast spc) < 2 ^ 17"
    by (auto simp: reserved_sect_def)
  show "6 * unat bps \<le> unat ((reserved_sect OR 2 OR ucast spc) * bps)"
    "unat spc * unat bps \<le> unat ((reserved_sect OR 2 OR ucast spc) * bps)"
    unfolding m [OF o(3)] using o(1,2) by simp_all
qed

lemma concat_zeros: "concat (replicate n (replicate m NUL)) = replicate (n * m) NUL"
  by (induction n) (simp_all add: replicate_add)

text \<open>The parts of the buffer that are written.\<close>

lemma boot_buffer:
  assumes "512 \<le> unat bps" "3 * unat bps \<le> L"
  shows "take (3 * unat bps) (stores (boot_stores md bps spf spc vid label @ info_stores (unat bps) t) (replicate L NUL))
    = boot_area md bps spf t spc vid label"
  unfolding boot_area_def
  using take_stores(1) [OF within_mono [OF boot_stores_within [OF assms(1)], of "3 * unat bps"]] assms(2)
  by (simp add: min_def)

lemma fat_buffer:
  fixes m :: u8
  assumes "512 \<le> s" "2 * s \<le> length b" "1 \<le> F"
  defines "buf \<equiv> stores ((0, replicate (2 * s) NUL) # fat_stores m) b"
  shows "take s buf @ concat (replicate (F - 1) (take s (drop s buf))) = fat_area m (F * s)" "2 * s \<le> length buf"
proof -
  let ?z = "blit 0 (replicate (2 * s) NUL) b"
  have z: "?z = replicate s NUL @ replicate s NUL @ drop (2 * s) b"
    by (simp add: blit_def mult_2 replicate_add)
  have w: "list_all (\<lambda>(o', x). o' + length x \<le> s) (fat_stores m)" using assms(1) by (intro fat_stores_within) simp
  have "take s buf = stores (fat_stores m) (replicate s NUL)" "drop s buf = drop s ?z"
    unfolding buf_def stores_Cons using take_stores [OF w, of ?z] by (simp_all add: z)
  then have "take s buf @ concat (replicate (F - 1) (take s (drop s buf)))
      = stores (fat_stores m) (replicate s NUL) @ replicate ((F - 1) * s) NUL"
    by (simp add: z concat_zeros)
  also have "\<dots> = stores (fat_stores m) (replicate s NUL @ replicate ((F - 1) * s) NUL)"
    by (rule stores_append [symmetric]) (simp add: w)
  also have "replicate s NUL @ replicate ((F - 1) * s) NUL = replicate (F * s) NUL"
    unfolding replicate_add [symmetric] using assms(3) by (cases F) simp_all
  finally show "take s buf @ concat (replicate (F - 1) (take s (drop s buf))) = fat_area m (F * s)"
    by (simp add: fat_area_def)
  have "length buf = length ?z"
    unfolding buf_def stores_Cons by (rule length_stores) (rule within_mono [OF w], simp add: z)
  then show "2 * s \<le> length buf" by (simp add: z)
qed

lemma root_buffer:
  assumes "12 \<le> n" "n \<le> length b"
  shows "take n (stores ((0, replicate n NUL) # root_stores label) b) = root_area label n"
  unfolding root_area_def stores_Cons
  using take_stores(1) [OF root_stores_within [OF assms(1)], of "blit 0 (replicate n NUL) b"] assms(2) by (simp add: blit_def)

lemma write_image_at:
  assumes "512 \<le> unat bps" "unat bps \<le> 32768" "unat spc \<in> {1, 2, 4, 8, 16, 32, 64, 128}" "1 \<le> unat spf"
    and "dev_at d [] old" "(6 + 2 * unat spf + unat spc) * unat bps \<le> length old"
  shows "\<exists>d'. write_image md bps spf t spc vid label d = Inr d' \<and> dev_at d' (vfat_bytes md bps spf t spc vid label) old"
proof -
  let ?s = "unat bps" and ?n = "unat spc * unat bps"
  note prod = vfat_products [OF assms(1-3)]
  define buf1 where "buf1 = stores (boot_stores md bps spf spc vid label @ info_stores ?s t)
    (replicate (unat ((reserved_sect OR 2 OR ucast spc) * bps)) NUL)"
  define buf2 where "buf2 = stores ((0, replicate (2 * ?s) NUL) # fat_stores (media_byte md)) buf1"
  define buf3 where "buf3 = stores ((0, replicate ?n NUL) # root_stores label) buf2"
  let ?B = "boot_area md bps spf t spc vid label" and ?F = "fat_area (media_byte md) (unat spf * ?s)" and ?R = "root_area label ?n"
  have n: "512 \<le> ?n" "512 \<le> unat spf * ?s"
    using assms(1,3,4) mult_le_mono [of 1 "unat spc" 512 ?s] mult_le_mono [of 1 "unat spf" 512 ?s] by auto
  have b1: "take (3 * ?s) buf1 = ?B" unfolding buf1_def using boot_buffer [OF assms(1)] prod(5) by simp
  have l1: "length buf1 = unat ((reserved_sect OR 2 OR ucast spc) * bps)"
    unfolding buf1_def
    by (subst length_stores) (use within_mono [OF boot_stores_within [OF assms(1)]] prod(5) in simp_all)
  have s2: "2 * ?s \<le> length buf1" using l1 prod(5) by linarith
  note f = fat_buffer [OF assms(1) s2 assms(4), of "media_byte md", folded buf2_def]
  have l2: "length buf2 = length buf1"
    unfolding buf2_def by (rule length_stores) (use fat_stores_within [of "length buf1" "media_byte md"] s2 assms(1) in simp)
  have r: "take ?n buf3 = ?R" unfolding buf3_def using root_buffer [of ?n buf2 label] n prod(6) l1 l2 by simp
  note len = vfat_lengths [OF assms(1)]
  have L: "length ?B = 3 * ?s" "length ?F = unat spf * ?s" "length ?R = ?n" using len n by simp_all
  have room: "6 * ?s + unat spf * ?s + unat spf * ?s + ?n \<le> length old" using assms(6) by (simp add: algebra_simps)
  obtain d1 where d1: "dev_write ?B d = Inr d1" "dev_at d1 ?B old"
    using dev_write_at [OF assms(5), of ?B] L room by auto
  obtain d2 where d2: "dev_write ?B d1 = Inr d2" "dev_at d2 (?B @ ?B) old"
    using dev_write_at [OF d1(2), of ?B] L room by auto
  obtain d3 where d3: "write_fat ?s spf buf2 d2 = Inr d3" "dev_at d3 ((?B @ ?B) @ ?F) old"
    using write_fat_at [OF d2(2) assms(4) f(2)] f(1) L room by auto
  obtain d4 where d4: "write_fat ?s spf buf2 d3 = Inr d4" "dev_at d4 (((?B @ ?B) @ ?F) @ ?F) old"
    using write_fat_at [OF d3(2) assms(4) f(2)] f(1) L room by auto
  obtain d5 where d5: "dev_write ?R d4 = Inr d5" "dev_at d5 ((((?B @ ?B) @ ?F) @ ?F) @ ?R) old"
    using dev_write_at [OF d4(2), of ?R] L room by auto
  have "write_image md bps spf t spc vid label d = Inr d5"
    unfolding write_image_def Let_def prod buf1_def [symmetric] buf2_def [symmetric] buf3_def [symmetric] b1 r
    using d1(1) d2(1) d3(1) d4(1) d5(1) by simp
  then show ?thesis using d5(2) by (simp add: vfat_bytes_def)
qed

section \<open>Reading the image\<close>

lemma boot_field:
  assumes "512 \<le> unat bps"
    and "list_all (\<lambda>(o', x). o' = p \<and> length x = n \<or> o' + length x \<le> p \<or> p + n \<le> o')
      (boot_stores md bps spf spc vid label @ info_stores (unat bps) t)"
  shows "field p n (boot_area md bps spf t spc vid label)
    = stored (boot_stores md bps spf spc vid label @ info_stores (unat bps) t) p n 0"
  unfolding boot_area_def
  using assms(2) within_mono [OF boot_stores_within [OF assms(1)], of "3 * unat bps" md bps spf spc vid label t]
  by (subst field_stores) (auto simp: list_all_iff field_zeros)

lemmas boot_read = boot_stores_def info_stores_def le_value_le_bytes vfat_consts unat_mod_self BOOT_SIGN_def
  FAT_FSINFO_SIG1_def FAT_FSINFO_SIG2_def

lemma boot_fields:
  assumes "512 \<le> unat bps" "unat bps \<le> 32768"
  shows "field 0x00b 2 (boot_area md bps spf t spc vid label) = unat bps"
    and "field 0x00d 1 (boot_area md bps spf t spc vid label) = unat spc"
    and "field 0x00e 2 (boot_area md bps spf t spc vid label) = 6"
    and "field 0x010 1 (boot_area md bps spf t spc vid label) = 2"
    and "field 0x016 2 (boot_area md bps spf t spc vid label) = 0"
    and "field 0x020 4 (boot_area md bps spf t spc vid label) = unat (volume_size_sect md) mod 2 ^ 32"
    and "field 0x024 4 (boot_area md bps spf t spc vid label) = unat spf"
    and "field 0x02c 4 (boot_area md bps spf t spc vid label) = 2"
    and "field 0x030 2 (boot_area md bps spf t spc vid label) = 1"
    and "field 0x032 2 (boot_area md bps spf t spc vid label) = 3"
    and "field 0x1fe 2 (boot_area md bps spf t spc vid label) = unat BOOT_SIGN"
  using assms by - (subst boot_field; simp add: boot_read)+

lemma info_fields:
  assumes "512 \<le> unat bps" "unat bps \<le> 32768"
  shows "field (unat bps) 4 (boot_area md bps spf t spc vid label) = unat FAT_FSINFO_SIG1"
    and "field (unat bps + 484) 4 (boot_area md bps spf t spc vid label) = unat FAT_FSINFO_SIG2"
    and "field (unat bps + 488) 4 (boot_area md bps spf t spc vid label) = unat (t - 1)"
  using assms by - (subst boot_field; simp add: boot_read)+

lemma fat_area_entry:
  assumes "12 \<le> n"
  shows "field 8 4 (fat_area m n) = unat EOF_FAT32" and "3 \<le> i \<Longrightarrow> field (4 * i) 4 (fat_area m n) = 0"
  unfolding fat_area_def using assms
  by - (subst field_stores; simp add: fat_stores_def field_zeros le_value_le_bytes unat_mod_self)+

lemma char_of_8: "char_of (8 :: nat) = CHR 0x08"
  by (simp add: char_of_def bit_iff_odd)

lemma root_area_eq:
  "12 \<le> n \<Longrightarrow> root_area label n =
     (if label = [] then replicate n NUL else strncpy 11 label @ [CHR 0x08] @ replicate (n - 12) NUL)"
  by (simp add: root_area_def root_stores_def stores_def blit_def ATTR_VOLUME_def le_bytes_def char_of_8 flip: replicate_Suc)

lemma field_boot:
  assumes "512 \<le> unat bps" "p + n \<le> 3 * unat bps"
  shows "field p n (vfat_bytes md bps spf t spc vid label @ r) = field p n (boot_area md bps spf t spc vid label)"
  using assms vfat_lengths(1) [OF assms(1)] by (simp add: vfat_bytes_def field_append1)

lemma vfat_bpb:
  assumes "512 \<le> unat bps" "unat bps \<le> 32768" "b = vfat_bytes md bps spf t spc vid label @ r"
  shows "bpb_sector b = unat bps" "bpb_clust b = unat spc" "bpb_reserved b = 6" "bpb_fats b = 2" "bpb_fat_size b = unat spf"
    and "bpb_size b = unat (volume_size_sect md) mod 2 ^ 32" "bpb_root b = 2" "bpb_info b = 1" "bpb_backup b = 3"
    and "field 0x016 2 b = 0" "field 0x1fe 2 b = unat BOOT_SIGN"
    and "field (unat bps) 4 b = unat FAT_FSINFO_SIG1" "field (unat bps + 484) 4 b = unat FAT_FSINFO_SIG2"
    and "field (unat bps + 488) 4 b = unat (t - 1)"
  unfolding bpb_defs assms(3) using assms(1,2)
  by - (subst field_boot; simp only: boot_fields info_fields; simp)+

lemma vfat_areas:
  assumes "512 \<le> unat bps" "unat bps \<le> 32768" "1 \<le> unat spf" "1 \<le> unat spc"
    and "b = vfat_bytes md bps spf t spc vid label @ r"
  shows "sectors b 0 3 = boot_area md bps spf t spc vid label" "sectors b 3 3 = boot_area md bps spf t spc vid label"
    and "k < 2 \<Longrightarrow> fat_table b k = fat_area (media_byte md) (unat spf * unat bps)"
    and "root_dir b = root_area label (unat spc * unat bps)"
proof -
  let ?s = "unat bps" and ?B = "boot_area md bps spf t spc vid label"
  let ?F = "fat_area (media_byte md) (unat spf * unat bps)" and ?R = "root_area label (unat spc * unat bps)"
  note bpb = vfat_bpb [OF assms(1,2,5)]
  have "12 \<le> unat spf * ?s" "12 \<le> unat spc * ?s"
    using assms mult_le_mono [of 1 "unat spf" 512 ?s] mult_le_mono [of 1 "unat spc" 512 ?s] by auto
  then have L: "length ?B = 3 * ?s" "length ?F = unat spf * ?s" "length ?R = unat spc * ?s"
    using vfat_lengths [OF assms(1)] by simp_all
  have b: "b = ?B @ ?B @ ?F @ ?F @ ?R @ r" using assms(5) by (simp add: vfat_bytes_def)
  show "sectors b 0 3 = ?B" "sectors b 3 3 = ?B"
    unfolding sectors_def bpb by (simp_all add: b L)
  show "root_dir b = ?R"
    unfolding root_dir_def sectors_def data_start_def bpb
    by (simp add: b L add_mult_distrib)
  have "fat_table b 0 = ?F" "fat_table b 1 = ?F"
    unfolding fat_table_def sectors_def bpb by (simp_all add: b L add_mult_distrib)
  then show "k < 2 \<Longrightarrow> fat_table b k = ?F" by (cases "k = 0") (simp_all add: less_2_cases_iff)
qed

lemma free_entries:
  assumes "f 2 \<noteq> (0 :: nat)" "\<And>i. 3 \<le> i \<Longrightarrow> i < n + 2 \<Longrightarrow> f i = 0" "1 \<le> n"
  shows "length (filter (\<lambda>i. f i = 0) [2..<n + 2]) = n - 1"
proof -
  have "[2..<n + 2] = 2 # [3..<n + 2]" using assms(3) by (simp add: upt_conv_Cons)
  moreover have "filter (\<lambda>i. f i = 0) [3..<n + 2] = [3..<n + 2]" using assms(2) by (auto simp: filter_id_conv)
  ultimately have "filter (\<lambda>i. f i = 0) [2..<n + 2] = [3..<n + 2]" using assms(1) by (simp only: filter.simps if_False)
  then show ?thesis by (simp only: length_upt)
qed

lemma vfat_is_volume:
  assumes "512 \<le> unat bps" "unat bps \<le> 32768" "b = vfat_bytes md bps spf t spc vid label @ r"
    and "layout_ok (unat (volume_size_sect md) - 6) bps (Inr (spf, t, spc))"
    and "10 \<le> unat (volume_size_sect md)" "unat (volume_size_sect md) < 2 ^ 32"
    and "unat (volume_size_sect md) * unat bps \<le> length b"
  shows "fat32_volume b"
proof -
  let ?v = "unat (volume_size_sect md)" and ?s = "unat bps" and ?C = "unat spc" and ?F = "unat spf"
  have l: "unat t = (?v - 6 - 2 * ?F) div ?C" "2 \<le> unat t" "4 * (unat t + 2) \<le> ?F * ?s" "1 \<le> ?F" "4 * ?F \<le> ?v - 6" "1 \<le> ?C"
    using assms(4) by (auto simp: layout_ok_def clusters_def)
  note bpb = vfat_bpb [OF assms(1-3)] and area = vfat_areas [OF assms(1,2) l(4,6) assms(3)]
  have size: "bpb_size b = ?v" using bpb(6) assms(6) by simp
  have start: "data_start b = 6 + 2 * ?F" by (simp add: data_start_def bpb)
  have clust: "volume_clusters b = unat t" unfolding volume_clusters_def size start bpb l(1) by simp
  have "unat t * ?C \<le> ?v - 6 - 2 * ?F" unfolding l(1) by (rule div_times_less_eq_dividend)
  then have fits: "6 + 2 * ?F + unat t * ?C \<le> ?v" using l(5) assms(5) by linarith
  have "12 \<le> 4 * (unat t + 2)" using l(2) by simp
  then have n: "12 \<le> ?F * ?s" using l(3) by (rule order_trans)
  have entry: "fat_entry b 2 = unat EOF_FAT32" "3 \<le> i \<Longrightarrow> fat_entry b i = 0" for i
    using fat_area_entry [OF n] area(3) [of 0] by (simp_all add: fat_entry_def)
  have free: "length (filter (\<lambda>i. fat_entry b i = 0) [2..<unat t + 2]) = unat (t - 1)"
    using free_entries [of "fat_entry b" "unat t"] entry l(2) unat_sub [of 1 t]
    by (simp add: EOF_FAT32_def word_le_nat_alt)
  have tables: "list_all (\<lambda>k. fat_table b k = fat_table b 0) [0..<bpb_fats b]"
    using area(3) unfolding bpb by (simp add: list_all_iff)
  show ?thesis
    unfolding fat32_volume_def size start clust bpb area(1,2) entry(1) mult_1 free
    using tables fits l assms(1,7) bpb by simp
qed

section \<open>The program on a block device\<close>

lemma sector_size_block:
  assumes "dv_kind d = BlockDev" "dv_blksszget d = Some ss" "512 \<le> unat ss" "unat ss \<le> 32768"
  shows "sector_size a d = Inr ss"
proof -
  have "sint ss = int (unat ss)" using assms(4) by (intro sint_small) simp
  moreover have "ss = SECTOR_SIZE" if "\<not> 512 < unat ss"
    using that assms(3) by (simp add: word_unat_eq_iff SECTOR_SIZE_def)
  moreover have "512 < int (unat ss) \<longleftrightarrow> 512 < unat ss" by linarith
  ultimately show ?thesis using assms(1,2) by (auto simp: sector_size_def)
qed

lemma guess_media_size: "dv_fdgetprm d = None \<Longrightarrow> volume_size_sect (guess_media vb vss d) = vss"
  by (simp add: guess_media_def Let_def)

lemma guess_media_clust: "sect_per_clust (guess_media vb vss d) = 1 \<or> sect_per_clust (guess_media vb vss d) = set_cluster_size vb"
  by (simp add: guess_media_def Let_def)

lemma set_cluster_size_values: "set_cluster_size vb \<in> {1, 8, 16, 32}" "set_cluster_size vb \<noteq> 1 \<Longrightarrow> 260 * 1024 * 1024 \<le> unat vb"
proof -
  show "set_cluster_size vb \<in> {1, 8, 16, 32}" by (simp add: set_cluster_size_def Let_def)
  assume "set_cluster_size vb \<noteq> 1"
  then have "260 * 1024 * 1024 \<le> vb" unfolding set_cluster_size_def by (rule contrapos_np) simp
  then show "260 * 1024 * 1024 \<le> unat vb" by (simp add: word_le_nat_alt)
qed

text \<open>The first guess of the cluster size leaves room for four clusters.\<close>

lemma first_clust:
  assumes "spc = 1 \<or> spc = set_cluster_size vb" "10 \<le> v" "v = unat vb div s" "1 \<le> s" "s \<le> 32768"
  shows "spc \<in> {1, 8, 16, 32}" "4 * unat spc + 6 \<le> v"
proof -
  show set: "spc \<in> {1, 8, 16, 32}" using assms(1) set_cluster_size_values(1) [of vb] by auto
  show "4 * unat spc + 6 \<le> v"
  proof (cases "spc = 1")
    case True
    then show ?thesis using assms(2) by simp
  next
    case False
    then have "260 * 1024 * 1024 \<le> unat vb" using assms(1) set_cluster_size_values(2) [of vb] by auto
    then have "260 * 1024 * 1024 div 32768 \<le> unat vb div s"
      using assms(4,5) by (meson div_le_mono div_le_mono2 order_trans less_le_trans zero_less_one)
    then show ?thesis using set assms(3) by auto
  qed
qed

text \<open>A device as the kernel presents it, and a volume that is neither too small nor too large for FAT32.\<close>

definition block_device :: "vdev \<Rightarrow> u32 \<Rightarrow> bool" where
  "block_device d ss \<longleftrightarrow> dv_kind d = BlockDev \<and> dv_seekable d \<and> dv_limit d = length (dv_data d) \<and> Eio \<notin> set (dv_events d)
     \<and> dv_blksszget d = Some ss \<and> 512 \<le> unat ss \<and> unat ss \<le> 32768 \<and> dv_fdgetprm d = None
     \<and> 10 * unat ss \<le> length (dv_data d) \<and> 16384 \<le> length (dv_data d) \<and> length (dv_data d) \<le> 128 * unat MAX_CLUST_32 * unat ss"

lemma block_media:
  assumes "block_device d ss"
  defines "n \<equiv> length (dv_data d)"
  defines "md \<equiv> guess_media (of_nat n) (of_nat n div ucast ss) (d\<lparr>dv_pos := 0\<rparr>)"
  shows "n < 2 ^ 63" "unat (volume_size_sect md) = n div unat ss" "10 \<le> n div unat ss" "n div unat ss \<le> 128 * 0x0ffffff0"
    and "\<not> sint (volume_size_sect md - ucast reserved_sect) < 4"
    and "\<exists>spf t spc. clust_loop (volume_size_sect md) ss 1 (sect_per_clust md) = Some (Inr (spf, t, spc))
      \<and> layout_ok (n div unat ss - 6) ss (Inr (spf, t, spc))"
proof -
  let ?s = "unat ss" and ?vb = "of_nat n :: u64"
  have s: "512 \<le> ?s" "?s \<le> 32768" "10 * ?s \<le> n" "n \<le> 128 * 0x0ffffff0 * ?s"
    using assms(1) by (simp_all add: block_device_def n_def MAX_CLUST_32_def)
  have "128 * 0x0ffffff0 * ?s \<le> 128 * 0x0ffffff0 * 32768" using s(2) by (rule mult_left_mono) simp
  then show n63: "n < 2 ^ 63" using s(4) by simp
  then have vb: "unat ?vb = n" by simp
  have "volume_size_sect md = ?vb div ucast ss"
    unfolding md_def by (rule guess_media_size) (use assms(1) in \<open>simp add: block_device_def\<close>)
  then show v: "unat (volume_size_sect md) = n div ?s" by (simp add: unat_div unat_up vb)
  show v10: "10 \<le> n div ?s" using s(1,3) by (simp add: less_eq_div_iff_mult_less_eq)
  show v35: "n div ?s \<le> 128 * 0x0ffffff0"
    using div_le_mono [OF s(4), of ?s] s(1) by simp
  have "unat (volume_size_sect md - ucast reserved_sect) = n div ?s - 6"
    using unat_sub [of 6 "volume_size_sect md"] v v10 by (simp add: word_le_nat_alt reserved_sect_def)
  moreover from this have "sint (volume_size_sect md - ucast reserved_sect) = int (n div ?s - 6)"
    using v35 by (subst sint_small_word) simp_all
  ultimately show "\<not> sint (volume_size_sect md - ucast reserved_sect) < 4" using v10 by simp
  have c: "sect_per_clust md \<in> {1, 8, 16, 32}" "4 * unat (sect_per_clust md) + 6 \<le> n div ?s"
    using first_clust [OF guess_media_clust v10, of ?vb ?s "?vb div ucast ss" "d\<lparr>dv_pos := 0\<rparr>"] s(1,2) vb by (simp_all add: md_def)
  obtain r where r: "clust_loop (volume_size_sect md) ss 1 (sect_per_clust md) = Some r" "layout_ok (n div ?s - 6) ss r"
    using clust_loop_start [of "volume_size_sect md" ss "sect_per_clust md"] c v v10 s(1,2) by auto
  then show "\<exists>spf t spc. clust_loop (volume_size_sect md) ss 1 (sect_per_clust md) = Some (Inr (spf, t, spc))
      \<and> layout_ok (n div ?s - 6) ss (Inr (spf, t, spc))"
    using v35 by (cases r) (auto simp: layout_ok_def)
qed

lemma layout_room:
  assumes "layout_ok (n div s - 6) ss (Inr (spf, t, spc))" "10 \<le> n div s"
  shows "(6 + 2 * unat spf + unat spc) * s \<le> n"
proof -
  have l: "2 \<le> unat t" "unat t = (n div s - 6 - 2 * unat spf) div unat spc" "4 * unat spf \<le> n div s - 6"
    using assms(1) by (simp_all add: layout_ok_def clusters_def)
  have "1 * unat spc \<le> unat t * unat spc" using l(1) by (intro mult_right_mono) simp_all
  also have "\<dots> \<le> n div s - 6 - 2 * unat spf" unfolding l(2) by (rule div_times_less_eq_dividend)
  finally have "6 + 2 * unat spf + unat spc \<le> n div s" using l(3) assms(2) by linarith
  then have "(6 + 2 * unat spf + unat spc) * s \<le> n div s * s" by (rule mult_right_mono) simp
  also have "\<dots> \<le> n" by (rule div_times_less_eq_dividend)
  finally show ?thesis .
qed

text \<open>On such a device the program succeeds, and the image is written over its beginning.\<close>

lemma mkfs_vfat_writes:
  assumes "block_device d ss"
  shows "\<exists>d' md spf t spc. mkfs_vfat_main label None vid (Some d) = Some (Inr d')
     \<and> layout_ok (length (dv_data d) div unat ss - 6) ss (Inr (spf, t, spc))
     \<and> unat (volume_size_sect md) = length (dv_data d) div unat ss
     \<and> dv_data d' = vfat_bytes md ss spf t spc vid label @ drop (length (vfat_bytes md ss spf t spc vid label)) (dv_data d)
     \<and> length (vfat_bytes md ss spf t spc vid label) = (6 + 2 * unat spf) * unat ss + unat spc * unat ss
     \<and> length (dv_data d') = length (dv_data d)"
proof -
  let ?n = "length (dv_data d)"
  define d1 where "d1 = d\<lparr>dv_pos := 0\<rparr>"
  define md where "md = guess_media (of_nat ?n) (of_nat ?n div ucast ss) d1"
  have d: "dv_kind d = BlockDev" "dv_seekable d" "dv_blksszget d = Some ss" "512 \<le> unat ss" "unat ss \<le> 32768" "16384 \<le> ?n"
    "dev_at d1 [] (dv_data d)"
    using assms by (simp_all add: block_device_def dev_at_def d1_def)
  note m = block_media [OF assms, folded d1_def, folded md_def]
  obtain spf t spc where r: "clust_loop (volume_size_sect md) ss 1 (sect_per_clust md) = Some (Inr (spf, t, spc))"
      "layout_ok (?n div unat ss - 6) ss (Inr (spf, t, spc))"
    using m(6) by blast
  have l: "unat spc \<in> {1, 2, 4, 8, 16, 32, 64, 128}" "1 \<le> unat spf" "1 \<le> unat spc"
    using r(2) by (auto simp: layout_ok_def)
  note room = layout_room [OF r(2) m(3)]
  let ?b = "vfat_bytes md ss spf t spc vid label"
  obtain d' where d': "write_image md ss spf t spc vid label d1 = Inr d'" "dev_at d' ?b (dv_data d)"
    using write_image_at [OF d(4,5) l(1,2) d(7) room] by blast
  have "512 \<le> unat spf * unat ss" "512 \<le> unat spc * unat ss"
    using l(2,3) d(4) mult_le_mono [of 1 "unat spf" 512 "unat ss"] mult_le_mono [of 1 "unat spc" 512 "unat ss"] by auto
  then have len: "length ?b = (6 + 2 * unat spf) * unat ss + unat spc * unat ss"
    using vfat_lengths [OF d(4)] by (simp add: vfat_bytes_def algebra_simps)
  have data: "dv_data d' = ?b @ drop (length ?b) (dv_data d)" using d'(2) by (simp add: dev_at_def)
  have "mkfs_vfat_main label None vid (Some d) = Some (Inr d')"
    using sector_size_block [OF d(1,3,4,5), of None] get_volume_size_block [OF d(2,6) m(1), of 1024 True] m(5) r(1) d'(1)
    by (simp add: mkfs_vfat_main_def Let_def flip: d1_def md_def)
  moreover have "length (dv_data d') = ?n" using room len by (simp add: data algebra_simps)
  ultimately show ?thesis using r(2) m(2) data len by blast
qed

text \<open>
  C36. \<open>mkfs.vfat\<close> on a block device without an error of the kernel ends with success and leaves a
  FAT32 volume: the boot sector describes the whole device, the copies of the boot and info sectors
  and of the table are equal, the table has an entry for every cluster, the root directory is a
  chain of one cluster that holds the label and nothing else, and the number of free clusters in
  the info sector is the number of free entries of the table. Nothing behind the root directory is
  written and the device keeps its size. The device has fewer than 2 to the power of 32 sectors.
\<close>

theorem vfat_formats:
  assumes "block_device d ss" "length (dv_data d) < 2 ^ 32 * unat ss"
  shows "\<exists>d' m. mkfs_vfat_main label None volume_id (Some d) = Some (Inr d')
     \<and> fat32_volume (dv_data d') \<and> bpb_sector (dv_data d') = unat ss \<and> bpb_size (dv_data d') = length (dv_data d) div unat ss
     \<and> m = bpb_clust (dv_data d') * unat ss
     \<and> root_dir (dv_data d') = (if label = [] then replicate m NUL else strncpy 11 label @ [CHR 0x08] @ replicate (m - 12) NUL)
     \<and> length (dv_data d') = length (dv_data d)
     \<and> drop (data_start (dv_data d') * unat ss + m) (dv_data d') = drop (data_start (dv_data d') * unat ss + m) (dv_data d)"
proof -
  let ?n = "length (dv_data d)" and ?s = "unat ss"
  have s: "512 \<le> ?s" "?s \<le> 32768" using assms(1) by (simp_all add: block_device_def)
  obtain d' md spf t spc where w: "mkfs_vfat_main label None volume_id (Some d) = Some (Inr d')"
      "layout_ok (?n div ?s - 6) ss (Inr (spf, t, spc))" "unat (volume_size_sect md) = ?n div ?s"
    and data: "dv_data d' = vfat_bytes md ss spf t spc volume_id label
        @ drop (length (vfat_bytes md ss spf t spc volume_id label)) (dv_data d)"
    and len: "length (vfat_bytes md ss spf t spc volume_id label) = (6 + 2 * unat spf) * ?s + unat spc * ?s"
      "length (dv_data d') = ?n"
    using mkfs_vfat_writes [OF assms(1)] by blast
  have v32: "?n div ?s < 2 ^ 32" using s(1) assms(2) by (simp add: div_less_iff_less_mult)
  have l: "1 \<le> unat spf" "1 \<le> unat spc" using w(2) by (auto simp: layout_ok_def)
  note bpb = vfat_bpb [OF s data] and area = vfat_areas [OF s l data]
  have vol: "fat32_volume (dv_data d')"
    by (rule vfat_is_volume [OF s data]) (use w block_media(3) [OF assms(1)] v32 len(2) in simp_all)
  have "12 \<le> unat spc * ?s" using l(2) s(1) mult_le_mono [of 1 "unat spc" 512 ?s] by auto
  note root = area(4) [unfolded root_area_eq [OF this]]
  have start: "data_start (dv_data d') * ?s + unat spc * ?s = length (vfat_bytes md ss spf t spc volume_id label)"
    by (simp add: data_start_def bpb len(1))
  have "drop (length (vfat_bytes md ss spf t spc volume_id label)) (dv_data d')
      = drop (length (vfat_bytes md ss spf t spc volume_id label)) (dv_data d)" by (simp add: data)
  then show ?thesis
    using w(1) vol bpb(1,2,6) w(3) v32 root len(2) unfolding start [symmetric] by auto
qed

definition demo_card :: vdev where
  "demo_card = \<lparr>dv_kind = BlockDev, dv_data = replicate 20480 (CHR 0xFF), dv_pos = 7, dv_limit = 20480, dv_seekable = True,
     dv_events = [Chunk 100, Eintr, Chunk 0], dv_blksszget = Some 512, dv_getgeo = None, dv_fdgetprm = None\<rparr>"

lemma demo_card_block: "block_device demo_card 512"
  by (simp add: block_device_def demo_card_def MAX_CLUST_32_def)

theorem vfat_formats_witness:
  "\<exists>d' m. mkfs_vfat_main ''sd'' None 7 (Some demo_card) = Some (Inr d')
     \<and> fat32_volume (dv_data d') \<and> bpb_size (dv_data d') = 40 \<and> length (dv_data d') = 20480
     \<and> root_dir (dv_data d') = ''sd'' @ replicate 9 NUL @ [CHR 0x08] @ replicate (m - 12) NUL"
proof -
  have "length (dv_data demo_card) < 2 ^ 32 * unat (512 :: u32)" by (simp add: demo_card_def)
  from vfat_formats [OF demo_card_block this, of "''sd''" 7] show ?thesis
    by (auto simp: strncpy_def demo_card_def)
qed

text \<open>
  C40. The boot sector has four bytes for the number of sectors. A device of 2 to the power of 32
  sectors or more is accepted as long as its clusters can be numbered, and only the low 32 bits of
  its size are stored: a device of exactly that many sectors becomes a volume of no sectors.
\<close>

theorem vfat_size_wraps:
  assumes "block_device d ss"
  shows "\<exists>d'. mkfs_vfat_main label None volume_id (Some d) = Some (Inr d')
     \<and> bpb_size (dv_data d') = (length (dv_data d) div unat ss) mod 2 ^ 32
     \<and> (length (dv_data d) = 2 ^ 32 * unat ss \<longrightarrow> \<not> fat32_volume (dv_data d'))"
proof -
  have s: "512 \<le> unat ss" "unat ss \<le> 32768" using assms by (simp_all add: block_device_def)
  obtain d' md spf t spc where w: "mkfs_vfat_main label None volume_id (Some d) = Some (Inr d')"
      "unat (volume_size_sect md) = length (dv_data d) div unat ss"
    and data: "dv_data d' = vfat_bytes md ss spf t spc volume_id label
        @ drop (length (vfat_bytes md ss spf t spc volume_id label)) (dv_data d)"
    using mkfs_vfat_writes [OF assms] by blast
  note bpb = vfat_bpb [OF s data]
  have "\<not> fat32_volume (dv_data d')" if "bpb_size (dv_data d') = 0"
    using that by (simp add: fat32_volume_def data_start_def bpb(3))
  moreover have "length (dv_data d) div unat ss = 2 ^ 32" if "length (dv_data d) = 2 ^ 32 * unat ss"
    using that s(1) by (simp only: nonzero_mult_div_cancel_right)
  ultimately show ?thesis using w bpb(6) by auto
qed

text \<open>Four gigasectors of 512 bytes.\<close>

definition huge_card :: vdev where
  "huge_card = demo_card\<lparr>dv_data := replicate (2 ^ 41) NUL, dv_limit := 2 ^ 41\<rparr>"

theorem vfat_size_wraps_witness:
  "\<exists>d'. mkfs_vfat_main [] None 7 (Some huge_card) = Some (Inr d') \<and> bpb_size (dv_data d') = 0 \<and> \<not> fat32_volume (dv_data d')"
proof -
  have "block_device huge_card 512" "length (dv_data huge_card) = 2 ^ 32 * unat (512 :: u32)"
    by (simp_all add: block_device_def huge_card_def demo_card_def MAX_CLUST_32_def)
  then show ?thesis using vfat_size_wraps [of huge_card 512 "[]" 7] by auto
qed

end
