(* ===== verification/Mke2fs.thy ===== *)
theory Mke2fs
  imports Mkvfat
begin

text \<open>
  \<open>util-linux/mkfs_ext2.c\<close>, the \<open>mke2fs\<close> that the flash script runs on the partitions for Android.
  Variables of 32 bits are natural numbers below \<open>2 ^ 32\<close>; \<open>w32\<close> and \<open>sub32\<close> are the sums, products
  and differences as the machine computes them. The offsets of the superblock, the descriptors and
  the inodes are those of \<open>linux/ext2_fs.h\<close>; two of its constants differ between versions of the
  header (\<open>EXT2_MAX_BLOCK_SIZE\<close>, \<open>EXT2_FEATURE_COMPAT_SUPP\<close>) and are arguments. The source switches
  reserved descriptor blocks off (\<open>ENABLE_FEATURE_MKFS_EXT2_RESERVED_GDT\<close> is 0) and the directory index
  on. The device is the one of \<open>Mkvfat\<close>.
\<close>

section \<open>Helpers\<close>

definition w32 :: "nat \<Rightarrow> nat" where "w32 n = n mod 2 ^ 32"
definition sub32 :: "nat \<Rightarrow> nat \<Rightarrow> nat" where "sub32 a b = (a + 2 ^ 32 - b) mod 2 ^ 32"
definition st32 :: "nat \<Rightarrow> bytes" where "st32 v = le_bytes 4 (of_nat v :: u32)"
definition st16 :: "nat \<Rightarrow> bytes" where "st16 v = le_bytes 2 (of_nat v :: u16)"
definition st8 :: "nat \<Rightarrow> bytes" where "st8 v = le_bytes 1 (of_nat v :: u8)"

definition EXT2_MIN_BLOCK_SIZE :: nat where "EXT2_MIN_BLOCK_SIZE = 1024"
definition EXT2_GOOD_OLD_FIRST_INO :: nat where "EXT2_GOOD_OLD_FIRST_INO = 11"
definition EXT2_ROOT_INO :: nat where "EXT2_ROOT_INO = 2"
definition EXT2_FT_DIR :: nat where "EXT2_FT_DIR = 2"

datatype ext2_error = NoDevice | NotBlockDevice | IsMounted | Volume vfat_error | BadBlockSize | BadBytesPerInode | TooManyBlocks
  | TooFewBlocks | BadReserved | DivisionByZero | BitmapOverrun

fun int_log2 :: "nat \<Rightarrow> nat" where
  "int_log2 arg = (if arg div 2 \<noteq> 0 then Suc (int_log2 (arg div 2)) else 0)"

declare int_log2.simps [simp del]

definition div_roundup :: "nat \<Rightarrow> nat \<Rightarrow> nat" where
  "div_roundup sz n = (let res = sz div n in if w32 (res * n) \<noteq> sz then w32 (res + 1) else res)"

text \<open>The bitmap of a group: the first \<open>start\<close> and the last \<open>tail\<close> of its bits are set.\<close>

definition allocate :: "nat \<Rightarrow> nat \<Rightarrow> nat \<Rightarrow> ext2_error + u8 list" where
  "allocate blocksize start tail =
     (let i = start div 8; j = tail div 8 in
      if blocksize \<le> i \<or> blocksize \<le> j then Inl BitmapOverrun
      else
        let bm = replicate i 0xFF @ replicate (blocksize - i) 0;
            bm1 = bm[i := 2 ^ (start mod 8) - 1];
            bm2 = bm1[blocksize - j - 1 := bm1 ! (blocksize - j - 1) OR ucast (drop_bit (tail mod 8) (0x7F00 :: u32))]
        in Inr (take (blocksize - j) bm2 @ replicate j 0xFF))"

definition supers :: "nat list" where
  "supers = [0, 1, 3, 5, 7, 9, 25, 27, 49, 81, 125, 243, 343, 625, 729,
     2187, 2401, 3125, 6561, 15625, 16807, 19683, 59049, 78125,
     117649, 177147, 390625, 531441, 823543, 1594323, 1953125,
     4782969, 5764801, 9765625, 14348907, 40353607, 43046721,
     48828125, 129140163, 244140625, 282475249, 387420489,
     1162261467, 1220703125, 1977326743, 3486784401]"

fun scan_supers :: "nat list \<Rightarrow> nat \<Rightarrow> bool" where
  "scan_supers [] x = False"
| "scan_supers (s # sp) x = (if x = s then True else if x > s then False else scan_supers sp x)"

definition has_super :: "nat \<Rightarrow> bool" where
  "has_super x = scan_supers (rev supers) x"

section \<open>Parameters of the file system\<close>

text \<open>The options that are not ignored; \<open>None\<close> where one is not given.\<close>

record ext2_opts =
  opt_b :: "nat option"
  opt_i :: "nat option"
  opt_I :: "nat option"
  opt_m :: nat
  opt_L :: string
  opt_n :: bool
  opt_F :: bool

text \<open>
  The loop for headers that allow blocks of more than 4096 bytes. A volume is smaller than \<open>2 ^ 63\<close>
  bytes, so \<open>k\<close> is below \<open>2 ^ 31\<close> and the product does not wrap.
\<close>

function grow_blocksize :: "nat \<Rightarrow> nat \<Rightarrow> nat" where
  "grow_blocksize k blocksize = (if blocksize = 0 \<or> k < blocksize then blocksize else grow_blocksize k (2 * blocksize))"
  by pat_completeness auto
termination by (relation "measure (\<lambda>(k, b). Suc k - b)") auto

definition ext2_sizes :: "nat \<Rightarrow> ext2_opts \<Rightarrow> nat \<Rightarrow> ext2_error + (nat \<times> nat \<times> nat)" where
  "ext2_sizes max_block_size opts kilobytes =
     (let bpi0 = (if kilobytes < 3 * 1024 then 8192 else if kilobytes < 512 * 1024 then 4096 else 16384);
          bytes_per_inode = (case opt_i opts of Some bpi \<Rightarrow> bpi | None \<Rightarrow> bpi0);
          bs0 = (if kilobytes \<ge> 512 * 1024 then 4096 else 1024);
          bs1 = (if max_block_size > 4096 then grow_blocksize (kilobytes div 2 ^ 22) bs0 else bs0);
          blocksize = (case opt_b opts of Some bs \<Rightarrow> bs | None \<Rightarrow> bs1);
          isz0 = (if kilobytes \<ge> 512 * 1024 then 256 else 128)
      in if blocksize < EXT2_MIN_BLOCK_SIZE \<or> blocksize > max_block_size \<or> blocksize AND (blocksize - 1) \<noteq> 0 then Inl BadBlockSize
         else
           let inodesize = (case opt_I opts of
                 Some u \<Rightarrow> if u < 128 \<or> u > blocksize \<or> u AND (u - 1) \<noteq> 0 then isz0 else u
               | None \<Rightarrow> isz0)
           in if bytes_per_inode < blocksize then Inl BadBytesPerInode
              else Inr (blocksize, inodesize, bytes_per_inode))"

record ext2_geo =
  blocksize :: nat
  inodesize :: nat
  first_block :: nat
  nblocks :: nat
  ngroups :: nat
  group_desc_blocks :: nat
  inodes_per_group :: nat
  inode_table_blocks :: nat
  lost_and_found_blocks :: nat

definition blocks_per_group :: "nat \<Rightarrow> nat" where
  "blocks_per_group bs = w32 (8 * bs)"

definition group_inodes :: "nat \<Rightarrow> nat \<Rightarrow> nat \<Rightarrow> nat \<Rightarrow> nat" where
  "group_inodes bs isz ninodes groups =
     (let ipg0 = div_roundup ninodes groups;
          ipg1 = (if ipg0 < 16 then 16 else ipg0);
          ipg2 = (if ipg1 > blocks_per_group bs then blocks_per_group bs else ipg1);
          ipg3 = w32 (div_roundup (w32 (ipg2 * isz)) bs * bs) div isz
      in ipg3 - ipg3 mod 8)"

text \<open>The parameters for \<open>nb\<close> blocks, and again without the last group when it is too small (\<open>retry:\<close>).\<close>

definition ext2_geometry :: "nat \<Rightarrow> nat \<Rightarrow> nat \<Rightarrow> nat \<Rightarrow> nat \<Rightarrow> ext2_geo" where
  "ext2_geometry bs isz bytes_per_inode nblocks_full nb =
     (let first = (if bs = EXT2_MIN_BLOCK_SIZE then 1 else 0);
          groups = div_roundup (sub32 nb first) (blocks_per_group bs);
          ninodes0 = w32 (nblocks_full * bs div bytes_per_inode);
          ninodes = (if ninodes0 < EXT2_GOOD_OLD_FIRST_INO + 1 then EXT2_GOOD_OLD_FIRST_INO + 1 else ninodes0);
          ipg = group_inodes bs isz ninodes groups
      in \<lparr>blocksize = bs, inodesize = isz, first_block = first, nblocks = nb, ngroups = groups,
          group_desc_blocks = div_roundup groups (bs div 32), inodes_per_group = ipg,
          inode_table_blocks = div_roundup (w32 (ipg * isz)) bs,
          lost_and_found_blocks = min 12 (16 div 2 ^ (int_log2 bs - 10))\<rparr>)"

definition chop :: "ext2_geo \<Rightarrow> nat" where
  "chop g =
     (let overhead = w32 ((if has_super (sub32 (ngroups g) 1) then 1 + group_desc_blocks g else 0) + 1 + 1 + inode_table_blocks g);
          remainder = sub32 (nblocks g) (first_block g) mod blocks_per_group (blocksize g)
      in if remainder \<noteq> 0 \<and> remainder < w32 (overhead + 50) then remainder else 0)"

partial_function (option) ext2_plan :: "nat \<Rightarrow> nat \<Rightarrow> nat \<Rightarrow> nat \<Rightarrow> nat \<Rightarrow> (ext2_error + ext2_geo) option" where
  "ext2_plan bs isz bytes_per_inode nblocks_full nb =
     (let g = ext2_geometry bs isz bytes_per_inode nblocks_full nb in
      if ngroups g = 0 then Some (Inl DivisionByZero)
      else if chop g \<noteq> 0 then ext2_plan bs isz bytes_per_inode nblocks_full (nb - chop g)
      else Some (Inr g))"

declare ext2_plan.simps [code]

section \<open>Groups\<close>

record group =
  bg_block_bitmap :: nat
  bg_inode_bitmap :: nat
  bg_inode_table :: nat
  bg_free_blocks_count :: nat
  bg_free_inodes_count :: nat
  bg_used_dirs_count :: nat

text \<open>What is written: at a position (\<open>PUT\<close>) or behind the last write (\<open>xwrite\<close>).\<close>

datatype disk_io = PUT nat bytes | XWRITE bytes

definition byte_of :: "u8 \<Rightarrow> char" where "byte_of w = char_of (unat w)"

definition group_pos :: "ext2_geo \<Rightarrow> nat \<Rightarrow> nat" where
  "group_pos g i = w32 (first_block g + i * blocks_per_group (blocksize g))"

definition make_group :: "ext2_geo \<Rightarrow> nat \<Rightarrow> ext2_error + (group \<times> nat \<times> disk_io list)" where
  "make_group g i =
     (let bs = blocksize g; bpg = blocks_per_group bs; pos = group_pos g i;
          n = sub32 (sub32 (nblocks g) (first_block g)) (w32 (i * bpg));
          start = w32 (pos + (if has_super i then 1 + group_desc_blocks g else 0));
          ov = w32 (sub32 start pos + 1 + 1 + inode_table_blocks g);
          overhead = (if i = 0 then w32 (ov + 1 + lost_and_found_blocks g) else ov);
          finodes = (if i = 0 then inodes_per_group g - EXT2_GOOD_OLD_FIRST_INO else inodes_per_group g) mod 2 ^ 16;
          free_blocks = sub32 (if n < bpg then n else bpg) overhead
      in and_then (allocate bs overhead (sub32 bpg (w32 (free_blocks + overhead)))) (\<lambda>bbmp.
         and_then (allocate bs (sub32 (inodes_per_group g) finodes) (sub32 bpg (inodes_per_group g))) (\<lambda>ibmp.
         Inr (\<lparr>bg_block_bitmap = start, bg_inode_bitmap = w32 (start + 1), bg_inode_table = w32 (start + 2),
               bg_free_blocks_count = free_blocks, bg_free_inodes_count = finodes, bg_used_dirs_count = (if i = 0 then 2 else 0)\<rparr>,
              free_blocks, [PUT (start * bs) (map byte_of bbmp), XWRITE (map byte_of ibmp)]))))"

fun make_groups :: "ext2_geo \<Rightarrow> nat list \<Rightarrow> ext2_error + (group list \<times> nat \<times> disk_io list)" where
  "make_groups g [] = Inr ([], 0, [])"
| "make_groups g (i # is) =
     and_then (make_group g i) (\<lambda>(gd, free, io).
     and_then (make_groups g is) (\<lambda>(gds, frees, ios). Inr (gd # gds, w32 (free + frees), io @ ios)))"

definition gd_bytes :: "group \<Rightarrow> bytes" where
  "gd_bytes gd = st32 (bg_block_bitmap gd) @ st32 (bg_inode_bitmap gd) @ st32 (bg_inode_table gd) @ st16 (bg_free_blocks_count gd)
     @ st16 (bg_free_inodes_count gd) @ st16 (bg_used_dirs_count gd) @ replicate 14 NUL"

definition gd_table :: "ext2_geo \<Rightarrow> group list \<Rightarrow> bytes" where
  "gd_table g gds = concat (map gd_bytes gds) @ replicate (group_desc_blocks g * blocksize g - 32 * length gds) NUL"

section \<open>Superblock, inodes and directories\<close>

definition sb_stores :: "nat \<Rightarrow> ext2_geo \<Rightarrow> nat \<Rightarrow> nat \<Rightarrow> nat \<Rightarrow> bytes \<Rightarrow> bytes \<Rightarrow> string \<Rightarrow> (nat \<times> bytes) list" where
  "sb_stores compat_supp g nreserved free_blocks timestamp uuid seed label =
     (let bs = blocksize g; log = int_log2 bs - 10; bpg = blocks_per_group bs; total_inodes = w32 (inodes_per_group g * ngroups g) in
      [(76, st32 1),
       (56, st16 0xEF53),
       (88, st16 (inodesize g))]
      @ (if inodesize g \<noteq> 128 then [(348, st32 0x001C001C)] else [])
      @ [(84, st32 EXT2_GOOD_OLD_FIRST_INO),
       (24, st32 log),
       (28, st32 log),
       (20, st32 (first_block g)),
       (32, st32 bpg),
       (36, st32 bpg),
       (4, st32 (nblocks g)),
       (8, st32 nreserved),
       (40, st32 (inodes_per_group g)),
       (0, st32 total_inodes),
       (16, st32 (sub32 total_inodes EXT2_GOOD_OLD_FIRST_INO)),
       (264, st32 timestamp),
       (48, st32 timestamp),
       (64, st32 timestamp),
       (58, st16 1),
       (72, st32 0),
       (68, st32 (24 * 60 * 60 * 180)),
       (60, st16 1),
       (92, st32 (compat_supp OR 0x20)),
       (96, st32 2),
       (100, st32 1),
       (352, st32 2),
       (104, uuid),
       (252, st8 1),
       (236, seed),
       (54, st16 (20 + of_char (uuid ! 15) mod 20)),
       (120, strncpy 15 label @ [NUL]),
       (12, st32 free_blocks)])"

definition sb_bytes :: "nat \<Rightarrow> ext2_geo \<Rightarrow> nat \<Rightarrow> nat \<Rightarrow> nat \<Rightarrow> bytes \<Rightarrow> bytes \<Rightarrow> string \<Rightarrow> bytes" where
  "sb_bytes compat_supp g nreserved free_blocks timestamp uuid seed label =
     stores (sb_stores compat_supp g nreserved free_blocks timestamp uuid seed label) (replicate 1024 NUL)"

definition super_io :: "ext2_geo \<Rightarrow> bytes \<Rightarrow> bytes \<Rightarrow> nat \<Rightarrow> disk_io list" where
  "super_io g sb gd i =
     (let bs = blocksize g; pos = group_pos g i in
      if has_super i then [PUT (pos * bs + (if i = 0 \<and> bs \<noteq> 1024 then 1024 else 0)) sb, PUT (pos * bs + bs) gd] else [])"

definition table_io :: "ext2_geo \<Rightarrow> group \<Rightarrow> disk_io list" where
  "table_io g gd = map (\<lambda>n. PUT (w32 (bg_inode_table gd + n) * blocksize g) (replicate (blocksize g) NUL)) [0..<inode_table_blocks g]"

definition root_stores_inode :: "ext2_geo \<Rightarrow> group \<Rightarrow> nat \<Rightarrow> (nat \<times> bytes) list" where
  "root_stores_inode g gd0 timestamp =
     [(0, st16 0x41ED),
      (16, st32 timestamp),
      (8, st32 timestamp),
      (12, st32 timestamp),
      (4, st32 (blocksize g)),
      (28, st32 (blocksize g div 512)),
      (26, st16 3),
      (40, st32 (bg_inode_table gd0 + inode_table_blocks g))]"

definition lost_stores_inode :: "ext2_geo \<Rightarrow> group \<Rightarrow> (nat \<times> bytes) list" where
  "lost_stores_inode g gd0 =
     (let n = bg_inode_table gd0 + inode_table_blocks g + 1 in
      [(26, st16 2),
       (4, st32 (lost_and_found_blocks g * blocksize g)),
       (28, st32 (lost_and_found_blocks g * blocksize g div 512))]
      @ map (\<lambda>i. (40 + 4 * i, st32 (i + n))) [0..<lost_and_found_blocks g])"

definition inode_io :: "ext2_geo \<Rightarrow> group \<Rightarrow> nat \<Rightarrow> disk_io list" where
  "inode_io g gd0 timestamp =
     (let bs = blocksize g; isz = inodesize g;
          buf1 = stores (root_stores_inode g gd0 timestamp) (replicate bs NUL);
          buf2 = stores (lost_stores_inode g gd0) buf1
      in [PUT (bg_inode_table gd0 * bs + (EXT2_ROOT_INO - 1) * isz) (take isz buf1),
          PUT (bg_inode_table gd0 * bs + (EXT2_GOOD_OLD_FIRST_INO - 1) * isz) (take isz buf2)])"

definition lost_stores_dir :: "nat \<Rightarrow> (nat \<times> bytes) list" where
  "lost_stores_dir bs =
     [(0, st32 EXT2_GOOD_OLD_FIRST_INO), (4, st16 12), (6, st8 1), (7, st8 EXT2_FT_DIR), (8, ''.''),
      (12, st32 EXT2_ROOT_INO), (16, st16 (bs - 12)), (18, st8 2), (19, st8 EXT2_FT_DIR), (20, ''..'')]"

definition root_stores_dir :: "nat \<Rightarrow> (nat \<times> bytes) list" where
  "root_stores_dir bs =
     [(0, st32 EXT2_ROOT_INO), (16, st16 12),
      (24, st32 EXT2_GOOD_OLD_FIRST_INO), (28, st16 (bs - 12 - 12)), (30, st8 10), (31, st8 EXT2_FT_DIR), (32, ''lost+found'' @ [NUL])]"

definition dir_io :: "ext2_geo \<Rightarrow> group \<Rightarrow> disk_io list" where
  "dir_io g gd0 =
     (let bs = blocksize g; t = bg_inode_table gd0 + inode_table_blocks g;
          buf0 = stores [(4, st16 bs)] (replicate bs NUL);
          buf1 = stores (lost_stores_dir bs) buf0;
          buf2 = stores (root_stores_dir bs) buf1
      in map (\<lambda>i. PUT (w32 (t + 1 + i) * bs) buf0) [1..<lost_and_found_blocks g]
         @ [PUT (w32 (t + 1) * bs) buf1, PUT (w32 t * bs) buf2])"

section \<open>The program\<close>

fun run_io :: "disk_io list \<Rightarrow> vdev \<Rightarrow> vfat_error + vdev" where
  "run_io [] d = Inr d"
| "run_io (PUT off b # ios) d =
     (case dev_seek (int off) d of None \<Rightarrow> Inl SeekFailed | Some d1 \<Rightarrow> and_then (dev_write b d1) (run_io ios))"
| "run_io (XWRITE b # ios) d = and_then (dev_write b d) (run_io ios)"

definition ext2_io :: "nat \<Rightarrow> ext2_geo \<Rightarrow> nat \<Rightarrow> nat \<Rightarrow> bytes \<Rightarrow> bytes \<Rightarrow> string \<Rightarrow> ext2_error + disk_io list" where
  "ext2_io compat_supp g nreserved timestamp uuid seed label =
     and_then (make_groups g [0..<ngroups g]) (\<lambda>(gds, free_blocks, bitmaps).
       let sb = sb_bytes compat_supp g nreserved free_blocks timestamp uuid seed label in
       Inr (bitmaps
            @ concat (map (super_io g sb (gd_table g gds)) [0..<ngroups g])
            @ [PUT 0 (replicate 1024 NUL)]
            @ concat (map (table_io g) gds)
            @ inode_io g (hd gds) timestamp
            @ dir_io g (hd gds)))"

text \<open>
  \<open>mounted\<close> is the answer of \<open>find_mount_point\<close>, \<open>uuid\<close> and \<open>seed\<close> are what \<open>generate_uuid\<close> returns. \<open>None\<close> is
  not returning. A dry run writes nothing more than the byte that extends a file.
\<close>

definition mkfs_ext2_main ::
  "nat \<Rightarrow> nat \<Rightarrow> ext2_opts \<Rightarrow> string option \<Rightarrow> bool \<Rightarrow> nat \<Rightarrow> bytes \<Rightarrow> bytes \<Rightarrow> vdev option \<Rightarrow> (ext2_error + vdev) option" where
  "mkfs_ext2_main max_block_size compat_supp opts size_arg mounted timestamp uuid seed dev =
     (case dev of
        None \<Rightarrow> Some (Inl NoDevice)
      | Some d \<Rightarrow>
          if dv_kind d \<noteq> BlockDev \<and> \<not> opt_F opts then Some (Inl NotBlockDevice)
          else if mounted then Some (Inl IsMounted)
          else case get_volume_size_in_bytes size_arg 1024 (\<not> opt_n opts) d of
            Inl e \<Rightarrow> Some (Inl (Volume e))
          | Inr (bytes, d1) \<Rightarrow>
              let kilobytes = unat bytes div 1024 in
              case ext2_sizes max_block_size opts kilobytes of
                Inl e \<Rightarrow> Some (Inl e)
              | Inr (bs, isz, bytes_per_inode) \<Rightarrow>
                  let blocks = kilobytes div 2 ^ (int_log2 bs - 10) in
                  if w32 blocks \<noteq> blocks then Some (Inl TooManyBlocks)
                  else if blocks < 60 then Some (Inl TooFewBlocks)
                  else if opt_m opts > 50 then Some (Inl BadReserved)
                  else
                    let nreserved = w32 (blocks * opt_m opts div 100) in
                    map_option (\<lambda>r. and_then r (\<lambda>g.
                        if opt_n opts then Inr d1
                        else and_then (ext2_io compat_supp g nreserved timestamp uuid seed (opt_L opts)) (\<lambda>ios.
                          case run_io ios d1 of Inl e \<Rightarrow> Inl (Volume e) | Inr d' \<Rightarrow> Inr d')))
                      (ext2_plan bs isz bytes_per_inode blocks blocks))"

end
