(* ===== verification/Ext2Layout.thy ===== *)
theory Ext2Layout
  imports Mke2fs DiskFields
begin

text \<open>
  What the helpers of \<open>mke2fs\<close> compute: the bitmap of a group bit by bit, the groups that have a copy
  of the superblock, and the parameters of the file system for a volume of any size.
\<close>

section \<open>Bitmaps\<close>

definition bit_at :: "u8 list \<Rightarrow> nat \<Rightarrow> bool" where
  "bit_at bm k = bit (bm ! (k div 8)) (k mod 8)"

lemma tail_byte: "t < 8 \<Longrightarrow> r < 8 \<Longrightarrow> bit (ucast (drop_bit t (0x7F00 :: u32)) :: u8) r \<longleftrightarrow> 8 \<le> r + t"
proof -
  have "list_all (\<lambda>t. list_all (\<lambda>r. bit (ucast (drop_bit t (0x7F00 :: u32)) :: u8) r \<longleftrightarrow> 8 \<le> r + t) [0..<8]) [0..<8]"
    by code_simp
  then show "t < 8 \<Longrightarrow> r < 8 \<Longrightarrow> ?thesis" by (simp only: list_all_iff set_upt atLeastLessThan_iff) simp
qed

lemma start_byte: "n < 8 \<Longrightarrow> r < 8 \<Longrightarrow> bit (2 ^ n - 1 :: u8) r \<longleftrightarrow> r < n"
  by (simp add: bit_mask_iff flip: mask_eq_exp_minus_1)

lemma full_byte: "r < 8 \<Longrightarrow> bit (0xFF :: u8) r"
proof -
  have "(0xFF :: u8) = mask 8" by (simp add: mask_eq_exp_minus_1)
  then show "r < 8 \<Longrightarrow> ?thesis" by (simp only: bit_mask_iff) simp
qed

lemma before_bit: "r < 8 \<Longrightarrow> 8 * q + r < s \<longleftrightarrow> q < s div 8 \<or> q = s div 8 \<and> r < s mod (8 :: nat)"
proof -
  define i m where "i = s div 8" "m = s mod 8"
  then have "s = 8 * i + m" "m < 8" by simp_all
  then show "r < 8 \<Longrightarrow> ?thesis" unfolding i_m_def [symmetric] by linarith
qed

lemma behind_bit:
  assumes "r < 8" "t div 8 < bs"
  shows "8 * bs - t \<le> 8 * q + r \<longleftrightarrow> bs - t div 8 \<le> q \<or> q = bs - t div 8 - 1 \<and> 8 \<le> r + t mod (8 :: nat)"
proof -
  define j m where "j = t div 8" "m = t mod 8"
  then have "t = 8 * j + m" "m < 8" "j < bs" using assms(2) by simp_all
  then show ?thesis using assms(1) unfolding j_m_def [symmetric] by linarith
qed

lemma allocate_bits:
  assumes "start < 8 * bs" "tail < 8 * bs"
  shows "\<exists>bm. allocate bs start tail = Inr bm \<and> length bm = bs \<and> (\<forall>k < 8 * bs. bit_at bm k \<longleftrightarrow> k < start \<or> 8 * bs - tail \<le> k)"
proof -
  let ?i = "start div 8" and ?j = "tail div 8"
  define b1 where "b1 = (replicate ?i 0xFF @ replicate (bs - ?i) 0 :: u8 list)[?i := 2 ^ (start mod 8) - 1]"
  define b2 where "b2 = b1[bs - ?j - 1 := b1 ! (bs - ?j - 1) OR ucast (drop_bit (tail mod 8) (0x7F00 :: u32))]"
  define bm where "bm = take (bs - ?j) b2 @ replicate ?j 0xFF"
  have i: "?i < bs" "?j < bs" using assms by (simp_all add: less_mult_imp_div_less mult.commute)
  have len: "length b1 = bs" "length b2 = bs" "length bm = bs" using i by (simp_all add: b1_def b2_def bm_def)
  have eq: "allocate bs start tail = Inr bm" using i by (simp add: allocate_def Let_def bm_def b2_def b1_def)
  have b1: "bit (b1 ! q) r \<longleftrightarrow> 8 * q + r < start" if "q < bs" "r < 8" for q r
  proof -
    have "8 * q + r < start \<longleftrightarrow> q < ?i \<or> q = ?i \<and> r < start mod 8" using that(2) by (rule before_bit)
    moreover have "b1 ! q = (if q < ?i then 0xFF else if q = ?i then 2 ^ (start mod 8) - 1 else 0)"
      using that i by (simp add: b1_def nth_list_update nth_append)
    ultimately show ?thesis using that full_byte [of r] start_byte [of "start mod 8" r] by auto
  qed
  have "bit_at bm k \<longleftrightarrow> k < start \<or> 8 * bs - tail \<le> k" if "k < 8 * bs" for k
  proof -
    let ?q = "k div 8" and ?r = "k mod 8"
    have q: "?q < bs" "?r < 8" using that by (simp_all add: less_mult_imp_div_less mult.commute)
    have k: "8 * ?q + ?r = k" by simp
    have t: "8 * bs - tail \<le> k \<longleftrightarrow> bs - ?j \<le> ?q \<or> ?q = bs - ?j - 1 \<and> 8 \<le> ?r + tail mod 8"
      using behind_bit [OF q(2) i(2), of ?q] k by simp
    show ?thesis
    proof (cases "bs - ?j \<le> ?q")
      case True
      moreover have "?q + ?j - bs < ?j" using q(1) i(2) True by linarith
      ultimately have "bm ! ?q = 0xFF" using q len i by (simp add: bm_def nth_append)
      then show ?thesis using True t q(2) full_byte by (simp add: bit_at_def)
    next
      case False
      then have "bm ! ?q = (if ?q = bs - ?j - 1 then b1 ! ?q OR ucast (drop_bit (tail mod 8) (0x7F00 :: u32)) else b1 ! ?q)"
        using q len by (auto simp: bm_def b2_def nth_append nth_list_update)
      then show ?thesis
        using False t b1 [OF q] tail_byte [of "tail mod 8" ?r] q(2) k by (auto simp: bit_at_def bit_or_iff)
    qed
  qed
  then show ?thesis using eq len by blast
qed

section \<open>Copies of the superblock\<close>

lemma scan_supers_set: "sorted_wrt (>) sp \<Longrightarrow> scan_supers sp x \<longleftrightarrow> x \<in> set sp"
  by (induction sp) auto

lemma has_super_set: "has_super x \<longleftrightarrow> x \<in> set supers"
proof -
  have "sorted_wrt (>) (rev supers)" by (simp add: supers_def)
  then show ?thesis unfolding has_super_def by (simp only: scan_supers_set set_rev)
qed

lemma has_super_0 [simp]: "has_super 0"
  by (simp add: has_super_set supers_def)

text \<open>Every power of \<open>p\<close> that fits 32 bits has an exponent below 21, so it can be looked up.\<close>

lemma small_power:
  assumes "p ^ k < 2 ^ 32" "3 \<le> (p :: nat)"
  shows "k < 21"
proof (rule ccontr)
  assume "\<not> k < 21"
  then have "p ^ 21 \<le> p ^ k" using assms(2) by (intro power_increasing) simp_all
  moreover have "3 ^ 21 \<le> p ^ 21" using assms(2) by (rule power_mono) simp
  ultimately show False using assms(1) by simp
qed

definition super_powers :: "(nat \<times> nat) list" where
  "super_powers = [(3, 0), (3, 1), (5, 1), (7, 1), (3, 2), (5, 2), (3, 3), (7, 2), (3, 4), (5, 3), (3, 5), (7, 3), (5, 4), (3,
     6), (3, 7), (7, 4), (5, 5), (3, 8), (5, 6), (7, 5), (3, 9), (3, 10), (5, 7), (7, 6), (3, 11), (5, 8), (3, 12),
     (7, 7), (3, 13), (5, 9), (3, 14), (7, 8), (5, 10), (3, 15), (7, 9), (3, 16), (5, 11), (3, 17), (5, 12), (7,
     10), (3, 18), (3, 19), (5, 13), (7, 11), (3, 20)]"

lemma supers_are_powers: "supers = 0 # map (\<lambda>(p, k). p ^ k) super_powers"
  by (simp add: supers_def super_powers_def)

lemma supers_hold_powers:
  "list_all (\<lambda>p. list_all (\<lambda>k. 2 ^ 32 \<le> p ^ k \<or> (p, k) \<in> set super_powers) [1..<21]) [3, 5, 7]"
  by (simp add: super_powers_def upt_rec)

lemma has_super_powers:
  assumes "x < 2 ^ 32"
  shows "has_super x \<longleftrightarrow> x = 0 \<or> (\<exists>k. x = 3 ^ k \<or> x = 5 ^ k \<or> x = 7 ^ k)"
proof
  assume "has_super x"
  then have "x \<in> set supers" by (simp only: has_super_set)
  then show "x = 0 \<or> (\<exists>k. x = 3 ^ k \<or> x = 5 ^ k \<or> x = 7 ^ k)"
    unfolding supers_are_powers super_powers_def list.map list.set insert_iff prod.case empty_iff by (elim disjE) blast+
next
  assume a: "x = 0 \<or> (\<exists>k. x = 3 ^ k \<or> x = 5 ^ k \<or> x = 7 ^ k)"
  have h: "p ^ k \<in> set supers" if "p ^ k < 2 ^ 32" "p \<in> set [3, 5, 7]" for p k
  proof -
    have "3 \<le> p" using that(2) by auto
    then have k: "k < 21" using small_power [OF that(1)] by simp
    show ?thesis
    proof (cases "k = 0")
      case True
      then show ?thesis by (simp add: supers_def)
    next
      case False
      then have "k \<in> set [1..<21]" using k by simp
      then have "2 ^ 32 \<le> p ^ k \<or> (p, k) \<in> set super_powers"
        using supers_hold_powers that(2) unfolding list_all_iff by blast
      then have "(p, k) \<in> set super_powers" using that(1) by (meson not_le)
      then have "p ^ k \<in> (\<lambda>(p, k). p ^ k) ` set super_powers" by (rule rev_image_eqI) simp
      then show ?thesis unfolding supers_are_powers by simp
    qed
  qed
  have "x = 0 \<or> (\<exists>p k. p \<in> set [3, 5, 7] \<and> x = p ^ k)" using a by auto
  then show "has_super x"
  proof (elim disjE exE conjE)
    show "x = 0 \<Longrightarrow> has_super x" by simp
    show "has_super x" if "p \<in> set [3, 5, 7]" "x = p ^ k" for p k
      unfolding has_super_set that(2) by (rule h) (use assms that in blast)+
  qed
qed

section \<open>Rounding up\<close>

definition ceil_div :: "nat \<Rightarrow> nat \<Rightarrow> nat" where
  "ceil_div a b = (a + b - 1) div b"

lemma ceil_div_le: "0 < b \<Longrightarrow> ceil_div a b \<le> c \<longleftrightarrow> a \<le> c * b"
proof -
  assume b: "0 < b"
  have "ceil_div a b \<le> c \<longleftrightarrow> (a + b - 1) div b < Suc c" by (simp add: ceil_div_def less_Suc_eq_le)
  also have "\<dots> \<longleftrightarrow> a + b - 1 < Suc c * b" using b by (rule div_less_iff_less_mult)
  also have "\<dots> \<longleftrightarrow> a \<le> c * b" using b by auto
  finally show ?thesis .
qed

lemma ceil_div_bounds: "0 < b \<Longrightarrow> a \<le> ceil_div a b * b" "0 < b \<Longrightarrow> 0 < a \<Longrightarrow> (ceil_div a b - 1) * b < a"
proof -
  assume b: "0 < b"
  show "a \<le> ceil_div a b * b" using ceil_div_le [OF b, of a "ceil_div a b"] by simp
  assume a: "0 < a"
  show "(ceil_div a b - 1) * b < a"
  proof (rule ccontr)
    assume "\<not> ?thesis"
    then have "ceil_div a b \<le> ceil_div a b - 1" using ceil_div_le [OF b, of a "ceil_div a b - 1"] by simp
    then have "ceil_div a b = 0" by simp
    then show False using ceil_div_le [OF b, of a 0] a by simp
  qed
qed

lemma ceil_div_mult: "0 < b \<Longrightarrow> ceil_div (x * b) b = x"
  using ceil_div_le [of b "x * b" x] ceil_div_bounds(1) [of b "x * b"] by (intro antisym) simp_all

lemma div_roundup_ceil:
  assumes "sz < 2 ^ 32" "0 < n"
  shows "div_roundup sz n = ceil_div sz n"
proof -
  have le: "sz div n * n \<le> sz" by (rule div_times_less_eq_dividend)
  then have "sz div n * n < 2 ^ 32" using assms(1) by (rule le_less_trans)
  then have w: "w32 (sz div n * n) = sz div n * n" by (simp only: w32_def mod_less)
  show ?thesis
  proof (cases "sz div n * n = sz")
    case True
    have "ceil_div sz n \<le> sz div n" using ceil_div_le [OF assms(2)] True by simp
    moreover have "sz div n \<le> ceil_div sz n"
      using ceil_div_bounds(1) [OF assms(2), of sz] True assms(2) by (metis mult_le_cancel2)
    ultimately show ?thesis using True w by (simp add: div_roundup_def Let_def)
  next
    case False
    with le have lt: "sz div n * n < sz" by (rule le_neq_trans)
    have "sz < Suc (sz div n) * n" using div_less_iff_less_mult [OF assms(2), of sz "Suc (sz div n)"] by simp
    then have "ceil_div sz n \<le> Suc (sz div n)" using ceil_div_le [OF assms(2)] by simp
    moreover have "\<not> ceil_div sz n \<le> sz div n" using ceil_div_le [OF assms(2)] lt by simp
    ultimately have c: "ceil_div sz n = sz div n + 1" by simp
    have "n \<noteq> 1" using False by auto
    then have "sz div n \<le> sz div 2" using assms(2) by (intro div_le_mono2) simp_all
    moreover have "sz div 2 < 2 ^ 31" using assms(1) by (simp add: less_mult_imp_div_less)
    ultimately have "sz div n + 1 < 2 ^ 32" by simp
    then show ?thesis using False w c by (simp add: div_roundup_def Let_def w32_def)
  qed
qed

lemma w32_small: "n < 2 ^ 32 \<Longrightarrow> w32 n = n"
  by (simp add: w32_def)

lemma sub32_small: "b \<le> a \<Longrightarrow> a < 2 ^ 32 \<Longrightarrow> sub32 a b = a - b"
  by (simp add: sub32_def le_mod_geq)

section \<open>Parameters\<close>

text \<open>The sizes the program chooses for a volume of \<open>nb\<close> blocks when no option asks for others.\<close>

definition usual :: "nat \<Rightarrow> nat \<Rightarrow> nat \<Rightarrow> nat \<Rightarrow> bool" where
  "usual bs isz bpi nb \<longleftrightarrow>
     bs = 1024 \<and> isz = 128 \<and> bpi = 8192 \<and> 60 \<le> nb \<and> nb < 3072
     \<or> bs = 1024 \<and> isz = 128 \<and> bpi = 4096 \<and> 3072 \<le> nb \<and> nb < 524288
     \<or> bs = 4096 \<and> isz = 256 \<and> bpi = 16384 \<and> 131072 \<le> nb \<and> nb < 2 ^ 32"

lemma bpg_values: "blocks_per_group 1024 = 8192" "blocks_per_group 4096 = 32768"
  by (simp_all add: blocks_per_group_def w32_def)

lemma log_values: "int_log2 1024 = 10" "int_log2 4096 = 12"
  by (simp_all add: int_log2.simps)

definition table_blocks :: "nat \<Rightarrow> nat \<Rightarrow> nat \<Rightarrow> nat \<Rightarrow> nat" where
  "table_blocks bs isz nin G = ceil_div (min (8 * bs) (max 16 (ceil_div nin G))) (bs div isz)"

lemma group_inodes_eq:
  assumes "(bs, isz) \<in> {(1024, 128), (4096, 256)}" "nin < 2 ^ 32" "0 < G"
  shows "group_inodes bs isz nin G = bs div isz * table_blocks bs isz nin G"
proof -
  define x where "x = min (8 * bs) (max 16 (ceil_div nin G))"
  have c: "div_roundup nin G = ceil_div nin G" using div_roundup_ceil assms(2,3) by simp
  have x: "x \<le> 8 * bs" by (simp add: x_def)
  have "group_inodes bs isz nin G = (let y = w32 (div_roundup (w32 (x * isz)) bs * bs) div isz in y - y mod 8)"
    using assms(1) by (auto simp: group_inodes_def Let_def c x_def bpg_values min_def max_def)
  also have "\<dots> = bs div isz * ceil_div x (bs div isz)"
    using assms(1) x by (auto simp: Let_def w32_small div_roundup_ceil ceil_div_def)
  finally show ?thesis by (simp add: table_blocks_def x_def)
qed

text \<open>The geometry for \<open>N\<close> blocks behind the first, less than a group fewer than the volume has.\<close>

lemma ext2_geometry_eq:
  assumes "usual bs isz bpi nbf" "0 < N" "N + first \<le> nbf" "first = (if bs = 1024 then 1 else 0)"
  defines "G \<equiv> ceil_div N (8 * bs)" and "nin \<equiv> max 12 (nbf * bs div bpi)"
  shows "ext2_geometry bs isz bpi nbf (N + first) =
    \<lparr>blocksize = bs, inodesize = isz, first_block = first, nblocks = N + first, ngroups = G,
     group_desc_blocks = ceil_div G (bs div 32), inodes_per_group = bs div isz * table_blocks bs isz nin G,
     inode_table_blocks = table_blocks bs isz nin G, lost_and_found_blocks = (if bs = 1024 then 12 else 4)\<rparr>" (is "?g = _")
    and "0 < G" "G \<le> 2 ^ 17" "nin < 2 ^ 32"
proof -
  have bs: "bs = 1024 \<and> isz = 128 \<or> bs = 4096 \<and> isz = 256" and nbf: "nbf < 2 ^ 32" and N: "N < 2 ^ 32"
    using assms(1,3) by (auto simp: usual_def)
  have r: "nbf * bs div bpi \<le> nbf" using assms(1) by (auto simp: usual_def)
  then show nin: "nin < 2 ^ 32" using nbf by (simp add: nin_def)
  have "\<not> ceil_div N (8 * bs) \<le> 0" using ceil_div_le [of "8 * bs" N 0] bs assms(2) by auto
  then show G: "0 < G" by (simp add: G_def)
  show G17: "G \<le> 2 ^ 17"
    using assms(1,3,4) ceil_div_le [of "8 * bs" N "2 ^ 17"] by (auto simp: usual_def G_def)
  have s: "sub32 (N + first) first = N" using assms(3) nbf by (simp add: sub32_small)
  have g: "div_roundup N (blocks_per_group bs) = G"
    using bs N div_roundup_ceil [of N "blocks_per_group bs"] by (auto simp: bpg_values G_def)
  have gd: "div_roundup G (bs div 32) = ceil_div G (bs div 32)"
    using bs G17 by (intro div_roundup_ceil) auto
  have ipg: "group_inodes bs isz nin G = bs div isz * table_blocks bs isz nin G"
    using bs nin G by (intro group_inodes_eq) auto
  have n: "(if w32 (nbf * bs div bpi) < EXT2_GOOD_OLD_FIRST_INO + 1 then EXT2_GOOD_OLD_FIRST_INO + 1 else w32 (nbf * bs div bpi)) = nin"
    using r nbf by (simp add: w32_small EXT2_GOOD_OLD_FIRST_INO_def nin_def max_def)
  have f: "(if bs = EXT2_MIN_BLOCK_SIZE then 1 else 0) = first" using assms(4) by (simp add: EXT2_MIN_BLOCK_SIZE_def)
  have t: "table_blocks bs isz nin G \<le> 8 * bs"
    using ceil_div_le [of "bs div isz" "min (8 * bs) (max 16 (ceil_div nin G))" "8 * bs"] bs by (auto simp: table_blocks_def)
  have "div_roundup (w32 (bs div isz * table_blocks bs isz nin G * isz)) bs = table_blocks bs isz nin G"
    using bs t by (auto simp: w32_small div_roundup_ceil ceil_div_def)
  moreover have "min (12 :: nat) (16 div 2 ^ (int_log2 bs - 10)) = (if bs = 1024 then 12 else 4)"
    using bs by (auto simp: log_values)
  ultimately show "?g = \<lparr>blocksize = bs, inodesize = isz, first_block = first, nblocks = N + first, ngroups = G,
     group_desc_blocks = ceil_div G (bs div 32), inodes_per_group = bs div isz * table_blocks bs isz nin G,
     inode_table_blocks = table_blocks bs isz nin G, lost_and_found_blocks = (if bs = 1024 then 12 else 4)\<rparr>"
    unfolding ext2_geometry_def Let_def f s g gd n ipg by simp
qed

text \<open>What the parameters promise: group \<open>i\<close> has \<open>group_size\<close> blocks, and its own data fit there.\<close>

definition data_blocks :: "ext2_geo \<Rightarrow> nat" where
  "data_blocks g = nblocks g - first_block g"

definition group_size :: "ext2_geo \<Rightarrow> nat \<Rightarrow> nat" where
  "group_size g i = min (8 * blocksize g) (data_blocks g - i * (8 * blocksize g))"

definition lead :: "ext2_geo \<Rightarrow> nat \<Rightarrow> nat" where
  "lead g i = (if has_super i then 1 + group_desc_blocks g else 0)"

definition group_used :: "ext2_geo \<Rightarrow> nat \<Rightarrow> nat" where
  "group_used g i = lead g i + 2 + inode_table_blocks g + (if i = 0 then 1 + lost_and_found_blocks g else 0)"

definition geo_ok :: "ext2_geo \<Rightarrow> bool" where
  "geo_ok g \<longleftrightarrow>
     (blocksize g = 1024 \<and> inodesize g = 128 \<and> first_block g = 1 \<and> lost_and_found_blocks g = 12
      \<or> blocksize g = 4096 \<and> inodesize g = 256 \<and> first_block g = 0 \<and> lost_and_found_blocks g = 4)
     \<and> first_block g < nblocks g \<and> nblocks g < 2 ^ 32
     \<and> ngroups g = ceil_div (data_blocks g) (8 * blocksize g) \<and> ngroups g \<le> 2 ^ 17
     \<and> 32 * ngroups g \<le> group_desc_blocks g * blocksize g \<and> group_desc_blocks g \<le> 1024
     \<and> inodes_per_group g mod 8 = 0 \<and> 16 \<le> inodes_per_group g \<and> inodes_per_group g \<le> 8 * blocksize g
     \<and> inode_table_blocks g * blocksize g = inodes_per_group g * inodesize g \<and> inodes_per_group g * ngroups g < 2 ^ 32
     \<and> (\<forall>i < ngroups g. group_used g i \<le> group_size g i)"

lemma table_blocks_bound:
  assumes "usual bs isz bpi nbf" "0 < G" "nbf \<le> 16 * bs * G + 1"
  shows "table_blocks bs isz (max 12 (nbf * bs div bpi)) G \<le> (if bs = 1024 then 513 else 1025)"
proof -
  let ?nin = "max 12 (nbf * bs div bpi)"
  have "nbf * bs div bpi \<le> nbf div 4" using assms(1) by (auto simp: usual_def)
  also have "\<dots> \<le> 4 * bs * G" using assms(1-3) by (auto simp: usual_def)
  finally have "?nin \<le> (4 * bs + 1) * G" using assms(1,2) by (auto simp: usual_def)
  then have c: "ceil_div ?nin G \<le> 4 * bs + 1" using assms(2) by (simp only: ceil_div_le)
  show ?thesis
    using assms(1) c unfolding table_blocks_def by (auto simp: usual_def ceil_div_le)
qed

text \<open>A round of the computation: \<open>chop\<close> in natural numbers.\<close>

lemma chop_eq:
  assumes "blocksize g = 1024 \<or> blocksize g = 4096" "first_block g \<le> nblocks g" "nblocks g < 2 ^ 32"
    and "0 < ngroups g" "ngroups g \<le> 2 ^ 17" "group_desc_blocks g \<le> 1024" "inode_table_blocks g \<le> 1025"
  shows "chop g = (let r = data_blocks g mod (8 * blocksize g) in
    if r \<noteq> 0 \<and> r < lead g (ngroups g - 1) + 2 + inode_table_blocks g + 50 then r else 0)"
proof -
  have "sub32 (nblocks g) (first_block g) = data_blocks g" using assms(2,3) by (simp add: sub32_small data_blocks_def)
  moreover have "sub32 (ngroups g) 1 = ngroups g - 1" using assms(4,5) by (simp add: sub32_small)
  moreover have "blocks_per_group (blocksize g) = 8 * blocksize g" using assms(1) by (auto simp: bpg_values)
  moreover have "lead g (ngroups g - 1) \<le> 1025" using assms(6) by (simp add: lead_def)
  moreover have "w32 (lead g (ngroups g - 1) + 1 + 1 + inode_table_blocks g) = lead g (ngroups g - 1) + 2 + inode_table_blocks g"
    "w32 (lead g (ngroups g - 1) + 2 + inode_table_blocks g + 50) = lead g (ngroups g - 1) + 2 + inode_table_blocks g + 50"
    using \<open>lead g (ngroups g - 1) \<le> 1025\<close> assms(7) by (simp_all add: w32_small)
  ultimately show ?thesis by (simp only: chop_def Let_def lead_def [symmetric])
qed

text \<open>The last of \<open>G\<close> groups has the remainder, or is full.\<close>

lemma last_group:
  assumes "0 < N" "0 < (b :: nat)" "G = ceil_div N b"
  shows "(G - 1) * b < N" "N \<le> G * b" "N - (G - 1) * b = (if N mod b = 0 then b else N mod b)" "0 < G"
proof -
  show l: "(G - 1) * b < N" "N \<le> G * b" using ceil_div_bounds [OF assms(2), of N] assms(1,3) by simp_all
  then show G: "0 < G" using assms(1) by (cases G) simp_all
  define L where "L = N - (G - 1) * b"
  have N: "N = (G - 1) * b + L" using l(1) by (simp add: L_def)
  have "(G - 1) * b + b = G * b" using G by (cases G) simp_all
  then have "L \<le> b" "0 < L" using l N by linarith+
  then show "N - (G - 1) * b = (if N mod b = 0 then b else N mod b)"
    unfolding L_def [symmetric] N by (cases "L = b") simp_all
qed

lemma geometry_bounds:
  assumes "usual bs isz bpi nbf" "0 < N" "N + first \<le> nbf" "nbf \<le> N + first + 8 * bs" "first = (if bs = 1024 then 1 else 0)"
  defines "g \<equiv> ext2_geometry bs isz bpi nbf (N + first)"
  shows "blocksize g = bs" "inodesize g = isz" "first_block g = first" "nblocks g = N + first" "data_blocks g = N"
    and "ngroups g = ceil_div N (8 * bs)" "0 < ngroups g" "ngroups g \<le> 2 ^ 17"
    and "group_desc_blocks g \<le> (if bs = 1024 then 2 else 1024)" "32 * ngroups g \<le> group_desc_blocks g * bs"
    and "inode_table_blocks g \<le> (if bs = 1024 then 513 else 1025)" "inodes_per_group g = bs div isz * inode_table_blocks g"
    and "16 \<le> inodes_per_group g" "lost_and_found_blocks g = (if bs = 1024 then 12 else 4)"
proof -
  note eq = ext2_geometry_eq [OF assms(1-3,5), folded g_def]
  let ?G = "ceil_div N (8 * bs)" and ?nin = "max 12 (nbf * bs div bpi)"
  have bs: "bs = 1024 \<and> isz = 128 \<or> bs = 4096 \<and> isz = 256" using assms(1) by (auto simp: usual_def)
  then have lg: "N \<le> ?G * (8 * bs)" using last_group(2) [OF assms(2) _ refl] by auto
  show "blocksize g = bs" "inodesize g = isz" "first_block g = first" "nblocks g = N + first" "data_blocks g = N"
    "ngroups g = ?G" "lost_and_found_blocks g = (if bs = 1024 then 12 else 4)" "inodes_per_group g = bs div isz * inode_table_blocks g"
    by (simp_all add: eq(1) data_blocks_def)
  show G: "0 < ngroups g" "ngroups g \<le> 2 ^ 17" using eq by simp_all
  have t: "inode_table_blocks g = table_blocks bs isz ?nin ?G" by (simp add: eq(1))
  show "inode_table_blocks g \<le> (if bs = 1024 then 513 else 1025)"
    unfolding t using assms(1,4,5) eq(2) bs lg by (intro table_blocks_bound) auto
  have "?G \<le> 64" if "bs = 1024" using assms(1,3) that by (auto simp: usual_def ceil_div_le)
  then show "group_desc_blocks g \<le> (if bs = 1024 then 2 else 1024)"
    using bs eq(3) by (auto simp: eq(1) ceil_div_le)
  show "32 * ngroups g \<le> group_desc_blocks g * bs"
    using ceil_div_bounds(1) [of "bs div 32" ?G] bs by (auto simp: eq(1))
  have "16 \<le> min (8 * bs) (max 16 (ceil_div ?nin ?G))" using bs by auto
  also have "\<dots> \<le> table_blocks bs isz ?nin ?G * (bs div isz)"
    unfolding table_blocks_def by (rule ceil_div_bounds) (use bs in auto)
  finally show "16 \<le> inodes_per_group g" by (simp add: eq(1) mult.commute)
qed

lemma geometry_ok:
  assumes "usual bs isz bpi nbf" "0 < N" "N + first \<le> nbf" "nbf \<le> N + first + 8 * bs" "first = (if bs = 1024 then 1 else 0)"
    and "g = ext2_geometry bs isz bpi nbf (N + first)" "chop g = 0"
  shows "geo_ok g"
proof -
  note b = geometry_bounds [OF assms(1-5), folded assms(6)]
  have bs: "bs = 1024 \<and> isz = 128 \<or> bs = 4096 \<and> isz = 256" and nbf: "nbf < 2 ^ 32" using assms(1) by (auto simp: usual_def)
  note lg = last_group [OF assms(2) _ b(6)]
  have "group_used g i \<le> group_size g i" if "i < ngroups g" for i
  proof (cases "i = ngroups g - 1")
    case True
    have size: "group_size g i = N - (ngroups g - 1) * (8 * bs)"
      using lg(3) bs True by (auto simp: group_size_def b(1,5))
    have "lead g i + 2 + inode_table_blocks g + 50 \<le> group_size g i \<or> group_size g i = 8 * bs"
      using assms(7) chop_eq [of g] b bs nbf assms(3) lg(3) True unfolding size by (auto simp: Let_def split: if_splits)
    then show ?thesis using b(9,11,14) bs by (auto simp: group_used_def lead_def split: if_splits)
  next
    case False
    then have "Suc i * (8 * bs) \<le> (ngroups g - 1) * (8 * bs)" using that by (intro mult_right_mono) simp_all
    then have "group_size g i = 8 * bs" using lg(1) bs by (auto simp: group_size_def b(1,5))
    then show ?thesis using b(9,11,14) bs by (auto simp: group_used_def lead_def split: if_splits)
  qed
  moreover have "inodes_per_group g * ngroups g < 2 ^ 32"
  proof -
    have "inodes_per_group g \<le> 16400" using b(11,12) bs by auto
    then have "inodes_per_group g * ngroups g \<le> 16400 * 2 ^ 17" using b(8) by (rule mult_le_mono)
    then show ?thesis by simp
  qed
  ultimately show ?thesis using b bs nbf assms(2,3,5) by (auto simp: geo_ok_def)
qed

text \<open>A volume of one group is never given up, as the comment in the source claims for the usual sizes.\<close>

lemma single_group_kept:
  fixes first :: nat
  assumes "usual bs isz bpi nb" "first = (if bs = 1024 then 1 else 0)" "g = ext2_geometry bs isz bpi nb nb" "ngroups g = 1"
  shows "chop g = 0"
proof -
  define N where "N = nb - first"
  have nb: "nb = N + first" "0 < N" using assms(1,2) by (auto simp: usual_def N_def)
  note b = geometry_bounds [OF assms(1) nb(2) _ _ assms(2), folded nb(1), folded assms(3), simplified]
  note eq = ext2_geometry_eq [OF assms(1) nb(2) _ assms(2), folded nb(1), folded assms(3), simplified]
  have bs: "bs = 1024 \<and> isz = 128" and N: "N \<le> 8192"
    using assms(1,2,4) b(6) last_group(2) [OF nb(2) _ b(6)] nb(1) by (auto simp: usual_def split: if_splits)
  have G: "ceil_div N 8192 = 1" using b(6) assms(4) bs by simp
  have "ceil_div (min 8192 (max 16 (ceil_div (max 12 (nb * 1024 div bpi)) 1))) 8 \<le> nb - 55"
    using assms(1) bs by (auto simp: usual_def ceil_div_le ceil_div_def [of _ 1])
  then have t: "inode_table_blocks g \<le> nb - 55" using bs G by (simp add: eq(1) table_blocks_def)
  have d: "group_desc_blocks g = 1" using bs G by (simp add: eq(1) ceil_div_def)
  have "chop g = (let r = N mod 8192 in if r \<noteq> 0 \<and> r < lead g 0 + 2 + inode_table_blocks g + 50 then r else 0)"
    using chop_eq [of g] b(1,3-5,9,11) bs assms(1,4) nb(1) by (auto simp: usual_def)
  moreover have "lead g 0 + 2 + inode_table_blocks g + 50 \<le> N"
    using t d assms(1,2) bs nb(1) by (auto simp: lead_def usual_def)
  ultimately show ?thesis using N by (cases "N = 8192") (simp_all add: Let_def)
qed

lemma ext2_plan_ok:
  assumes "usual bs isz bpi nb"
  shows "\<exists>g. ext2_plan bs isz bpi nb nb = Some (Inr g) \<and> geo_ok g \<and> blocksize g = bs \<and> nblocks g \<le> nb \<and> nb < nblocks g + 8 * bs"
proof -
  define first :: nat where "first = (if bs = 1024 then 1 else 0)"
  define N where "N = nb - first"
  have nb: "nb = N + first" "0 < N" using assms by (auto simp: usual_def N_def first_def)
  have bs: "bs = 1024 \<or> bs = 4096" and nb32: "nb < 2 ^ 32" using assms by (auto simp: usual_def)
  define g where "g = ext2_geometry bs isz bpi nb nb"
  note b = geometry_bounds [OF assms nb(2) _ _ first_def, folded nb(1), folded g_def, simplified]
  show ?thesis
  proof (cases "chop g = 0")
    case True
    have "geo_ok g" by (rule geometry_ok [OF assms nb(2) _ _ first_def _ True]) (simp_all add: g_def nb(1) [symmetric])
    moreover have "ext2_plan bs isz bpi nb nb = Some (Inr g)"
      using True b(7) by (subst ext2_plan.simps) (simp add: Let_def flip: g_def)
    ultimately show ?thesis using b(1,4) bs by auto
  next
    case False
    let ?r = "N mod (8 * bs)" and ?G = "ngroups g"
    have r: "chop g = ?r" "?r \<noteq> 0" using False chop_eq [of g] b bs nb32 nb(1) by (auto simp: Let_def split: if_splits)
    have G: "?G \<noteq> 1" using single_group_kept [OF assms first_def g_def] False by blast
    note lg = last_group [OF nb(2) _ b(6)]
    define N2 where "N2 = N - ?r"
    have N2: "N2 = (?G - 1) * (8 * bs)" using lg(1,3) r(2) bs unfolding N2_def by auto
    have pos: "0 < N2" using N2 G b(7) bs by auto
    have rb: "?r < 8 * bs" using bs by auto
    have nb2: "nb - chop g = N2 + first" "N2 + first \<le> nb" "nb \<le> N2 + first + 8 * bs" "nb < N2 + first + 8 * bs"
      using r(1) rb nb(1) mod_less_eq_dividend [of N "8 * bs"] unfolding N2_def by linarith+
    define h where "h = ext2_geometry bs isz bpi nb (N2 + first)"
    note c = geometry_bounds [OF assms pos nb2(2,3) first_def, folded h_def]
    have "N2 mod (8 * bs) = 0" by (simp add: N2)
    then have ch: "chop h = 0" using chop_eq [of h] c bs nb32 nb2(2) by (auto simp: Let_def split: if_splits)
    have "geo_ok h" by (rule geometry_ok [OF assms pos nb2(2,3) first_def h_def ch])
    moreover have "ext2_plan bs isz bpi nb nb = Some (Inr h)"
    proof -
      have "ext2_plan bs isz bpi nb nb = ext2_plan bs isz bpi nb (N2 + first)"
        using False b(7) by (subst ext2_plan.simps) (simp add: Let_def nb2(1) flip: g_def)
      also have "\<dots> = Some (Inr h)" using ch c(7) by (subst ext2_plan.simps) (simp add: Let_def flip: h_def)
      finally show ?thesis .
    qed
    ultimately show ?thesis using c(1,4) nb2(2,4) by auto
  qed
qed

end
