(* ===== verification/Ext2Image.thy ===== *)
theory Ext2Image
  imports Ext2Layout
begin

text \<open>
  The volume that \<open>mke2fs\<close> leaves. The writes of the program are tagged with the region of the volume
  they fill; regions do not overlap, so what was written last to a region is found there.
\<close>

section \<open>Writes and what they leave\<close>

text \<open>The writes with their offsets: a plain write goes behind the last one.\<close>

fun placed :: "nat \<Rightarrow> disk_io list \<Rightarrow> (nat \<times> bytes) list" where
  "placed pos [] = []"
| "placed pos (PUT off b # ios) = (off, b) # placed (off + length b) ios"
| "placed pos (XWRITE b # ios) = (pos, b) # placed (pos + length b) ios"

definition dev_ready :: "vdev \<Rightarrow> bool" where
  "dev_ready d \<longleftrightarrow> dv_seekable d \<and> dv_limit d = length (dv_data d) \<and> Eio \<notin> set (dv_events d)"

lemma overlay_blit: "off + length b \<le> length d \<Longrightarrow> overlay off b d = blit off b d"
  by (auto simp: overlay_def resize_def blit_def)

lemma dev_write_ready:
  assumes "dev_ready d" "dv_pos d + length b \<le> length (dv_data d)"
  shows "\<exists>d'. dev_write b d = Inr d' \<and> dev_ready d' \<and> dv_data d' = blit (dv_pos d) b (dv_data d) \<and> dv_pos d' = dv_pos d + length b"
proof -
  obtain s where s: "xwrite b \<lparr>sk_data = [], sk_events = dv_events d\<rparr> = Inr s" "sk_data s = b" "Eio \<notin> set (sk_events s)"
    using xwrite_ok [of "\<lparr>sk_data = [], sk_events = dv_events d\<rparr>" b] assms(1) by (auto simp: dev_ready_def)
  then show ?thesis using assms by (auto simp: dev_write_def dev_ready_def overlay_blit)
qed

lemma run_io_placed:
  "dev_ready d \<Longrightarrow> list_all (\<lambda>(o', x). o' + length x \<le> length (dv_data d)) (placed (dv_pos d) ios) \<Longrightarrow>
   \<exists>d'. run_io ios d = Inr d' \<and> dv_data d' = stores (placed (dv_pos d) ios) (dv_data d)"
proof (induction ios arbitrary: d)
  case Nil
  then show ?case by (simp add: stores_def)
next
  case (Cons a ios)
  show ?case
  proof (cases a)
    case (PUT off b)
    let ?d = "d\<lparr>dv_pos := off\<rparr>"
    have f: "off + length b \<le> length (dv_data d)" using Cons.prems(2) PUT by simp
    have sk: "dev_seek (int off) d = Some ?d" using Cons.prems(1) f by (simp add: dev_seek_def dev_ready_def)
    obtain d1 where d1: "dev_write b ?d = Inr d1" "dev_ready d1" "dv_data d1 = blit off b (dv_data d)" "dv_pos d1 = off + length b"
      using dev_write_ready [of ?d b] Cons.prems(1) f by (auto simp: dev_ready_def)
    have "\<exists>d'. run_io ios d1 = Inr d' \<and> dv_data d' = stores (placed (dv_pos d1) ios) (dv_data d1)"
      by (rule Cons.IH [OF d1(2)]) (use Cons.prems(2) PUT d1(3,4) f in simp)
    then show ?thesis by (auto simp: PUT sk d1(1,3,4) stores_Cons)
  next
    case (XWRITE b)
    have f: "dv_pos d + length b \<le> length (dv_data d)" using Cons.prems(2) XWRITE by simp
    obtain d1 where d1: "dev_write b d = Inr d1" "dev_ready d1" "dv_data d1 = blit (dv_pos d) b (dv_data d)" "dv_pos d1 = dv_pos d + length b"
      using dev_write_ready [OF Cons.prems(1) f] by blast
    have "\<exists>d'. run_io ios d1 = Inr d' \<and> dv_data d' = stores (placed (dv_pos d1) ios) (dv_data d1)"
      by (rule Cons.IH [OF d1(2)]) (use Cons.prems(2) XWRITE d1(3,4) f in simp)
    then show ?thesis by (auto simp: XWRITE d1(1,3,4) stores_Cons)
  qed
qed

text \<open>A part of the volume is what was written there when every later write is elsewhere.\<close>

definition part :: "nat \<Rightarrow> nat \<Rightarrow> bytes \<Rightarrow> bytes" where
  "part off n b = take n (drop off b)"

definition apart :: "nat \<Rightarrow> nat \<Rightarrow> nat \<times> bytes \<Rightarrow> bool" where
  "apart off n = (\<lambda>(o', x). o' + length x \<le> off \<or> off + n \<le> o')"

lemma part_blit: "o' + length x \<le> length b \<Longrightarrow> apart off n (o', x) \<Longrightarrow> part off n (blit o' x b) = part off n b"
  by (auto simp: part_def apart_def blit_def drop_take)

lemma part_blit_same: "off + length x \<le> length b \<Longrightarrow> part off (length x) (blit off x b) = x"
  by (simp add: part_def blit_def)

lemma part_stores_apart:
  "list_all (\<lambda>(o', x). o' + length x \<le> length b) ws \<Longrightarrow> list_all (apart off n) ws \<Longrightarrow> part off n (stores ws b) = part off n b"
proof (induction ws arbitrary: b)
  case Nil
  then show ?case by (simp add: stores_def)
next
  case (Cons w ws)
  obtain o' x where w: "w = (o', x)" by (cases w)
  have "part off n (stores ws (blit o' x b)) = part off n (blit o' x b)"
    by (rule Cons.IH) (use Cons.prems w in simp_all)
  then show ?case using Cons.prems w by (simp add: stores_Cons part_blit)
qed

lemma part_stores:
  assumes "list_all (\<lambda>(o', x). o' + length x \<le> length b) ws" "(off, y) \<in> set ws"
    and "\<And>w. w \<in> set ws \<Longrightarrow> w = (off, y) \<or> apart off (length y) w"
  shows "part off (length y) (stores ws b) = y"
  using assms
proof (induction ws arbitrary: b)
  case Nil
  then show ?case by simp
next
  case (Cons w ws)
  obtain o' x where w: "w = (o', x)" by (cases w)
  have len: "length (blit o' x b) = length b" using Cons.prems(1) w by simp
  show ?case
  proof (cases "(off, y) \<in> set ws")
    case True
    have "part off (length y) (stores ws (blit o' x b)) = y"
      by (rule Cons.IH) (use Cons.prems True w len in auto)
    then show ?thesis by (simp add: w stores_Cons)
  next
    case False
    then have y: "o' = off" "x = y" using Cons.prems(2) w by auto
    have "list_all (apart off (length y)) ws" unfolding list_all_iff using Cons.prems(3) False by auto
    then have "part off (length y) (stores ws (blit o' x b)) = part off (length y) (blit o' x b)"
      using Cons.prems(1) w len by (intro part_stores_apart) simp_all
    also have "\<dots> = y" using Cons.prems(1) w y part_blit_same [of off y b] by simp
    finally show ?thesis by (simp add: w stores_Cons)
  qed
qed

lemma stores_join: "stores (a @ b) x = stores b (stores a x)"
  by (simp add: stores_def)

section \<open>Regions of the volume\<close>

datatype region = Boot | Super nat | Descs nat | BlockMap nat | InodeMap nat | Table nat | Dir nat

text \<open>The first block of a group, and the blocks of a region within its group.\<close>

definition base :: "ext2_geo \<Rightarrow> nat \<Rightarrow> nat" where
  "base g i = first_block g + i * (8 * blocksize g)"

fun region_group :: "region \<Rightarrow> nat" where
  "region_group (Super i) = i" | "region_group (Descs i) = i" | "region_group (BlockMap i) = i"
| "region_group (InodeMap i) = i" | "region_group (Table i) = i" | "region_group (Dir k) = 0" | "region_group Boot = 0"

fun region_from :: "ext2_geo \<Rightarrow> region \<Rightarrow> nat" where
  "region_from g (Super i) = 0" | "region_from g (Descs i) = 1" | "region_from g (BlockMap i) = lead g i"
| "region_from g (InodeMap i) = lead g i + 1" | "region_from g (Table i) = lead g i + 2"
| "region_from g (Dir k) = lead g 0 + 2 + inode_table_blocks g + k" | "region_from g Boot = 0"

fun region_blocks :: "ext2_geo \<Rightarrow> region \<Rightarrow> nat" where
  "region_blocks g (Descs i) = group_desc_blocks g" | "region_blocks g (Table i) = inode_table_blocks g"
| "region_blocks g r = 1"

fun region_valid :: "ext2_geo \<Rightarrow> region \<Rightarrow> bool" where
  "region_valid g (Super i) = (i < ngroups g \<and> has_super i)" | "region_valid g (Descs i) = (i < ngroups g \<and> has_super i)"
| "region_valid g (BlockMap i) = (i < ngroups g)" | "region_valid g (InodeMap i) = (i < ngroups g)"
| "region_valid g (Table i) = (i < ngroups g)" | "region_valid g (Dir k) = (k \<le> lost_and_found_blocks g)" | "region_valid g Boot = True"

text \<open>Its bytes. The superblock of the first group stands behind the boot record.\<close>

fun region_lo :: "ext2_geo \<Rightarrow> region \<Rightarrow> nat" where
  "region_lo g Boot = 0"
| "region_lo g (Super i) = base g i * blocksize g + (if i = 0 \<and> blocksize g \<noteq> 1024 then 1024 else 0)"
| "region_lo g r = (base g (region_group r) + region_from g r) * blocksize g"

fun region_len :: "ext2_geo \<Rightarrow> region \<Rightarrow> nat" where
  "region_len g Boot = 1024"
| "region_len g (Super i) = 1024"
| "region_len g r = region_blocks g r * blocksize g"

lemma geo_facts:
  assumes "geo_ok g"
  shows "blocksize g = 1024 \<or> blocksize g = 4096" "blocksize g = 1024 \<Longrightarrow> first_block g = 1" "0 < ngroups g"
    and "i < ngroups g \<Longrightarrow> group_used g i \<le> group_size g i" "i < ngroups g \<Longrightarrow> base g i + group_size g i \<le> nblocks g"
    and "i < ngroups g \<Longrightarrow> group_size g i \<le> 8 * blocksize g"
proof -
  show bs: "blocksize g = 1024 \<or> blocksize g = 4096" using assms by (auto simp: geo_ok_def)
  show "blocksize g = 1024 \<Longrightarrow> first_block g = 1" using assms by (auto simp: geo_ok_def)
  have d: "0 < data_blocks g" "ngroups g = ceil_div (data_blocks g) (8 * blocksize g)" "first_block g \<le> nblocks g"
    using assms by (auto simp: geo_ok_def data_blocks_def)
  note lg = last_group [OF d(1) _ d(2)]
  show "0 < ngroups g" using lg(4) bs by auto
  show "i < ngroups g \<Longrightarrow> group_used g i \<le> group_size g i" using assms by (simp add: geo_ok_def)
  assume i: "i < ngroups g"
  then have "i * (8 * blocksize g) \<le> (ngroups g - 1) * (8 * blocksize g)" by (intro mult_right_mono) simp_all
  also have "\<dots> < data_blocks g" using lg(1) bs by auto
  finally show "base g i + group_size g i \<le> nblocks g" using d(3) by (simp add: base_def group_size_def data_blocks_def)
  show "group_size g i \<le> 8 * blocksize g" by (simp add: group_size_def)
qed

text \<open>A region lies in its group.\<close>

lemma region_in_group:
  assumes "geo_ok g" "region_valid g r" "r \<noteq> Boot"
  shows "region_group r < ngroups g" "region_from g r + region_blocks g r \<le> group_used g (region_group r)"
  using assms geo_facts(3) [OF assms(1)] by (cases r; auto simp: group_used_def lead_def)+

lemma region_bytes:
  assumes "geo_ok g" "region_valid g r" "r \<noteq> Boot"
  shows "(base g (region_group r) + region_from g r) * blocksize g \<le> region_lo g r"
    and "region_lo g r + region_len g r \<le> (base g (region_group r) + region_from g r + region_blocks g r) * blocksize g"
  using assms(3) geo_facts(1) [OF assms(1)] by (cases r; auto simp: algebra_simps)+

lemma region_inside:
  assumes "geo_ok g" "region_valid g r"
  shows "region_lo g r + region_len g r \<le> nblocks g * blocksize g"
proof (cases "r = Boot")
  case True
  have "1 \<le> nblocks g" "1024 \<le> blocksize g" using assms(1) by (auto simp: geo_ok_def)
  then have "1 * 1024 \<le> nblocks g * blocksize g" by (rule mult_le_mono)
  then show ?thesis using True by simp
next
  case False
  note r = region_in_group [OF assms False]
  have "base g (region_group r) + (region_from g r + region_blocks g r) \<le> nblocks g"
    using r(2) geo_facts(4,5) [OF assms(1) r(1)] by linarith
  then have "(base g (region_group r) + region_from g r + region_blocks g r) * blocksize g \<le> nblocks g * blocksize g"
    by (intro mult_right_mono) simp_all
  then show ?thesis using region_bytes(2) [OF assms False] by linarith
qed

lemma no_super_pos: "\<not> has_super i \<Longrightarrow> 0 < i"
  by (cases "i = 0") auto

lemma region_apart:
  assumes "geo_ok g" "region_valid g r" "region_valid g r'" "r \<noteq> r'"
  shows "region_lo g r + region_len g r \<le> region_lo g r' \<or> region_lo g r' + region_len g r' \<le> region_lo g r"
proof -
  have boot: "1024 \<le> region_lo g q" if "region_valid g q" "q \<noteq> Boot" for q
    using geo_facts(1,2) [OF assms(1)] that by (cases q) (auto simp: base_def lead_def split: if_splits dest: no_super_pos)
  have blocks: ?thesis if "base g (region_group q) + region_from g q + region_blocks g q \<le> base g (region_group q') + region_from g q'"
      "{q, q'} = {r, r'}" "q \<noteq> Boot" "q' \<noteq> Boot" for q q'
  proof -
    have v: "region_valid g q" "region_valid g q'" using that(2) assms(2,3) by (auto simp: doubleton_eq_iff)
    have "(base g (region_group q) + region_from g q + region_blocks g q) * blocksize g
        \<le> (base g (region_group q') + region_from g q') * blocksize g" using that(1) by (rule mult_right_mono) simp
    then have "region_lo g q + region_len g q \<le> region_lo g q'"
      using region_bytes(2) [OF assms(1) v(1) that(3)] region_bytes(1) [OF assms(1) v(2) that(4)] by linarith
    then show ?thesis using that(2) by (auto simp: doubleton_eq_iff)
  qed
  have order: "base g (region_group q) + region_from g q + region_blocks g q \<le> base g (region_group q') + region_from g q'"
    if "region_valid g q" "q \<noteq> Boot" "region_group q < region_group q'" for q q'
  proof -
    note i = region_in_group [OF assms(1) that(1,2)]
    have "Suc (region_group q) * (8 * blocksize g) \<le> region_group q' * (8 * blocksize g)" using that(3) by (intro mult_right_mono) simp_all
    then show ?thesis using i(2) geo_facts(4,6) [OF assms(1) i(1)] by (simp add: base_def)
  qed
  consider "r = Boot" | "r' = Boot" | "r \<noteq> Boot" "r' \<noteq> Boot" "region_group r < region_group r'"
    | "r \<noteq> Boot" "r' \<noteq> Boot" "region_group r' < region_group r" | "r \<noteq> Boot" "r' \<noteq> Boot" "region_group r = region_group r'"
    by fastforce
  then show ?thesis
  proof cases
    case 5
    have "region_from g r + region_blocks g r \<le> region_from g r' \<or> region_from g r' + region_blocks g r' \<le> region_from g r"
      using 5 assms(2-4) by (cases r; cases r') (auto simp: lead_def)
    then show ?thesis using blocks [of r r'] blocks [of r' r] 5 by auto
  qed (use boot [OF assms(2)] boot [OF assms(3)] assms(4) blocks [of r r'] blocks [of r' r] order assms(2,3) in auto)
qed

section \<open>The groups as the program makes them\<close>

definition first_inodes :: "nat \<Rightarrow> nat" where
  "first_inodes i = (if i = 0 then 11 else 0)"

definition free_count :: "ext2_geo \<Rightarrow> nat \<Rightarrow> nat" where
  "free_count g i = group_size g i - group_used g i"

definition desc :: "ext2_geo \<Rightarrow> nat \<Rightarrow> group" where
  "desc g i = \<lparr>bg_block_bitmap = base g i + lead g i, bg_inode_bitmap = base g i + lead g i + 1, bg_inode_table = base g i + lead g i + 2,
     bg_free_blocks_count = free_count g i, bg_free_inodes_count = inodes_per_group g - first_inodes i,
     bg_used_dirs_count = (if i = 0 then 2 else 0)\<rparr>"

definition block_map :: "ext2_geo \<Rightarrow> nat \<Rightarrow> u8 list" where
  "block_map g i = projr (allocate (blocksize g) (group_used g i) (8 * blocksize g - group_size g i))"

definition inode_map :: "ext2_geo \<Rightarrow> nat \<Rightarrow> u8 list" where
  "inode_map g i = projr (allocate (blocksize g) (first_inodes i) (8 * blocksize g - inodes_per_group g))"

lemma group_used_small:
  assumes "geo_ok g"
  shows "0 < group_used g i" "group_used g i < 8 * blocksize g" "inode_table_blocks g \<le> 2048"
proof -
  have "inode_table_blocks g * blocksize g \<le> 8 * blocksize g * inodesize g" "blocksize g \<noteq> 0"
    using assms by (auto simp: geo_ok_def)
  then have t: "inode_table_blocks g \<le> 8 * inodesize g" by (auto simp: algebra_simps)
  show "0 < group_used g i" by (simp add: group_used_def)
  show "group_used g i < 8 * blocksize g" "inode_table_blocks g \<le> 2048"
    using assms t by (auto simp: geo_ok_def group_used_def lead_def)
qed

lemma block_map_bits:
  assumes "geo_ok g" "i < ngroups g"
  shows "allocate (blocksize g) (group_used g i) (8 * blocksize g - group_size g i) = Inr (block_map g i)"
    and "length (block_map g i) = blocksize g"
    and "k < 8 * blocksize g \<Longrightarrow> bit_at (block_map g i) k \<longleftrightarrow> k < group_used g i \<or> group_size g i \<le> k"
proof -
  note f = geo_facts(4,6) [OF assms(1) assms(2)] and u = group_used_small(1,2) [OF assms(1), of i]
  have t: "8 * blocksize g - group_size g i < 8 * blocksize g" using f u by linarith
  obtain bm where b: "allocate (blocksize g) (group_used g i) (8 * blocksize g - group_size g i) = Inr bm" "length bm = blocksize g"
      "\<forall>k < 8 * blocksize g. bit_at bm k \<longleftrightarrow> k < group_used g i \<or> 8 * blocksize g - (8 * blocksize g - group_size g i) \<le> k"
    using allocate_bits [OF u(2) t] by blast
  then show "allocate (blocksize g) (group_used g i) (8 * blocksize g - group_size g i) = Inr (block_map g i)"
    "length (block_map g i) = blocksize g" by (simp_all add: block_map_def)
  show "k < 8 * blocksize g \<Longrightarrow> bit_at (block_map g i) k \<longleftrightarrow> k < group_used g i \<or> group_size g i \<le> k"
    using b f(2) by (simp add: block_map_def)
qed

lemma inode_map_bits:
  assumes "geo_ok g"
  shows "allocate (blocksize g) (first_inodes i) (8 * blocksize g - inodes_per_group g) = Inr (inode_map g i)"
    and "length (inode_map g i) = blocksize g"
    and "k < 8 * blocksize g \<Longrightarrow> bit_at (inode_map g i) k \<longleftrightarrow> k < first_inodes i \<or> inodes_per_group g \<le> k"
proof -
  have f: "first_inodes i < 8 * blocksize g" "8 * blocksize g - inodes_per_group g < 8 * blocksize g" "inodes_per_group g \<le> 8 * blocksize g"
    using assms by (auto simp: geo_ok_def first_inodes_def)
  obtain bm where b: "allocate (blocksize g) (first_inodes i) (8 * blocksize g - inodes_per_group g) = Inr bm" "length bm = blocksize g"
      "\<forall>k < 8 * blocksize g. bit_at bm k \<longleftrightarrow> k < first_inodes i \<or> 8 * blocksize g - (8 * blocksize g - inodes_per_group g) \<le> k"
    using allocate_bits [OF f(1,2)] by blast
  then show "allocate (blocksize g) (first_inodes i) (8 * blocksize g - inodes_per_group g) = Inr (inode_map g i)"
    "length (inode_map g i) = blocksize g" by (simp_all add: inode_map_def)
  show "k < 8 * blocksize g \<Longrightarrow> bit_at (inode_map g i) k \<longleftrightarrow> k < first_inodes i \<or> inodes_per_group g \<le> k"
    using b f(3) by (simp add: inode_map_def)
qed

lemma make_group_eq:
  assumes "geo_ok g" "i < ngroups g"
  shows "make_group g i = Inr (desc g i, free_count g i,
    [PUT (region_lo g (BlockMap i)) (map byte_of (block_map g i)), XWRITE (map byte_of (inode_map g i))])"
proof -
  let ?bs = "blocksize g"
  note f = geo_facts(4-6) [OF assms] and u = group_used_small(1,2) [OF assms(1), of i]
  have bpg: "blocks_per_group ?bs = 8 * ?bs" using geo_facts(1) [OF assms(1)] by (auto simp: bpg_values)
  have n32: "nblocks g < 2 ^ 32" "first_block g \<le> nblocks g" "ngroups g \<le> 2 ^ 17" "16 \<le> inodes_per_group g" "inodes_per_group g \<le> 8 * ?bs" "?bs \<le> 4096"
    using assms(1) by (auto simp: geo_ok_def)
  have l: "lead g i + 2 + inode_table_blocks g \<le> group_used g i" by (simp add: group_used_def)
  have pos: "group_pos g i = base g i" unfolding group_pos_def base_def bpg
    using f(2) n32(1) by (intro w32_small) (simp add: base_def)
  have start: "w32 (base g i + lead g i) = base g i + lead g i" "w32 (base g i + lead g i + 1) = base g i + lead g i + 1"
    "w32 (base g i + lead g i + 2) = base g i + lead g i + 2"
    using f l n32(1) by (simp_all add: w32_small)
  have sub: "sub32 (base g i + lead g i) (base g i) = lead g i" using f l n32(1) by (subst sub32_small) simp_all
  have ov: "w32 (lead g i + 1 + 1 + inode_table_blocks g) = lead g i + 2 + inode_table_blocks g"
    "w32 (lead g i + 2 + inode_table_blocks g + 1 + lost_and_found_blocks g) = lead g i + 2 + inode_table_blocks g + 1 + lost_and_found_blocks g" if "i = 0"
    using u l f n32 that by (simp_all add: w32_small group_used_def)
  have ov': "w32 (lead g i + 1 + 1 + inode_table_blocks g) = lead g i + 2 + inode_table_blocks g"
    using u l f n32 by (simp add: w32_small)
  have used: "(if i = 0 then w32 (lead g i + 2 + inode_table_blocks g + 1 + lost_and_found_blocks g) else lead g i + 2 + inode_table_blocks g) = group_used g i"
    using ov by (simp add: group_used_def)
  have ib: "i * (8 * ?bs) \<le> data_blocks g"
    using f(1) u(1) unfolding group_size_def by linarith
  have n: "sub32 (sub32 (nblocks g) (first_block g)) (w32 (i * (8 * ?bs))) = data_blocks g - i * (8 * ?bs)"
    using n32 ib by (simp add: sub32_small w32_small data_blocks_def)
  have size: "(if data_blocks g - i * (8 * ?bs) < 8 * ?bs then data_blocks g - i * (8 * ?bs) else 8 * ?bs) = group_size g i"
    by (simp add: group_size_def min_def)
  have free: "sub32 (group_size g i) (group_used g i) = free_count g i"
    using f n32 unfolding free_count_def by (intro sub32_small) simp_all
  have tail: "sub32 (8 * ?bs) (w32 (free_count g i + group_used g i)) = 8 * ?bs - group_size g i"
    using f n32 by (simp add: free_count_def w32_small sub32_small)
  have fi: "(if i = 0 then inodes_per_group g - EXT2_GOOD_OLD_FIRST_INO else inodes_per_group g) mod 2 ^ 16 = inodes_per_group g - first_inodes i"
    using n32 by (simp add: first_inodes_def EXT2_GOOD_OLD_FIRST_INO_def)
  have fi2: "sub32 (inodes_per_group g) (inodes_per_group g - first_inodes i) = first_inodes i" "sub32 (8 * ?bs) (inodes_per_group g) = 8 * ?bs - inodes_per_group g"
    using n32 by (simp_all add: sub32_small first_inodes_def)
  show ?thesis
    unfolding make_group_def Let_def bpg pos lead_def [symmetric] start sub ov' used n size free tail fi fi2
      block_map_bits(1) [OF assms] inode_map_bits(1) [OF assms(1)]
    by (simp add: desc_def)
qed

lemma sum_group_sizes:
  "(\<Sum>i<k. group_size g i) = min (k * (8 * blocksize g)) (data_blocks g)"
  by (induction k) (auto simp: group_size_def min_def)

lemma sum_free_small:
  assumes "geo_ok g" "is = [j..<ngroups g]"
  shows "(\<Sum>i\<leftarrow>is. free_count g i) < 2 ^ 32"
proof -
  have "(\<Sum>i\<leftarrow>is. free_count g i) \<le> (\<Sum>i<ngroups g. group_size g i)"
    unfolding assms(2) interv_sum_list_conv_sum_set_nat
    by (rule order_trans [OF sum_mono [of _ "free_count g" "group_size g"] sum_mono2]) (auto simp: free_count_def)
  also have "\<dots> \<le> nblocks g" by (simp add: sum_group_sizes data_blocks_def min.coboundedI2)
  also have "\<dots> < 2 ^ 32" using assms(1) by (simp add: geo_ok_def)
  finally show ?thesis .
qed

lemma make_groups_eq:
  assumes "geo_ok g"
  shows "j \<le> ngroups g \<Longrightarrow> make_groups g [j..<ngroups g] = Inr (map (desc g) [j..<ngroups g], \<Sum>i\<leftarrow>[j..<ngroups g]. free_count g i,
    concat (map (\<lambda>i. [PUT (region_lo g (BlockMap i)) (map byte_of (block_map g i)), XWRITE (map byte_of (inode_map g i))]) [j..<ngroups g]))"
proof (induction j rule: inc_induct)
  case base
  then show ?case by simp
next
  case (step n)
  have "w32 (free_count g n + (\<Sum>i\<leftarrow>[Suc n..<ngroups g]. free_count g i)) = (\<Sum>i\<leftarrow>[n..<ngroups g]. free_count g i)"
    using sum_free_small [OF assms refl, of n] step.hyps by (simp add: w32_small upt_conv_Cons)
  then show ?case
    using step by (simp add: upt_conv_Cons make_group_eq [OF assms])
qed

section \<open>All writes\<close>

text \<open>Every write with the region it goes to.\<close>

definition group_writes :: "ext2_geo \<Rightarrow> (region \<times> nat \<times> bytes) list" where
  "group_writes g = concat (map (\<lambda>i. [(BlockMap i, region_lo g (BlockMap i), map byte_of (block_map g i)),
     (InodeMap i, region_lo g (InodeMap i), map byte_of (inode_map g i))]) [0..<ngroups g])"

definition super_writes :: "ext2_geo \<Rightarrow> bytes \<Rightarrow> bytes \<Rightarrow> (region \<times> nat \<times> bytes) list" where
  "super_writes g sb gd = concat (map (\<lambda>i. if has_super i then [(Super i, region_lo g (Super i), sb), (Descs i, region_lo g (Descs i), gd)] else [])
     [0..<ngroups g])"

definition table_writes :: "ext2_geo \<Rightarrow> (region \<times> nat \<times> bytes) list" where
  "table_writes g = concat (map (\<lambda>i. map (\<lambda>n. (Table i, (base g i + lead g i + 2 + n) * blocksize g, replicate (blocksize g) NUL))
     [0..<inode_table_blocks g]) [0..<ngroups g])"

definition skeleton :: "ext2_geo \<Rightarrow> bytes \<Rightarrow> bytes \<Rightarrow> (region \<times> nat \<times> bytes) list" where
  "skeleton g sb gd = group_writes g @ super_writes g sb gd @ [(Boot, 0, replicate 1024 NUL)] @ table_writes g"

definition inode_writes :: "ext2_geo \<Rightarrow> nat \<Rightarrow> (region \<times> nat \<times> bytes) list" where
  "inode_writes g timestamp =
     (let t = region_lo g (Table 0); isz = inodesize g;
          buf1 = stores (root_stores_inode g (desc g 0) timestamp) (replicate (blocksize g) NUL);
          buf2 = stores (lost_stores_inode g (desc g 0)) buf1
      in [(Table 0, t + isz, take isz buf1), (Table 0, t + 10 * isz, take isz buf2)])"

definition dir_writes :: "ext2_geo \<Rightarrow> (region \<times> nat \<times> bytes) list" where
  "dir_writes g =
     (let bs = blocksize g;
          buf0 = stores [(4, st16 bs)] (replicate bs NUL);
          buf1 = stores (lost_stores_dir bs) buf0;
          buf2 = stores (root_stores_dir bs) buf1
      in map (\<lambda>i. (Dir (1 + i), region_lo g (Dir (1 + i)), buf0)) [1..<lost_and_found_blocks g]
         @ [(Dir 1, region_lo g (Dir 1), buf1), (Dir 0, region_lo g (Dir 0), buf2)])"

fun put_of :: "disk_io \<Rightarrow> nat \<times> bytes" where
  "put_of (PUT off b) = (off, b)"
| "put_of (XWRITE b) = (0, b)"

fun is_put :: "disk_io \<Rightarrow> bool" where
  "is_put (PUT off b) = True"
| "is_put (XWRITE b) = False"

lemma placed_puts: "list_all is_put ios \<Longrightarrow> placed p ios = map put_of ios"
proof (induction ios arbitrary: p)
  case (Cons a ios)
  then show ?case by (cases a) auto
qed simp

lemma placed_append: "list_all is_put b \<Longrightarrow> placed p (a @ b) = placed p a @ map put_of b"
proof (induction a arbitrary: p)
  case (Cons x a)
  then show ?case by (cases x) auto
qed (simp add: placed_puts)

lemma placed_groups:
  assumes "geo_ok g"
  shows "set is \<subseteq> {..<ngroups g} \<Longrightarrow>
    placed p (concat (map (\<lambda>i. [PUT (region_lo g (BlockMap i)) (map byte_of (block_map g i)), XWRITE (map byte_of (inode_map g i))]) is))
    = concat (map (\<lambda>i. [(region_lo g (BlockMap i), map byte_of (block_map g i)), (region_lo g (InodeMap i), map byte_of (inode_map g i))]) is)"
proof (induction "is" arbitrary: p)
  case (Cons i "is")
  then show ?case using block_map_bits(2) [OF assms, of i] by (simp add: algebra_simps)
qed simp

text \<open>Where the writes of the first group and of the tables go.\<close>

lemma group_pos_base:
  assumes "geo_ok g" "i < ngroups g"
  shows "group_pos g i = base g i"
proof -
  have "nblocks g < 2 ^ 32" using assms(1) by (simp add: geo_ok_def)
  then have "base g i < 2 ^ 32" using geo_facts(5) [OF assms] by linarith
  moreover have "blocks_per_group (blocksize g) = 8 * blocksize g" using geo_facts(1) [OF assms(1)] by (auto simp: bpg_values)
  ultimately show ?thesis unfolding group_pos_def by (simp add: base_def w32_small)
qed

lemma blocks_32:
  assumes "geo_ok g" "region_valid g r" "r \<noteq> Boot"
  shows "base g (region_group r) + region_from g r + region_blocks g r < 2 ^ 32"
proof -
  note i = region_in_group [OF assms]
  have "nblocks g < 2 ^ 32" using assms(1) by (simp add: geo_ok_def)
  then show ?thesis using i(2) geo_facts(4,5) [OF assms(1) i(1)] by linarith
qed

lemma super_io_writes:
  assumes "geo_ok g"
  shows "map put_of (concat (map (super_io g sb gd) [0..<ngroups g])) = map snd (super_writes g sb gd)"
    and "list_all is_put (concat (map (super_io g sb gd) [0..<ngroups g]))"
proof -
  have "map put_of (super_io g sb gd i) = map snd (if has_super i then [(Super i, region_lo g (Super i), sb), (Descs i, region_lo g (Descs i), gd)] else [])"
    if "i < ngroups g" for i
    using group_pos_base [OF assms that] by (simp add: super_io_def Let_def algebra_simps)
  then show "map put_of (concat (map (super_io g sb gd) [0..<ngroups g])) = map snd (super_writes g sb gd)"
    unfolding super_writes_def map_concat map_map comp_def by (intro arg_cong [where f = concat] map_cong refl) simp
  show "list_all is_put (concat (map (super_io g sb gd) [0..<ngroups g]))"
    by (auto simp: list_all_iff super_io_def Let_def split: if_splits)
qed

lemma table_io_writes:
  assumes "geo_ok g"
  shows "map put_of (concat (map (table_io g) (map (desc g) [0..<ngroups g]))) = map snd (table_writes g)"
    and "list_all is_put (concat (map (table_io g) (map (desc g) [0..<ngroups g])))"
proof -
  have "w32 (base g i + lead g i + 2 + n) = base g i + lead g i + 2 + n" if "i < ngroups g" "n < inode_table_blocks g" for i n
    using blocks_32 [OF assms, of "Table i"] that by (simp add: w32_small)
  then have "map put_of (table_io g (desc g i)) = map (\<lambda>n. ((base g i + lead g i + 2 + n) * blocksize g, replicate (blocksize g) NUL)) [0..<inode_table_blocks g]"
    if "i < ngroups g" for i
    using that by (simp add: table_io_def desc_def)
  then show "map put_of (concat (map (table_io g) (map (desc g) [0..<ngroups g]))) = map snd (table_writes g)"
    unfolding table_writes_def map_concat map_map comp_def by (intro arg_cong [where f = concat] map_cong refl) simp
  show "list_all is_put (concat (map (table_io g) (map (desc g) [0..<ngroups g])))"
    by (auto simp: list_all_iff table_io_def)
qed

lemma inode_io_writes:
  assumes "geo_ok g"
  shows "map put_of (inode_io g (desc g 0) ts) = map snd (inode_writes g ts)" "list_all is_put (inode_io g (desc g 0) ts)"
  by (simp_all add: inode_io_def inode_writes_def Let_def EXT2_ROOT_INO_def EXT2_GOOD_OLD_FIRST_INO_def) (simp_all add: desc_def)

lemma dir_io_writes:
  assumes "geo_ok g"
  shows "map put_of (dir_io g (desc g 0)) = map snd (dir_writes g)" "list_all is_put (dir_io g (desc g 0))"
proof -
  let ?t = "bg_inode_table (desc g 0) + inode_table_blocks g"
  have t: "w32 (?t + k) * blocksize g = region_lo g (Dir k)" if "k \<le> lost_and_found_blocks g" for k
    using blocks_32 [OF assms, of "Dir k"] that by (simp add: desc_def w32_small algebra_simps)
  have l: "1 \<le> lost_and_found_blocks g" using assms by (auto simp: geo_ok_def)
  show "map put_of (dir_io g (desc g 0)) = map snd (dir_writes g)"
    using t [of 0] t [of 1] t [of "Suc _"] l
    by (auto simp: dir_io_def dir_writes_def Let_def comp_def simp del: region_lo.simps)
  show "list_all is_put (dir_io g (desc g 0))" by (simp add: dir_io_def Let_def list_all_iff)
qed

definition ext2_writes :: "ext2_geo \<Rightarrow> bytes \<Rightarrow> nat \<Rightarrow> (region \<times> nat \<times> bytes) list" where
  "ext2_writes g sb ts = skeleton g sb (gd_table g (map (desc g) [0..<ngroups g])) @ inode_writes g ts @ dir_writes g"

lemma ext2_io_placed:
  assumes "geo_ok g" "sb = sb_bytes cs g nreserved (\<Sum>i\<leftarrow>[0..<ngroups g]. free_count g i) ts uuid seed label"
  shows "\<exists>ios. ext2_io cs g nreserved ts uuid seed label = Inr ios \<and> placed p ios = map snd (ext2_writes g sb ts)"
proof -
  have hd: "hd (map (desc g) [0..<ngroups g]) = desc g 0" using geo_facts(3) [OF assms(1)] by (simp add: hd_map)
  note parts = super_io_writes [OF assms(1)] table_io_writes [OF assms(1)] inode_io_writes [OF assms(1), of ts] dir_io_writes [OF assms(1)]
  have "map snd (group_writes g) = concat (map (\<lambda>i. [(region_lo g (BlockMap i), map byte_of (block_map g i)),
      (region_lo g (InodeMap i), map byte_of (inode_map g i))]) [0..<ngroups g])"
    by (simp add: group_writes_def map_concat comp_def)
  then show ?thesis
    unfolding ext2_io_def make_groups_eq [OF assms(1) le0]
    using placed_groups [OF assms(1), of "[0..<ngroups g]"] parts
    by (simp add: Let_def hd placed_append ext2_writes_def skeleton_def assms(2) atLeast0LessThan del: region_lo.simps)
qed

section \<open>Every write stays in its region\<close>

lemma length_st [simp]: "length (st32 v) = 4" "length (st16 v) = 2" "length (st8 v) = 1"
  by (simp_all add: st32_def st16_def st8_def)

lemma length_gd_bytes [simp]: "length (gd_bytes gd) = 32"
  by (simp add: gd_bytes_def)

lemma length_gd_table:
  assumes "geo_ok g"
  shows "length (gd_table g (map (desc g) [0..<ngroups g])) = group_desc_blocks g * blocksize g"
proof -
  have l: "length (concat (map gd_bytes gds)) = 32 * length gds" for gds by (induction gds) simp_all
  have "32 * ngroups g \<le> group_desc_blocks g * blocksize g" using assms by (simp add: geo_ok_def)
  then show ?thesis unfolding gd_table_def length_append l by simp
qed

lemma inode_buffers:
  assumes "geo_ok g"
  shows "length (stores (root_stores_inode g d ts) (replicate (blocksize g) NUL)) = blocksize g"
    and "length b = blocksize g \<Longrightarrow> length (stores (lost_stores_inode g d) b) = blocksize g"
  using assms by (subst length_stores; auto simp: geo_ok_def root_stores_inode_def lost_stores_inode_def Let_def list_all_iff)+

lemma dir_buffers:
  assumes "bs = 1024 \<or> bs = 4096" "length b = bs"
  shows "length (stores [(4, st16 bs)] b) = bs" "length (stores (lost_stores_dir bs) b) = bs" "length (stores (root_stores_dir bs) b) = bs"
  using assms by (subst length_stores; auto simp: lost_stores_dir_def root_stores_dir_def)+

text \<open>The writes that fill their region exactly; only the inode tables are written piece by piece.\<close>

definition exact_writes :: "ext2_geo \<Rightarrow> bytes \<Rightarrow> bytes \<Rightarrow> (region \<times> nat \<times> bytes) list" where
  "exact_writes g sb gd = group_writes g @ super_writes g sb gd @ [(Boot, 0, replicate 1024 NUL)] @ dir_writes g"

definition fills :: "ext2_geo \<Rightarrow> region \<times> nat \<times> bytes \<Rightarrow> bool" where
  "fills g = (\<lambda>(r, off, x). region_valid g r \<and> off = region_lo g r \<and> length x = region_len g r \<and> (\<forall>i. r \<noteq> Table i))"

lemma group_writes_fill: "geo_ok g \<Longrightarrow> list_all (fills g) (group_writes g)"
  using block_map_bits(2) [of g] inode_map_bits(2) [of g] by (auto simp: fills_def group_writes_def list_all_iff simp del: region_lo.simps)

lemma super_writes_fill:
  "length sb = 1024 \<Longrightarrow> length gd = group_desc_blocks g * blocksize g \<Longrightarrow> list_all (fills g) (super_writes g sb gd)"
  by (auto simp: fills_def super_writes_def list_all_iff simp del: region_lo.simps split: if_splits)

lemma dir_writes_fill:
  assumes "geo_ok g"
  shows "list_all (fills g) (dir_writes g)"
proof -
  have "1 \<le> lost_and_found_blocks g" using assms by (auto simp: geo_ok_def)
  moreover have "blocksize g = 1024 \<or> blocksize g = 4096" using geo_facts(1) [OF assms] .
  ultimately show ?thesis
    unfolding dir_writes_def Let_def list_all_append
    by (simp add: fills_def list_all_iff dir_buffers del: region_lo.simps)
qed

lemma exact_writes_fill:
  assumes "geo_ok g" "length sb = 1024" "length gd = group_desc_blocks g * blocksize g"
  shows "list_all (fills g) (exact_writes g sb gd)"
  using group_writes_fill [OF assms(1)] super_writes_fill [OF assms(2,3)] dir_writes_fill [OF assms(1)]
  by (simp add: exact_writes_def) (simp add: fills_def)

lemma exact_unique:
  "(r, o1, x1) \<in> set (exact_writes g sb gd) \<Longrightarrow> (r, o2, x2) \<in> set (exact_writes g sb gd) \<Longrightarrow> (o1, x1) = (o2, x2)"
  by (auto simp: exact_writes_def group_writes_def super_writes_def dir_writes_def Let_def simp del: region_lo.simps split: if_splits)

definition inside :: "ext2_geo \<Rightarrow> region \<times> nat \<times> bytes \<Rightarrow> bool" where
  "inside g = (\<lambda>(r, off, x). region_valid g r \<and> region_lo g r \<le> off \<and> off + length x \<le> region_lo g r + region_len g r)"

lemma fills_inside: "fills g w \<Longrightarrow> inside g w"
  by (auto simp: fills_def inside_def)

lemma table_writes_inside: "list_all (inside g) (table_writes g)"
proof -
  have "(base g i + lead g i + 2 + n) * blocksize g + blocksize g \<le> region_lo g (Table i) + inode_table_blocks g * blocksize g"
    if "n < inode_table_blocks g" for i n
  proof -
    have "Suc n * blocksize g \<le> inode_table_blocks g * blocksize g" using that by (intro mult_right_mono) simp_all
    then show ?thesis by (simp add: algebra_simps)
  qed
  then show ?thesis by (auto simp: table_writes_def list_all_iff inside_def)
qed

lemma inode_writes_inside:
  assumes "geo_ok g"
  shows "list_all (inside g) (inode_writes g ts)"
proof -
  have "11 * inodesize g \<le> inode_table_blocks g * blocksize g"
    using assms mult_le_mono1 [of 16 "inodes_per_group g" "inodesize g"] by (auto simp: geo_ok_def)
  moreover have "inodesize g \<le> blocksize g" using assms by (auto simp: geo_ok_def)
  ultimately show ?thesis
    using geo_facts(3) [OF assms] inode_buffers(1) [OF assms] inode_buffers(2) [OF assms inode_buffers(1) [OF assms]]
    by (simp add: inode_writes_def Let_def inside_def)
qed

lemma ext2_writes_set:
  "set (ext2_writes g sb ts) = set (exact_writes g sb (gd_table g (map (desc g) [0..<ngroups g]))) \<union> set (table_writes g) \<union> set (inode_writes g ts)"
  by (auto simp: ext2_writes_def skeleton_def exact_writes_def)

lemma ext2_writes_inside:
  assumes "geo_ok g" "length sb = 1024" "w \<in> set (ext2_writes g sb ts)"
  shows "inside g w"
  using assms(3) exact_writes_fill [OF assms(1,2) length_gd_table [OF assms(1)]] table_writes_inside [of g] inode_writes_inside [OF assms(1), of ts]
  by (auto simp: ext2_writes_set list_all_iff intro: fills_inside)

lemma writes_within:
  assumes "geo_ok g" "length sb = 1024" "nblocks g * blocksize g \<le> length old"
  shows "list_all (\<lambda>(o', x). o' + length x \<le> length old) (map snd (ext2_writes g sb ts))"
proof -
  have "off + length x \<le> length old" if "(r, off, x) \<in> set (ext2_writes g sb ts)" for r off x
    using ext2_writes_inside [OF assms(1,2) that] region_inside [OF assms(1), of r] assms(3) by (simp add: inside_def)
  then show ?thesis by (auto simp: list_all_iff)
qed

text \<open>Writes to different regions do not touch each other.\<close>

lemma inside_apart:
  assumes "geo_ok g" "inside g (r, off, x)" "inside g (r', off', x')" "r \<noteq> r'"
  shows "apart off (length x) (off', x')"
  using region_apart [OF assms(1), of r r'] assms by (auto simp: inside_def apart_def)

lemma read_exact:
  assumes "geo_ok g" "length sb = 1024" "nblocks g * blocksize g \<le> length old"
    and "(r, off, x) \<in> set (exact_writes g sb (gd_table g (map (desc g) [0..<ngroups g])))"
  shows "part (region_lo g r) (length x) (stores (map snd (ext2_writes g sb ts)) old) = x"
proof -
  let ?W = "ext2_writes g sb ts"
  have fill: "fills g (r, off, x)"
    using exact_writes_fill [OF assms(1,2) length_gd_table [OF assms(1)]] assms(4) by (auto simp: list_all_iff)
  have "part off (length x) (stores (map snd ?W) old) = x"
  proof (rule part_stores [OF writes_within [OF assms(1-3)]])
    show "(off, x) \<in> set (map snd ?W)" using assms(4) by (force simp: ext2_writes_set)
    fix w assume "w \<in> set (map snd ?W)"
    then obtain r' off' x' where w: "w = (off', x')" "(r', off', x') \<in> set ?W" by auto
    show "w = (off, x) \<or> apart off (length x) w"
    proof (cases "r' = r")
      case True
      then have "(r, off', x') \<in> set (exact_writes g sb (gd_table g (map (desc g) [0..<ngroups g])))"
        using w(2) fill by (auto simp: ext2_writes_set fills_def table_writes_def inode_writes_def Let_def)
      then show ?thesis using exact_unique assms(4) w(1) by blast
    next
      case False
      then show ?thesis
        using inside_apart [OF assms(1) fills_inside [OF fill] ext2_writes_inside [OF assms(1,2) w(2)]] w(1) by simp
    qed
  qed
  then show ?thesis using fill by (simp add: fills_def)
qed

lemma read_inodes:
  assumes "geo_ok g" "length sb = 1024" "nblocks g * blocksize g \<le> length old" "(r, off, x) \<in> set (inode_writes g ts)"
  shows "part off (length x) (stores (map snd (ext2_writes g sb ts)) old) = x"
proof -
  let ?A = "map snd (skeleton g sb (gd_table g (map (desc g) [0..<ngroups g])))" and ?B = "map snd (inode_writes g ts @ dir_writes g)"
  have W: "map snd (ext2_writes g sb ts) = ?A @ ?B" by (simp add: ext2_writes_def)
  note within = writes_within [OF assms(1-3), of ts, unfolded W list_all_append]
  have len: "length (stores ?A old) = length old" using within by (intro length_stores) blast
  have isz: "inodesize g \<le> blocksize g" using assms(1) by (auto simp: geo_ok_def)
  have "part off (length x) (stores ?B (stores ?A old)) = x"
  proof (rule part_stores)
    show "list_all (\<lambda>(o', x). o' + length x \<le> length (stores ?A old)) ?B" unfolding len using within by blast
    show "(off, x) \<in> set ?B" using assms(4) by force
    fix w assume "w \<in> set ?B"
    then consider (inode) "w \<in> snd ` set (inode_writes g ts)" | (dir) r' off' x' where "w = (off', x')" "(r', off', x') \<in> set (dir_writes g)"
      by auto
    then show "w = (off, x) \<or> apart off (length x) w"
    proof cases
      case inode
      then show ?thesis
        using assms(4) isz inode_buffers(1) [OF assms(1)] inode_buffers(2) [OF assms(1) inode_buffers(1) [OF assms(1)]]
        by (auto simp: inode_writes_def Let_def apart_def)
    next
      case dir
      have "inside g (r, off, x)" using inode_writes_inside [OF assms(1)] assms(4) by (auto simp: list_all_iff)
      moreover have "fills g (r', off', x')" using dir_writes_fill [OF assms(1)] dir(2) by (auto simp: list_all_iff)
      moreover have "r = Table 0" using assms(4) by (auto simp: inode_writes_def Let_def)
      ultimately show ?thesis
        using inside_apart [OF assms(1), of r off x r' off' x'] fills_inside [of g "(r', off', x')"] dir(1) by (auto simp: fills_def)
    qed
  qed
  then show ?thesis unfolding W stores_join .
qed

end
