(* ===== verification/Ext2Volume.thy ===== *)
theory Ext2Volume
  imports Ext2Image
begin

text \<open>
  What a driver expects of an ext2 volume, stated on its bytes, and that \<open>mke2fs\<close> with its default
  sizes, as the flash script runs it, makes every block device of at least 60 blocks such a volume.
\<close>

section \<open>What a driver finds\<close>

definition e2_super :: "nat \<Rightarrow> nat \<Rightarrow> bytes \<Rightarrow> nat" where "e2_super off n b = field (1024 + off) n b"
definition e2_blocks :: "bytes \<Rightarrow> nat" where "e2_blocks = e2_super 4 4"
definition e2_first :: "bytes \<Rightarrow> nat" where "e2_first = e2_super 20 4"
definition e2_bs :: "bytes \<Rightarrow> nat" where "e2_bs b = 1024 * 2 ^ e2_super 24 4 b"
definition e2_per_group :: "bytes \<Rightarrow> nat" where "e2_per_group = e2_super 32 4"
definition e2_ipg :: "bytes \<Rightarrow> nat" where "e2_ipg = e2_super 40 4"
definition e2_isz :: "bytes \<Rightarrow> nat" where "e2_isz = e2_super 88 2"

definition e2_groups :: "bytes \<Rightarrow> nat" where
  "e2_groups b = ceil_div (e2_blocks b - e2_first b) (e2_per_group b)"

definition e2_size :: "bytes \<Rightarrow> nat \<Rightarrow> nat" where
  "e2_size b i = min (e2_per_group b) (e2_blocks b - e2_first b - i * e2_per_group b)"

definition e2_table :: "bytes \<Rightarrow> nat" where
  "e2_table b = ceil_div (e2_ipg b * e2_isz b) (e2_bs b)"

definition e2_desc :: "bytes \<Rightarrow> nat \<Rightarrow> nat \<Rightarrow> nat \<Rightarrow> nat" where
  "e2_desc b i off n = field ((e2_first b + 1) * e2_bs b + (32 * i + off)) n b"

definition e2_block :: "bytes \<Rightarrow> nat \<Rightarrow> bytes" where
  "e2_block b k = part (k * e2_bs b) (e2_bs b) b"

definition e2_bit :: "bytes \<Rightarrow> nat \<Rightarrow> nat \<Rightarrow> bool" where
  "e2_bit b blk k = bit (of_char (e2_block b blk ! (k div 8)) :: nat) (k mod 8)"

text \<open>
  A group: its bitmaps and inode table lie inside and are marked as used, the counts of its
  descriptor are those of the bitmaps, and the bits behind its last block and inode are set.
\<close>

definition e2_group_ok :: "bytes \<Rightarrow> nat \<Rightarrow> bool" where
  "e2_group_ok b i \<longleftrightarrow>
     (let lo = e2_first b + i * e2_per_group b; bb = e2_desc b i 0 4; ib = e2_desc b i 4 4; it = e2_desc b i 8 4 in
      lo \<le> bb \<and> bb < ib \<and> ib < it \<and> it + e2_table b \<le> lo + e2_size b i
      \<and> (\<forall>k < e2_size b i. lo + k = bb \<or> lo + k = ib \<or> it \<le> lo + k \<and> lo + k < it + e2_table b \<longrightarrow> e2_bit b bb k)
      \<and> e2_desc b i 12 2 = length (filter (\<lambda>k. \<not> e2_bit b bb k) [0..<e2_size b i])
      \<and> (\<forall>k < 8 * e2_bs b. e2_size b i \<le> k \<longrightarrow> e2_bit b bb k)
      \<and> e2_desc b i 14 2 = length (filter (\<lambda>k. \<not> e2_bit b ib k) [0..<e2_ipg b])
      \<and> (\<forall>k < 8 * e2_bs b. e2_ipg b \<le> k \<longrightarrow> e2_bit b ib k))"

text \<open>The entries of a directory block.\<close>

function dir_list :: "bytes \<Rightarrow> (nat \<times> string) list" where
  "dir_list b =
     (let len = field 4 2 b in
      if len < 8 \<or> length b < len then []
      else (if field 0 4 b = 0 then [] else [(field 0 4 b, take (field 6 1 b) (drop 8 b))]) @ dir_list (drop len b))"
  by pat_completeness auto
termination by (relation "measure length") auto

declare dir_list.simps [simp del]

definition e2_inode :: "bytes \<Rightarrow> nat \<Rightarrow> nat \<Rightarrow> nat \<Rightarrow> nat" where
  "e2_inode b ino off n = field (e2_desc b 0 8 4 * e2_bs b + ((ino - 1) * e2_isz b + off)) n b"

text \<open>An inode of a directory whose blocks are all in use in the first group and hold the given entries.\<close>

definition e2_dir :: "bytes \<Rightarrow> nat \<Rightarrow> (nat \<times> string) list \<Rightarrow> bool" where
  "e2_dir b ino es \<longleftrightarrow>
     (let n = e2_inode b ino 4 4 div e2_bs b; blk = (\<lambda>k. e2_inode b ino (40 + 4 * k) 4) in
      e2_inode b ino 0 2 div 2 ^ 12 = 4 \<and> e2_bit b (e2_desc b 0 4 4) (ino - 1) \<and> n \<le> 12
      \<and> (\<forall>k < n. e2_first b \<le> blk k \<and> blk k < e2_first b + e2_size b 0 \<and> e2_bit b (e2_desc b 0 0 4) (blk k - e2_first b))
      \<and> distinct (map blk [0..<n]) \<and> concat (map (\<lambda>k. dir_list (e2_block b (blk k))) [0..<n]) = es)"

definition ext2_volume :: "bytes \<Rightarrow> bool" where
  "ext2_volume b \<longleftrightarrow>
     e2_super 56 2 b = 0xEF53 \<and> e2_first b < e2_blocks b \<and> e2_blocks b * e2_bs b \<le> length b
     \<and> e2_per_group b = 8 * e2_bs b \<and> e2_ipg b \<le> e2_per_group b
     \<and> (\<forall>i < e2_groups b. e2_group_ok b i)
     \<and> e2_super 12 4 b = (\<Sum>i\<leftarrow>[0..<e2_groups b]. e2_desc b i 12 2)
     \<and> e2_super 0 4 b = e2_ipg b * e2_groups b
     \<and> e2_super 16 4 b = (\<Sum>i\<leftarrow>[0..<e2_groups b]. e2_desc b i 14 2)
     \<and> (\<forall>i < e2_groups b. has_super i \<and> 0 < i \<longrightarrow>
          part ((e2_first b + i * e2_per_group b) * e2_bs b) 1024 b = part 1024 1024 b
          \<and> part ((e2_first b + i * e2_per_group b + 1) * e2_bs b) (32 * e2_groups b) b = part ((e2_first b + 1) * e2_bs b) (32 * e2_groups b) b)
     \<and> e2_dir b 2 [(2, ''.''), (2, ''..''), (11, ''lost+found'')] \<and> e2_dir b 11 [(11, ''.''), (2, ''..'')]"

section \<open>The fields written\<close>

lemma le_value_st: "v < 2 ^ 32 \<Longrightarrow> le_value (st32 v) = v" "v < 2 ^ 16 \<Longrightarrow> le_value (st16 v) = v" "v < 2 ^ 8 \<Longrightarrow> le_value (st8 v) = v"
  by (simp_all add: st32_def st16_def st8_def le_value_le_bytes)

lemma field_part: "p + n \<le> m \<Longrightarrow> field (off + p) n b = field p n (part off m b)"
  by (simp add: part_def field_def drop_take min_def add.commute)

lemma sb_field:
  assumes "geo_ok g" "length uuid = 16" "length seed = 16"
    and "list_all (\<lambda>(o', x). o' = p \<and> length x = n \<or> o' + length x \<le> p \<or> p + n \<le> o') (sb_stores cs g nr fb ts uuid seed label)"
  shows "field p n (sb_bytes cs g nr fb ts uuid seed label) = stored (sb_stores cs g nr fb ts uuid seed label) p n 0"
    and "length (sb_bytes cs g nr fb ts uuid seed label) = 1024"
proof -
  have w: "list_all (\<lambda>(o', x). o' + length x \<le> 1024) (sb_stores cs g nr fb ts uuid seed label)"
    using assms(2,3) by (simp add: sb_stores_def Let_def)
  show "length (sb_bytes cs g nr fb ts uuid seed label) = 1024"
    unfolding sb_bytes_def using w by (subst length_stores) simp_all
  show "field p n (sb_bytes cs g nr fb ts uuid seed label) = stored (sb_stores cs g nr fb ts uuid seed label) p n 0"
    unfolding sb_bytes_def using w assms(4) by (subst field_stores) (auto simp: list_all_iff field_zeros)
qed

lemma sb_fields:
  assumes "geo_ok g" "length uuid = 16" "length seed = 16" "sb = sb_bytes cs g nr fb ts uuid seed label" "fb < 2 ^ 32"
  shows "field 56 2 sb = 0xEF53" "field 4 4 sb = nblocks g" "field 20 4 sb = first_block g" "1024 * 2 ^ field 24 4 sb = blocksize g"
    and "field 32 4 sb = 8 * blocksize g" "field 40 4 sb = inodes_per_group g" "field 88 2 sb = inodesize g"
    and "field 12 4 sb = fb" "field 0 4 sb = inodes_per_group g * ngroups g" "field 16 4 sb = inodes_per_group g * ngroups g - 11"
proof -
  have small: "nblocks g < 2 ^ 32" "first_block g < 2 ^ 32" "inodes_per_group g < 2 ^ 32" "inodesize g < 2 ^ 16" "16 \<le> inodes_per_group g"
    "inodes_per_group g * ngroups g < 2 ^ 32" and bs: "blocksize g = 1024 \<or> blocksize g = 4096"
    using assms(1) by (auto simp: geo_ok_def)
  have "16 * 1 \<le> inodes_per_group g * ngroups g" using small(5) geo_facts(3) [OF assms(1)] by (intro mult_le_mono) simp_all
  then have i11: "sub32 (inodes_per_group g * ngroups g) 11 = inodes_per_group g * ngroups g - 11"
    using small(6) by (intro sub32_small) simp_all
  have bpg: "blocks_per_group (blocksize g) = 8 * blocksize g" using bs by (auto simp: bpg_values)
  note f = sb_field(1) [OF assms(1-3)]
  note ev = sb_stores_def Let_def le_value_st w32_small bpg i11 EXT2_GOOD_OLD_FIRST_INO_def
  show "field 56 2 sb = 0xEF53" "field 4 4 sb = nblocks g" "field 20 4 sb = first_block g"
    "field 32 4 sb = 8 * blocksize g" "field 40 4 sb = inodes_per_group g" "field 88 2 sb = inodesize g"
    "field 12 4 sb = fb" "field 0 4 sb = inodes_per_group g * ngroups g" "field 16 4 sb = inodes_per_group g * ngroups g - 11"
    unfolding assms(4) using small bs assms(2,3,5) by (subst f; auto simp: ev)+
  have "field 24 4 sb = int_log2 (blocksize g) - 10"
    unfolding assms(4) using bs assms(2,3) by (subst f; auto simp: ev log_values)
  then show "1024 * 2 ^ field 24 4 sb = blocksize g" using bs by (auto simp: log_values)
qed

lemma field_concat:
  "list_all (\<lambda>x. length x = m) xs \<Longrightarrow> i < length xs \<Longrightarrow> off + n \<le> m \<Longrightarrow> field (m * i + off) n (concat xs @ r) = field off n (xs ! i)"
proof (induction xs arbitrary: i)
  case (Cons x xs)
  then show ?case
    by (cases i) (simp_all add: field_append1 field_append2 algebra_simps)
qed simp

lemma gd_fields:
  assumes "bg_block_bitmap d < 2 ^ 32" "bg_inode_bitmap d < 2 ^ 32" "bg_inode_table d < 2 ^ 32" "bg_free_blocks_count d < 2 ^ 16"
    "bg_free_inodes_count d < 2 ^ 16"
  shows "field 0 4 (gd_bytes d) = bg_block_bitmap d" "field 4 4 (gd_bytes d) = bg_inode_bitmap d" "field 8 4 (gd_bytes d) = bg_inode_table d"
    and "field 12 2 (gd_bytes d) = bg_free_blocks_count d" "field 14 2 (gd_bytes d) = bg_free_inodes_count d"
  using assms by (simp_all add: gd_bytes_def field_def le_value_st)

lemma desc_field:
  assumes "geo_ok g" "i < ngroups g" "off + n \<le> 32"
  shows "field (32 * i + off) n (gd_table g (map (desc g) [0..<ngroups g])) = field off n (gd_bytes (desc g i))"
  unfolding gd_table_def
  using field_concat [of 32 "map gd_bytes (map (desc g) [0..<ngroups g])" i off n] assms by (simp add: list_all_iff)

lemma byte_bit: "k < 8 * length bm \<Longrightarrow> bit (of_char (map byte_of bm ! (k div 8)) :: nat) (k mod 8) = bit_at bm k"
proof -
  assume k: "k < 8 * length bm"
  have "unat (w :: u8) < 2 ^ LENGTH(8)" for w by (rule unsigned_less)
  then have "of_char (byte_of w) = unat w" for w by (simp add: byte_of_def)
  moreover have "k div 8 < length bm" using k by (simp add: less_mult_imp_div_less mult.commute)
  ultimately show ?thesis by (simp add: bit_at_def bit_unsigned_iff)
qed

section \<open>The volume written\<close>

text \<open>The volume, its superblock and what is read from both.\<close>

definition volume_of :: "ext2_geo \<Rightarrow> bytes \<Rightarrow> nat \<Rightarrow> bytes \<Rightarrow> bytes" where
  "volume_of g sb ts old = stores (map snd (ext2_writes g sb ts)) old"

lemma volume_super:
  assumes "geo_ok g" "length sb = 1024" "nblocks g * blocksize g \<le> length old" "i < ngroups g" "has_super i"
  shows "part (region_lo g (Super i)) 1024 (volume_of g sb ts old) = sb"
    and "part (region_lo g (Descs i)) (group_desc_blocks g * blocksize g) (volume_of g sb ts old) = gd_table g (map (desc g) [0..<ngroups g])"
proof -
  let ?gd = "gd_table g (map (desc g) [0..<ngroups g])"
  have "(Super i, region_lo g (Super i), sb) \<in> set (super_writes g sb ?gd)" "(Descs i, region_lo g (Descs i), ?gd) \<in> set (super_writes g sb ?gd)"
    using assms(4,5) by (auto simp: super_writes_def simp del: region_lo.simps intro!: bexI [of _ i])
  then have w: "(Super i, region_lo g (Super i), sb) \<in> set (exact_writes g sb ?gd)" "(Descs i, region_lo g (Descs i), ?gd) \<in> set (exact_writes g sb ?gd)"
    by (simp_all add: exact_writes_def)
  show "part (region_lo g (Super i)) 1024 (volume_of g sb ts old) = sb"
    using read_exact [OF assms(1-3) w(1), of ts] assms(2) by (simp only: volume_of_def)
  show "part (region_lo g (Descs i)) (group_desc_blocks g * blocksize g) (volume_of g sb ts old) = ?gd"
    using read_exact [OF assms(1-3) w(2), of ts] length_gd_table [OF assms(1)] by (simp only: volume_of_def)
qed

lemma volume_maps:
  assumes "geo_ok g" "length sb = 1024" "nblocks g * blocksize g \<le> length old" "i < ngroups g"
  shows "part ((base g i + lead g i) * blocksize g) (blocksize g) (volume_of g sb ts old) = map byte_of (block_map g i)"
    and "part ((base g i + lead g i + 1) * blocksize g) (blocksize g) (volume_of g sb ts old) = map byte_of (inode_map g i)"
proof -
  let ?W = "set (exact_writes g sb (gd_table g (map (desc g) [0..<ngroups g])))"
  have w: "(BlockMap i, region_lo g (BlockMap i), map byte_of (block_map g i)) \<in> ?W" "(InodeMap i, region_lo g (InodeMap i), map byte_of (inode_map g i)) \<in> ?W"
    using assms(4) by (auto simp: exact_writes_def group_writes_def simp del: region_lo.simps)
  show "part ((base g i + lead g i) * blocksize g) (blocksize g) (volume_of g sb ts old) = map byte_of (block_map g i)"
    using read_exact [OF assms(1-3) w(1), of ts] block_map_bits(2) [OF assms(1,4)] by (simp add: volume_of_def)
  show "part ((base g i + lead g i + 1) * blocksize g) (blocksize g) (volume_of g sb ts old) = map byte_of (inode_map g i)"
    using read_exact [OF assms(1-3) w(2), of ts] inode_map_bits(2) [OF assms(1)] by (simp add: volume_of_def add.assoc)
qed

lemma volume_fields:
  assumes "geo_ok g" "length uuid = 16" "length seed = 16" "sb = sb_bytes cs g nr fb ts uuid seed label" "fb < 2 ^ 32"
    and "nblocks g * blocksize g \<le> length old" "b = volume_of g sb ts old"
  shows "e2_super 56 2 b = 0xEF53" "e2_blocks b = nblocks g" "e2_first b = first_block g" "e2_bs b = blocksize g"
    and "e2_per_group b = 8 * blocksize g" "e2_ipg b = inodes_per_group g" "e2_isz b = inodesize g" "e2_super 12 4 b = fb"
    and "e2_super 0 4 b = inodes_per_group g * ngroups g" "e2_super 16 4 b = inodes_per_group g * ngroups g - 11"
    and "e2_groups b = ngroups g" "e2_size b i = group_size g i" "e2_table b = inode_table_blocks g"
proof -
  have len: "length sb = 1024" using sb_field(2) [OF assms(1-3), of 0 0] assms(4) by (simp add: list_all_iff)
  have "region_lo g (Super 0) = 1024" using geo_facts(1,2) [OF assms(1)] assms(1) by (auto simp: base_def geo_ok_def)
  then have s: "part 1024 1024 b = sb" using volume_super(1) [OF assms(1) len assms(6) geo_facts(3) [OF assms(1)] has_super_0] assms(7) by simp
  have f: "e2_super p n b = field p n sb" if "p + n \<le> 1024" for p n
    unfolding e2_super_def by (subst field_part [OF that]) (simp add: s)
  note sb = sb_fields [OF assms(1-5)]
  show v: "e2_super 56 2 b = 0xEF53" "e2_blocks b = nblocks g" "e2_first b = first_block g" "e2_bs b = blocksize g"
    "e2_per_group b = 8 * blocksize g" "e2_ipg b = inodes_per_group g" "e2_isz b = inodesize g" "e2_super 12 4 b = fb"
    "e2_super 0 4 b = inodes_per_group g * ngroups g" "e2_super 16 4 b = inodes_per_group g * ngroups g - 11"
    by (simp_all add: e2_blocks_def e2_first_def e2_bs_def e2_per_group_def e2_ipg_def e2_isz_def f sb)
  show "e2_groups b = ngroups g" "e2_size b i = group_size g i"
    using assms(1) by (simp_all add: e2_groups_def e2_size_def v group_size_def data_blocks_def geo_ok_def)
  have "inodes_per_group g * inodesize g = inode_table_blocks g * blocksize g" "0 < blocksize g" using assms(1) by (auto simp: geo_ok_def)
  then show "e2_table b = inode_table_blocks g"
    unfolding e2_table_def v by (simp add: ceil_div_mult)
qed

lemma desc_small:
  assumes "geo_ok g" "i < ngroups g"
  shows "base g i + lead g i + 2 < 2 ^ 32" "free_count g i < 2 ^ 16" "inodes_per_group g < 2 ^ 16"
proof -
  have "nblocks g < 2 ^ 32" "blocksize g \<le> 4096" "inodes_per_group g \<le> 8 * blocksize g" using assms(1) by (auto simp: geo_ok_def)
  moreover have "lead g i + 2 \<le> group_used g i" by (simp add: group_used_def)
  ultimately show "base g i + lead g i + 2 < 2 ^ 32" "free_count g i < 2 ^ 16" "inodes_per_group g < 2 ^ 16"
    using geo_facts(4-6) [OF assms] by (simp_all add: free_count_def)
qed

text \<open>Counting the bits that are not set.\<close>

lemma count_free:
  assumes "\<And>k. k < n \<Longrightarrow> P k \<longleftrightarrow> k < u \<or> m \<le> k" "u \<le> n" "n \<le> m"
  shows "length (filter (\<lambda>k. \<not> P k) [0..<n]) = n - u"
proof -
  have "filter (\<lambda>k. \<not> P k) [0..<n] = filter (\<lambda>k. u \<le> k) [0..<n]"
    using assms(1,3) by (intro filter_cong) auto
  also have "\<dots> = filter (\<lambda>k. u \<le> k) ([0..<u] @ [u..<n])"
    using assms(2) by (metis le_add_diff_inverse le0 upt_add_eq_append)
  also have "\<dots> = [u..<n]" by (simp add: filter_id_conv filter_empty_conv)
  finally show ?thesis by simp
qed

text \<open>A volume as the program leaves it.\<close>

definition formatted :: "ext2_geo \<Rightarrow> nat \<Rightarrow> bytes \<Rightarrow> bytes \<Rightarrow> bool" where
  "formatted g ts old b \<longleftrightarrow> geo_ok g \<and> nblocks g * blocksize g \<le> length old
     \<and> (\<exists>cs nr uuid seed label. length uuid = 16 \<and> length seed = 16
          \<and> b = volume_of g (sb_bytes cs g nr (\<Sum>i\<leftarrow>[0..<ngroups g]. free_count g i) ts uuid seed label) ts old)"

lemma formatted_sb:
  assumes "formatted g ts old b"
  obtains sb where "geo_ok g" "length sb = 1024" "nblocks g * blocksize g \<le> length old" "b = volume_of g sb ts old"
proof -
  obtain cs nr uuid seed label where *: "geo_ok g" "length uuid = 16" "length seed = 16" "nblocks g * blocksize g \<le> length old"
      "b = volume_of g (sb_bytes cs g nr (\<Sum>i\<leftarrow>[0..<ngroups g]. free_count g i) ts uuid seed label) ts old"
    using assms by (auto simp: formatted_def)
  moreover have "length (sb_bytes cs g nr (\<Sum>i\<leftarrow>[0..<ngroups g]. free_count g i) ts uuid seed label) = 1024"
    using sb_field(2) [OF *(1-3), of 0 0] by (simp add: list_all_iff)
  ultimately show ?thesis using that by blast
qed

lemma formatted_fields:
  assumes "formatted g ts old b"
  shows "e2_super 56 2 b = 0xEF53" "e2_blocks b = nblocks g" "e2_first b = first_block g" "e2_bs b = blocksize g"
    and "e2_per_group b = 8 * blocksize g" "e2_ipg b = inodes_per_group g" "e2_isz b = inodesize g"
    and "e2_super 12 4 b = (\<Sum>i\<leftarrow>[0..<ngroups g]. free_count g i)"
    and "e2_super 0 4 b = inodes_per_group g * ngroups g" "e2_super 16 4 b = inodes_per_group g * ngroups g - 11"
    and "e2_groups b = ngroups g" "e2_size b i = group_size g i" "e2_table b = inode_table_blocks g"
proof -
  obtain cs nr uuid seed label where *: "geo_ok g" "length uuid = 16" "length seed = 16" "nblocks g * blocksize g \<le> length old"
      "b = volume_of g (sb_bytes cs g nr (\<Sum>i\<leftarrow>[0..<ngroups g]. free_count g i) ts uuid seed label) ts old"
    using assms by (auto simp: formatted_def)
  note volume_fields [OF *(1-3) refl sum_free_small [OF *(1) refl] *(4,5)]
  then show "e2_super 56 2 b = 0xEF53" "e2_blocks b = nblocks g" "e2_first b = first_block g" "e2_bs b = blocksize g"
    "e2_per_group b = 8 * blocksize g" "e2_ipg b = inodes_per_group g" "e2_isz b = inodesize g"
    "e2_super 12 4 b = (\<Sum>i\<leftarrow>[0..<ngroups g]. free_count g i)"
    "e2_super 0 4 b = inodes_per_group g * ngroups g" "e2_super 16 4 b = inodes_per_group g * ngroups g - 11"
    "e2_groups b = ngroups g" "e2_size b i = group_size g i" "e2_table b = inode_table_blocks g" by blast+
qed

lemma formatted_desc:
  assumes "formatted g ts old b" "i < ngroups g"
  shows "e2_desc b i 0 4 = base g i + lead g i" "e2_desc b i 4 4 = base g i + lead g i + 1" "e2_desc b i 8 4 = base g i + lead g i + 2"
    and "e2_desc b i 12 2 = free_count g i" "e2_desc b i 14 2 = inodes_per_group g - first_inodes i"
proof -
  obtain sb where *: "geo_ok g" "length sb = 1024" "nblocks g * blocksize g \<le> length old" "b = volume_of g sb ts old"
    using formatted_sb [OF assms(1)] by blast
  note v = formatted_fields [OF assms(1)]
  have "32 * ngroups g \<le> group_desc_blocks g * blocksize g" using *(1) by (simp add: geo_ok_def)
  then have f: "e2_desc b i off n = field off n (gd_bytes (desc g i))" if "off + n \<le> 32" for off n
  proof -
    have "part ((first_block g + 1) * blocksize g) (group_desc_blocks g * blocksize g) b = gd_table g (map (desc g) [0..<ngroups g])"
      using volume_super(2) [OF *(1-3) geo_facts(3) [OF *(1)] has_super_0, of ts] *(4) by (simp add: base_def)
    moreover have "32 * i + off + n \<le> group_desc_blocks g * blocksize g"
      using that assms(2) \<open>32 * ngroups g \<le> group_desc_blocks g * blocksize g\<close> by linarith
    ultimately show ?thesis
      unfolding e2_desc_def v by (simp only: field_part desc_field [OF *(1) assms(2) that])
  qed
  note s = desc_small [OF *(1) assms(2)]
  have "bg_block_bitmap (desc g i) < 2 ^ 32" "bg_inode_bitmap (desc g i) < 2 ^ 32" "bg_inode_table (desc g i) < 2 ^ 32"
    "bg_free_blocks_count (desc g i) < 2 ^ 16" "bg_free_inodes_count (desc g i) < 2 ^ 16"
    using s by (simp_all add: desc_def)
  from gd_fields [OF this]
  show "e2_desc b i 0 4 = base g i + lead g i" "e2_desc b i 4 4 = base g i + lead g i + 1" "e2_desc b i 8 4 = base g i + lead g i + 2"
    "e2_desc b i 12 2 = free_count g i" "e2_desc b i 14 2 = inodes_per_group g - first_inodes i"
    by (simp_all add: f) (simp_all add: desc_def)
qed

lemma formatted_bits:
  assumes "formatted g ts old b" "i < ngroups g" "k < 8 * blocksize g"
  shows "e2_bit b (base g i + lead g i) k \<longleftrightarrow> k < group_used g i \<or> group_size g i \<le> k"
    and "e2_bit b (base g i + lead g i + 1) k \<longleftrightarrow> k < first_inodes i \<or> inodes_per_group g \<le> k"
proof -
  obtain sb where *: "geo_ok g" "length sb = 1024" "nblocks g * blocksize g \<le> length old" "b = volume_of g sb ts old"
    using formatted_sb [OF assms(1)] by blast
  note m = volume_maps [OF *(1-3) assms(2), of ts, folded *(4)]
  show "e2_bit b (base g i + lead g i) k \<longleftrightarrow> k < group_used g i \<or> group_size g i \<le> k"
    unfolding e2_bit_def e2_block_def formatted_fields [OF assms(1)] m
    using byte_bit [of k "block_map g i"] block_map_bits(2,3) [OF *(1) assms(2)] assms(3) by simp
  show "e2_bit b (base g i + lead g i + 1) k \<longleftrightarrow> k < first_inodes i \<or> inodes_per_group g \<le> k"
    unfolding e2_bit_def e2_block_def formatted_fields [OF assms(1)] m
    using byte_bit [of k "inode_map g i"] inode_map_bits(2,3) [OF *(1)] assms(3) by simp
qed

lemma formatted_group:
  assumes "formatted g ts old b" "i < ngroups g"
  shows "e2_group_ok b i"
proof -
  have g: "geo_ok g" using assms(1) by (simp add: formatted_def)
  have ipg: "inodes_per_group g \<le> 8 * blocksize g" "first_inodes i \<le> inodes_per_group g" using g by (auto simp: geo_ok_def first_inodes_def)
  note f = geo_facts(4,6) [OF g assms(2)] and v = formatted_fields [OF assms(1)] and d = formatted_desc [OF assms]
  note bits = formatted_bits [OF assms]
  have u: "lead g i + 2 + inode_table_blocks g \<le> group_used g i" by (simp add: group_used_def)
  have blocks: "length (filter (\<lambda>k. \<not> e2_bit b (base g i + lead g i) k) [0..<group_size g i]) = free_count g i"
    unfolding free_count_def using bits(1) f by (intro count_free) auto
  have inodes: "length (filter (\<lambda>k. \<not> e2_bit b (base g i + lead g i + 1) k) [0..<inodes_per_group g]) = inodes_per_group g - first_inodes i"
    using bits(2) ipg by (intro count_free) auto
  have lo: "first_block g + i * (8 * blocksize g) = base g i" by (simp add: base_def)
  show ?thesis
    unfolding e2_group_ok_def Let_def v d lo blocks inodes
    using u f bits by (intro conjI) auto
qed

section \<open>Directories\<close>

lemma root_block:
  assumes "64 \<le> bs"
  shows "stores (root_stores_dir bs) (stores (lost_stores_dir bs) (stores [(4, st16 bs)] (replicate bs NUL))) =
    st32 2 @ st16 12 @ st8 1 @ st8 2 @ ''.'' @ replicate 3 NUL
    @ st32 2 @ st16 12 @ st8 2 @ st8 2 @ ''..'' @ replicate 2 NUL
    @ st32 11 @ st16 (bs - 24) @ st8 10 @ st8 2 @ ''lost+found'' @ replicate 1 NUL @ replicate (bs - 43) NUL"
  using assms by (simp add: stores_def lost_stores_dir_def root_stores_dir_def blit_def EXT2_GOOD_OLD_FIRST_INO_def EXT2_ROOT_INO_def EXT2_FT_DIR_def)

lemma lost_block:
  assumes "64 \<le> bs"
  shows "stores (lost_stores_dir bs) (stores [(4, st16 bs)] (replicate bs NUL)) =
    st32 11 @ st16 12 @ st8 1 @ st8 2 @ ''.'' @ replicate 3 NUL
    @ st32 2 @ st16 (bs - 12) @ st8 2 @ st8 2 @ ''..'' @ replicate (bs - 22) NUL"
  using assms by (simp add: stores_def lost_stores_dir_def blit_def EXT2_GOOD_OLD_FIRST_INO_def EXT2_ROOT_INO_def EXT2_FT_DIR_def)

text \<open>Reading one entry.\<close>

lemma dir_list_entry:
  assumes "b = st32 ino @ st16 len @ st8 nl @ st8 ty @ name @ pad @ r" "0 < ino" "ino < 2 ^ 32" "len < 2 ^ 16" "nl < 2 ^ 8"
    and "nl = length name" "len = 8 + length name + length pad"
  shows "dir_list b = (ino, name) # dir_list r"
proof -
  have f: "field 4 2 b = len" "field 0 4 b = ino" "field 6 1 b = nl" "take (length name) (drop 8 b) = name" "drop len b = r" "len \<le> length b"
    using assms by (simp_all add: field_def le_value_st)
  show ?thesis
    using assms(2,6,7) f by (subst dir_list.simps) (simp add: Let_def)
qed

lemma dir_list_nil: "dir_list [] = []"
  by (subst dir_list.simps) (simp add: field_def)

lemma root_entries:
  assumes "bs = 1024 \<or> bs = 4096"
  shows "dir_list (stores (root_stores_dir bs) (stores (lost_stores_dir bs) (stores [(4, st16 bs)] (replicate bs NUL))))
    = [(2, ''.''), (2, ''..''), (11, ''lost+found'')]"
proof -
  have bs: "64 \<le> bs" using assms by auto
  have e3: "dir_list (st32 11 @ st16 (bs - 24) @ st8 10 @ st8 2 @ ''lost+found'' @ replicate 1 NUL @ replicate (bs - 43) NUL) = [(11, ''lost+found'')]"
    by (subst dir_list_entry [where ino = 11 and len = "bs - 24" and nl = 10 and name = "''lost+found''" and ty = 2 and pad = "replicate 1 NUL @ replicate (bs - 43) NUL" and r = "[]"])
      (use assms in \<open>auto simp: dir_list_nil\<close>)
  have e2: "dir_list (st32 2 @ st16 12 @ st8 2 @ st8 2 @ ''..'' @ replicate 2 NUL @ r) = (2, ''..'') # dir_list r" for r
    by (rule dir_list_entry [OF refl]) simp_all
  have e1: "dir_list (st32 2 @ st16 12 @ st8 1 @ st8 2 @ ''.'' @ replicate 3 NUL @ r) = (2, ''.'') # dir_list r" for r
    by (rule dir_list_entry [OF refl]) simp_all
  show ?thesis unfolding root_block [OF bs] by (simp only: e1 e2 e3)
qed

lemma lost_entries:
  assumes "bs = 1024 \<or> bs = 4096"
  shows "dir_list (stores (lost_stores_dir bs) (stores [(4, st16 bs)] (replicate bs NUL))) = [(11, ''.''), (2, ''..'')]"
proof -
  have bs: "64 \<le> bs" using assms by auto
  have e2: "dir_list (st32 2 @ st16 (bs - 12) @ st8 2 @ st8 2 @ ''..'' @ replicate (bs - 22) NUL) = [(2, ''..'')]"
    by (subst dir_list_entry [where ino = 2 and len = "bs - 12" and nl = 2 and name = "''..''" and ty = 2 and pad = "replicate (bs - 22) NUL" and r = "[]"])
      (use assms in \<open>auto simp: dir_list_nil\<close>)
  have e1: "dir_list (st32 11 @ st16 12 @ st8 1 @ st8 2 @ ''.'' @ replicate 3 NUL @ r) = (11, ''.'') # dir_list r" for r
    by (rule dir_list_entry [OF refl]) simp_all
  show ?thesis unfolding lost_block [OF bs] by (simp only: e1 e2)
qed

lemma empty_entries:
  assumes "bs = 1024 \<or> bs = 4096"
  shows "dir_list (stores [(4, st16 bs)] (replicate bs NUL)) = []"
proof -
  let ?b = "stores [(4, st16 bs)] (replicate bs NUL)"
  have len: "length ?b = bs" by (rule dir_buffers(1) [OF assms]) simp
  have f: "field 4 2 ?b = bs" "field 0 4 ?b = 0"
    using assms by (subst field_stores; auto simp: le_value_st field_zeros)+
  show ?thesis by (subst dir_list.simps) (simp add: Let_def f len dir_list_nil)
qed

text \<open>The blocks of the two directories and their inodes.\<close>

definition dir_start :: "ext2_geo \<Rightarrow> nat" where
  "dir_start g = base g 0 + lead g 0 + 2 + inode_table_blocks g"

lemma formatted_dirs:
  assumes "formatted g ts old b" "bs = blocksize g"
  shows "e2_block b (dir_start g) = stores (root_stores_dir bs) (stores (lost_stores_dir bs) (stores [(4, st16 bs)] (replicate bs NUL)))"
    and "e2_block b (dir_start g + 1) = stores (lost_stores_dir bs) (stores [(4, st16 bs)] (replicate bs NUL))"
    and "1 < k \<Longrightarrow> k \<le> lost_and_found_blocks g \<Longrightarrow> e2_block b (dir_start g + k) = stores [(4, st16 bs)] (replicate bs NUL)"
proof -
  obtain sb where *: "geo_ok g" "length sb = 1024" "nblocks g * blocksize g \<le> length old" "b = volume_of g sb ts old"
    using formatted_sb [OF assms(1)] by blast
  note bs = geo_facts(1) [OF *(1), folded assms(2)]
  let ?buf1 = "stores (lost_stores_dir bs) (stores [(4, st16 bs)] (replicate bs NUL))"
  let ?W = "set (exact_writes g sb (gd_table g (map (desc g) [0..<ngroups g])))"
  have w: "(Dir 0, region_lo g (Dir 0), stores (root_stores_dir bs) ?buf1) \<in> ?W" "(Dir 1, region_lo g (Dir 1), ?buf1) \<in> ?W"
    by (simp_all add: exact_writes_def dir_writes_def Let_def assms(2) del: region_lo.simps)
  have len: "length (stores (root_stores_dir bs) ?buf1) = bs" "length ?buf1 = bs" "length (stores [(4, st16 bs)] (replicate bs NUL)) = bs"
    by (simp_all add: dir_buffers [OF bs])
  have blk: "e2_block b (dir_start g + k) = x" if "(Dir k, region_lo g (Dir k), x) \<in> ?W" "length x = bs" for k x
    using read_exact [OF *(1-3) that(1), of ts, folded volume_of_def, folded *(4)] that(2)
    by (simp add: e2_block_def formatted_fields [OF assms(1)] dir_start_def algebra_simps flip: assms(2))
  show "e2_block b (dir_start g) = stores (root_stores_dir bs) ?buf1" "e2_block b (dir_start g + 1) = ?buf1"
    using blk [OF w(1) len(1)] blk [OF w(2) len(2)] by simp_all
  assume k: "1 < k" "k \<le> lost_and_found_blocks g"
  have "(Dir k, region_lo g (Dir k), stores [(4, st16 bs)] (replicate bs NUL)) \<in> ?W"
    using k by (auto simp: exact_writes_def dir_writes_def Let_def assms(2) image_iff simp del: region_lo.simps intro!: bexI [of _ "k - 1"])
  then show "e2_block b (dir_start g + k) = stores [(4, st16 bs)] (replicate bs NUL)" using blk len(3) by blast
qed

lemma formatted_inodes:
  assumes "formatted g ts old b" "off + n \<le> 128" "buf = stores (root_stores_inode g (desc g 0) ts) (replicate (blocksize g) NUL)"
  shows "e2_inode b 2 off n = field off n buf" "e2_inode b 11 off n = field off n (stores (lost_stores_inode g (desc g 0)) buf)"
proof -
  obtain sb where *: "geo_ok g" "length sb = 1024" "nblocks g * blocksize g \<le> length old" "b = volume_of g sb ts old"
    using formatted_sb [OF assms(1)] by blast
  have isz: "off + n \<le> inodesize g" "inodesize g \<le> blocksize g" using *(1) assms(2) by (auto simp: geo_ok_def)
  have len: "length buf = blocksize g" "length (stores (lost_stores_inode g (desc g 0)) buf) = blocksize g"
    using inode_buffers [OF *(1)] assms(3) by blast+
  let ?t = "(base g 0 + lead g 0 + 2) * blocksize g" and ?r = "region_lo g (Table 0)" and ?buf2 = "stores (lost_stores_inode g (desc g 0)) buf"
  have w: "(Table 0, ?r + inodesize g, take (inodesize g) buf) \<in> set (inode_writes g ts)"
    "(Table 0, ?r + 10 * inodesize g, take (inodesize g) ?buf2) \<in> set (inode_writes g ts)"
    by (simp_all add: inode_writes_def Let_def assms(3) del: region_lo.simps)
  have "part (?t + inodesize g) (inodesize g) b = take (inodesize g) buf" "part (?t + 10 * inodesize g) (inodesize g) b = take (inodesize g) ?buf2"
    using read_inodes [OF *(1-3) w(1)] read_inodes [OF *(1-3) w(2)] len min_absorb2 [OF isz(2)] by (simp_all add: *(4) volume_of_def add.assoc)
  then show "e2_inode b 2 off n = field off n buf" "e2_inode b 11 off n = field off n ?buf2"
    using isz field_part [OF isz(1), of "?t + inodesize g" b] field_part [OF isz(1), of "?t + 10 * inodesize g" b]
    by (simp_all add: e2_inode_def formatted_desc(3) [OF assms(1) geo_facts(3) [OF *(1)]] formatted_fields [OF assms(1)] field_take add.assoc)
qed

lemma stored_append: "stored (xs @ ys) p n v = stored ys p n (stored xs p n v)"
  by (induction xs p n v rule: stored.induct) simp_all

lemma stored_pointers:
  "stored (map (\<lambda>i. (40 + 4 * i, st32 (f i))) [0..<m]) p n v = (if n = 4 \<and> 40 \<le> p \<and> 4 dvd p - 40 \<and> (p - 40) div 4 < m then le_value (st32 (f ((p - 40) div 4))) else v)"
  by (induction m) (auto simp: stored_append less_Suc_eq elim!: dvdE)

lemma root_inode_fields:
  assumes "geo_ok g" "buf = stores (root_stores_inode g (desc g 0) ts) (replicate (blocksize g) NUL)"
  shows "field 0 2 buf = 0x41ED" "field 4 4 buf = blocksize g" "field 40 4 buf = dir_start g"
proof -
  have bs: "blocksize g = 1024 \<or> blocksize g = 4096" using geo_facts(1) [OF assms(1)] .
  have s: "dir_start g + 1 < 2 ^ 32" using blocks_32 [OF assms(1), of "Dir 0"] by (simp add: dir_start_def)
  have t: "bg_inode_table (desc g 0) + inode_table_blocks g = dir_start g" by (simp add: desc_def dir_start_def)
  show "field 0 2 buf = 0x41ED" "field 4 4 buf = blocksize g" "field 40 4 buf = dir_start g"
    unfolding assms(2) using bs s by (subst field_stores; auto simp: root_stores_inode_def le_value_st t field_zeros)+
qed

lemma lost_inode_fields:
  assumes "geo_ok g" "length buf = blocksize g" "field 0 2 buf = 0x41ED" "buf2 = stores (lost_stores_inode g (desc g 0)) buf"
  shows "field 0 2 buf2 = 0x41ED" "field 4 4 buf2 = lost_and_found_blocks g * blocksize g"
    and "k < lost_and_found_blocks g \<Longrightarrow> field (40 + 4 * k) 4 buf2 = dir_start g + 1 + k"
proof -
  have bs: "blocksize g = 1024 \<or> blocksize g = 4096" "lost_and_found_blocks g \<le> 12" using assms(1) by (auto simp: geo_ok_def)
  have t: "bg_inode_table (desc g 0) + inode_table_blocks g = dir_start g" by (simp add: desc_def dir_start_def)
  have l: "lost_stores_inode g (desc g 0) = [(26, st16 2), (4, st32 (lost_and_found_blocks g * blocksize g)),
      (28, st32 (lost_and_found_blocks g * blocksize g div 512))]
      @ map (\<lambda>i. (40 + 4 * i, st32 (i + (dir_start g + 1)))) [0..<lost_and_found_blocks g]"
    by (simp add: lost_stores_inode_def Let_def t)
  have s: "dir_start g + 1 + k < 2 ^ 32" if "k < lost_and_found_blocks g" for k
    using blocks_32 [OF assms(1), of "Dir (Suc k)"] that by (simp add: dir_start_def)
  have b: "lost_and_found_blocks g * blocksize g \<le> 12 * 4096" using bs by (intro mult_le_mono) auto
  show "field 0 2 buf2 = 0x41ED" "field 4 4 buf2 = lost_and_found_blocks g * blocksize g"
    unfolding assms(4) l using bs assms(2,3) b by (subst field_stores; auto simp: list_all_iff stored_append stored_pointers le_value_st)+
  assume k: "k < lost_and_found_blocks g"
  have "list_all (\<lambda>(o', x). o' + length x \<le> length buf \<and> (o' = 40 + 4 * k \<and> length x = 4 \<or> o' + length x \<le> 40 + 4 * k \<or> 40 + 4 * k + 4 \<le> o'))
      (lost_stores_inode g (desc g 0))"
    unfolding l using bs k assms(2) by (auto simp: list_all_iff)
  then show "field (40 + 4 * k) 4 buf2 = dir_start g + 1 + k"
    unfolding assms(4) using s [OF k] k by (subst field_stores) (simp_all add: l stored_append stored_pointers le_value_st)
qed

text \<open>The blocks of the directories are in use.\<close>

lemma dir_block_used:
  assumes "formatted g ts old b" "k \<le> lost_and_found_blocks g"
  shows "first_block g \<le> dir_start g + k \<and> dir_start g + k < first_block g + group_size g 0
    \<and> e2_bit b (e2_desc b 0 0 4) (dir_start g + k - first_block g)"
proof -
  have g: "geo_ok g" using assms(1) by (simp add: formatted_def)
  note G = geo_facts(3) [OF g]
  have "dir_start g = first_block g + (lead g 0 + 2 + inode_table_blocks g)" by (simp add: dir_start_def base_def)
  then have "dir_start g + k - first_block g < group_used g 0" "first_block g \<le> dir_start g + k"
    using assms(2) by (simp_all add: group_used_def)
  then show ?thesis
    using formatted_bits(1) [OF assms(1) G] formatted_desc(1) [OF assms(1) G] geo_facts(4,6) [OF g G] by auto
qed

lemma formatted_root:
  assumes "formatted g ts old b"
  shows "e2_dir b 2 [(2, ''.''), (2, ''..''), (11, ''lost+found'')]"
proof -
  have g: "geo_ok g" using assms by (simp add: formatted_def)
  note v = formatted_fields [OF assms] and G = geo_facts(3) [OF g] and bs = geo_facts(1) [OF g]
  have ino: "e2_bit b (e2_desc b 0 4 4) 1"
    using formatted_bits(2) [OF assms G, of 1] formatted_desc(2) [OF assms G] bs by (auto simp: first_inodes_def)
  note i = formatted_inodes(1) [OF assms _ refl] and f = root_inode_fields [OF g refl, of ts]
  have "e2_inode b 2 0 2 = 0x41ED" "e2_inode b 2 4 4 = blocksize g" "e2_inode b 2 40 4 = dir_start g"
    using f by (simp_all add: i)
  moreover have "blocksize g div blocksize g = 1" using bs by auto
  ultimately show ?thesis
    using dir_block_used [OF assms, of 0] ino formatted_dirs(1) [OF assms refl] root_entries [OF bs]
    unfolding e2_dir_def v by (simp add: Let_def)
qed

lemma formatted_lost:
  assumes "formatted g ts old b"
  shows "e2_dir b 11 [(11, ''.''), (2, ''..'')]"
proof -
  have g: "geo_ok g" using assms by (simp add: formatted_def)
  note v = formatted_fields [OF assms] and G = geo_facts(3) [OF g] and bs = geo_facts(1) [OF g]
  define n where "n = lost_and_found_blocks g"
  have n: "1 \<le> n" "n \<le> 12" using g by (auto simp: geo_ok_def n_def)
  have ino: "e2_bit b (e2_desc b 0 4 4) 10"
    using formatted_bits(2) [OF assms G, of 10] formatted_desc(2) [OF assms G] bs by (auto simp: first_inodes_def)
  note i = formatted_inodes(2) [OF assms _ refl]
    and f = lost_inode_fields [OF g inode_buffers(1) [OF g] root_inode_fields(1) [OF g refl] refl]
  have "e2_inode b 11 0 2 = 0x41ED" "e2_inode b 11 4 4 div blocksize g = n"
    using f(1,2) bs by (auto simp: i n_def)
  moreover have blk: "e2_inode b 11 (40 + 4 * k) 4 = dir_start g + (1 + k)" if "k < n" for k
    using f(3) that n by (simp add: i n_def)
  have blks: "map (\<lambda>k. e2_inode b 11 (40 + 4 * k) 4) [0..<n] = map (\<lambda>k. dir_start g + (1 + k)) [0..<n]"
    using blk by simp
  have "map (\<lambda>k. dir_list (e2_block b (e2_inode b 11 (40 + 4 * k) 4))) [0..<n] = [(11, ''.''), (2, ''..'')] # replicate (n - 1) []"
  proof (rule nth_equalityI)
    fix k assume k: "k < length (map (\<lambda>k. dir_list (e2_block b (e2_inode b 11 (40 + 4 * k) 4))) [0..<n])"
    show "map (\<lambda>k. dir_list (e2_block b (e2_inode b 11 (40 + 4 * k) 4))) [0..<n] ! k = ([(11, ''.''), (2, ''..'')] # replicate (n - 1) []) ! k"
    proof (cases k)
      case 0
      then show ?thesis using k blk [of 0] formatted_dirs(2) [OF assms refl] lost_entries [OF bs] by simp
    next
      case (Suc m)
      then show ?thesis
        using k blk [of k] formatted_dirs(3) [OF assms refl, of "1 + k"] empty_entries [OF bs] by (simp flip: n_def)
    qed
  qed (use n in simp)
  then have "concat (map (\<lambda>k. dir_list (e2_block b (e2_inode b 11 (40 + 4 * k) 4))) [0..<n]) = [(11, ''.''), (2, ''..'')]" by simp
  ultimately show ?thesis
    using dir_block_used [OF assms, of "1 + _", folded n_def] ino n blk
    unfolding e2_dir_def v by (simp add: Let_def blks distinct_map inj_on_def)
qed

section \<open>The whole volume\<close>

lemma sum_free_inodes:
  assumes "11 \<le> n" "0 < G"
  shows "(\<Sum>i\<leftarrow>[0..<G]. n - first_inodes i) = n * G - 11"
proof -
  have "(\<Sum>i\<leftarrow>[0..<Suc k]. n - first_inodes i) = n * Suc k - 11" for k
  proof (induction k)
    case (Suc k)
    have "(\<Sum>i\<leftarrow>[0..<Suc (Suc k)]. n - first_inodes i) = (\<Sum>i\<leftarrow>[0..<Suc k]. n - first_inodes i) + n"
      by (subst upt_Suc_append) (simp_all add: first_inodes_def)
    then show ?case using Suc assms(1) by simp
  qed (simp add: first_inodes_def)
  then show ?thesis using assms(2) by (cases G) simp_all
qed

lemma formatted_backups:
  assumes "formatted g ts old b" "i < ngroups g" "has_super i" "0 < i"
  shows "part (base g i * blocksize g) 1024 b = part 1024 1024 b"
    and "part ((base g i + 1) * blocksize g) (32 * ngroups g) b = part ((first_block g + 1) * blocksize g) (32 * ngroups g) b"
proof -
  obtain sb where *: "geo_ok g" "length sb = 1024" "nblocks g * blocksize g \<le> length old" "b = volume_of g sb ts old"
    using formatted_sb [OF assms(1)] by blast
  have z: "region_lo g (Super 0) = 1024" "region_lo g (Descs 0) = (first_block g + 1) * blocksize g"
    using *(1) by (auto simp: base_def geo_ok_def)
  note v = volume_super [OF *(1-3), of _ ts, folded *(4)]
  show "part (base g i * blocksize g) 1024 b = part 1024 1024 b"
    using v(1) [OF assms(2,3)] v(1) [OF geo_facts(3) [OF *(1)] has_super_0] z(1) assms(4) by simp
  have cut: "part off (32 * ngroups g) b = take (32 * ngroups g) (part off (group_desc_blocks g * blocksize g) b)" for off
    using *(1) by (simp add: part_def geo_ok_def min_absorb1)
  show "part ((base g i + 1) * blocksize g) (32 * ngroups g) b = part ((first_block g + 1) * blocksize g) (32 * ngroups g) b"
    unfolding cut using v(2) [OF assms(2,3)] v(2) [OF geo_facts(3) [OF *(1)] has_super_0, unfolded z(2)] by simp
qed

lemma formatted_length: "formatted g ts old b \<Longrightarrow> length b = length old"
proof -
  assume a: "formatted g ts old b"
  obtain sb where *: "geo_ok g" "length sb = 1024" "nblocks g * blocksize g \<le> length old" "b = volume_of g sb ts old"
    using formatted_sb [OF a] by blast
  show ?thesis unfolding *(4) volume_of_def by (rule length_stores [OF writes_within [OF *(1-3)]])
qed

lemma formatted_volume:
  assumes "formatted g ts old b"
  shows "ext2_volume b"
proof -
  have g: "geo_ok g" and room: "nblocks g * blocksize g \<le> length b" using assms formatted_length [OF assms] by (simp_all add: formatted_def)
  note v = formatted_fields [OF assms]
  have blocks: "(\<Sum>i\<leftarrow>[0..<ngroups g]. e2_desc b i 12 2) = (\<Sum>i\<leftarrow>[0..<ngroups g]. free_count g i)"
    by (intro arg_cong [where f = sum_list] map_cong) (simp_all add: formatted_desc [OF assms])
  have "(\<Sum>i\<leftarrow>[0..<ngroups g]. e2_desc b i 14 2) = (\<Sum>i\<leftarrow>[0..<ngroups g]. inodes_per_group g - first_inodes i)"
    by (intro arg_cong [where f = sum_list] map_cong) (simp_all add: formatted_desc [OF assms])
  also have "\<dots> = inodes_per_group g * ngroups g - 11"
    using g geo_facts(3) [OF g] by (intro sum_free_inodes) (auto simp: geo_ok_def)
  finally have inodes: "(\<Sum>i\<leftarrow>[0..<ngroups g]. e2_desc b i 14 2) = inodes_per_group g * ngroups g - 11" .
  have "first_block g < nblocks g" "inodes_per_group g \<le> 8 * blocksize g" using g by (simp_all add: geo_ok_def)
  then show ?thesis
    using room formatted_group [OF assms] formatted_root [OF assms] formatted_lost [OF assms] formatted_backups [OF assms]
    unfolding ext2_volume_def v blocks inodes by (simp add: base_def)
qed

section \<open>The program\<close>

text \<open>A block device on which nothing fails, with room for 60 blocks, and the options of the flash script.\<close>

definition ext2_device :: "vdev \<Rightarrow> bool" where
  "ext2_device d \<longleftrightarrow> dv_kind d = BlockDev \<and> dev_ready d \<and> 60 * 1024 \<le> length (dv_data d) \<and> length (dv_data d) < 2 ^ 44"

definition ext2_plain :: "ext2_opts \<Rightarrow> bool" where
  "ext2_plain opts \<longleftrightarrow> opt_b opts = None \<and> opt_i opts = None \<and> opt_I opts = None \<and> opt_m opts \<le> 50 \<and> \<not> opt_n opts"

lemma block_size_masks: "(1024 :: nat) AND 1023 = 0" "(4096 :: nat) AND 4095 = 0"
  by (simp_all only: and_nat_def) simp_all

lemma ext2_sizes_usual:
  assumes "ext2_plain opts" "60 \<le> k" "k < 2 ^ 34"
  shows "\<exists>bs isz bpi. ext2_sizes 4096 opts k = Inr (bs, isz, bpi) \<and> usual bs isz bpi (k div 2 ^ (int_log2 bs - 10))
    \<and> (bs = 1024 \<or> bs = 4096)"
proof -
  consider "k < 3072" | "3072 \<le> k" "k < 524288" | "524288 \<le> k" by linarith
  then show ?thesis
    using assms by cases (auto simp: ext2_plain_def ext2_sizes_def Let_def EXT2_MIN_BLOCK_SIZE_def usual_def log_values block_size_masks)
qed

text \<open>What is written when the parameters are those of \<open>g\<close>.\<close>

lemma ext2_io_formats:
  assumes "geo_ok g" "dev_ready d" "nblocks g * blocksize g \<le> length (dv_data d)" "length uuid = 16" "length seed = 16"
  shows "\<exists>ios d'. ext2_io cs g nr ts uuid seed label = Inr ios \<and> run_io ios d = Inr d' \<and> formatted g ts (dv_data d) (dv_data d')"
proof -
  define sb where "sb = sb_bytes cs g nr (\<Sum>i\<leftarrow>[0..<ngroups g]. free_count g i) ts uuid seed label"
  have len: "length sb = 1024" unfolding sb_def using sb_field(2) [OF assms(1,4,5), of 0 0] by (simp add: list_all_iff)
  obtain ios where ios: "ext2_io cs g nr ts uuid seed label = Inr ios" "placed (dv_pos d) ios = map snd (ext2_writes g sb ts)"
    using ext2_io_placed [OF assms(1) sb_def] by blast
  obtain d' where d': "run_io ios d = Inr d'" "dv_data d' = volume_of g sb ts (dv_data d)"
    using run_io_placed [OF assms(2), of ios] writes_within [OF assms(1) len assms(3)] by (auto simp: ios(2) volume_of_def)
  have "formatted g ts (dv_data d) (dv_data d')" unfolding formatted_def using assms d'(2) sb_def by blast
  then show ?thesis using ios(1) d'(1) by blast
qed

lemma volume_kilobytes:
  assumes "ext2_device d"
  shows "get_volume_size_in_bytes None 1024 e d = Inr (of_nat (length (dv_data d)), d\<lparr>dv_pos := 0\<rparr>)"
    and "unat (of_nat (length (dv_data d)) :: u64) = length (dv_data d)"
proof -
  have l: "dv_seekable d" "16384 \<le> length (dv_data d)" "length (dv_data d) < 2 ^ 63" using assms by (simp_all add: ext2_device_def dev_ready_def)
  show "get_volume_size_in_bytes None 1024 e d = Inr (of_nat (length (dv_data d)), d\<lparr>dv_pos := 0\<rparr>)"
    by (rule get_volume_size_block [OF l])
  show "unat (of_nat (length (dv_data d)) :: u64) = length (dv_data d)" using l(3) by (simp add: unsigned_of_nat take_bit_nat_eq_self)
qed

text \<open>
  C38. \<open>mke2fs\<close> with no option for the sizes, on a block device of 60 KB to 16 TB without an error of the
  kernel, ends with success and leaves an ext2 volume: every group has its bitmaps and its inode
  table inside, marked as used and not overlapping; the counts of free blocks and inodes in the
  descriptors are those of the bitmaps and their sums are those of the superblock; the bits behind
  the end of a group are set; the copies of the superblock and of the descriptors in the backup
  groups are equal to the first; the root directory and \<open>lost+found\<close> have exactly the right entries, and
  all of their blocks are different, in the first group and marked as used. Less than one group of
  the device is left unused.
\<close>

theorem ext2_formats:
  assumes "ext2_device d" "ext2_plain opts" "length uuid = 16" "length seed = 16"
  shows "\<exists>d'. mkfs_ext2_main 4096 compat_supp opts None False timestamp uuid seed (Some d) = Some (Inr d')
     \<and> ext2_volume (dv_data d') \<and> length (dv_data d') = length (dv_data d)
     \<and> length (dv_data d) div e2_bs (dv_data d') < e2_blocks (dv_data d') + e2_per_group (dv_data d')"
proof -
  define k where "k = length (dv_data d) div 1024"
  have k: "60 \<le> k" "k < 2 ^ 34" and d: "dv_kind d = BlockDev" "dev_ready (d\<lparr>dv_pos := 0\<rparr>)"
    using assms(1) by (auto simp: ext2_device_def dev_ready_def k_def)
  obtain bs isz bpi where s: "ext2_sizes 4096 opts k = Inr (bs, isz, bpi)" "usual bs isz bpi (k div 2 ^ (int_log2 bs - 10))" "bs = 1024 \<or> bs = 4096"
    using ext2_sizes_usual [OF assms(2) k] by blast
  define n where "n = k div 2 ^ (int_log2 bs - 10)"
  have n: "60 \<le> n" "n < 2 ^ 32" "n = length (dv_data d) div bs"
    using s(2,3) by (auto simp: usual_def n_def k_def log_values div_mult2_eq [symmetric])
  obtain g where g: "ext2_plan bs isz bpi n n = Some (Inr g)" "geo_ok g" "blocksize g = bs" "nblocks g \<le> n" "n < nblocks g + 8 * bs"
    using ext2_plan_ok [OF s(2)] by (auto simp: n_def)
  have "nblocks g * bs \<le> n * bs" using g(4) by (rule mult_right_mono) simp
  also have "\<dots> \<le> length (dv_data d)" by (simp add: n(3))
  finally obtain ios d' where r: "ext2_io compat_supp g (w32 (n * opt_m opts div 100)) timestamp uuid seed (opt_L opts) = Inr ios"
      "run_io ios (d\<lparr>dv_pos := 0\<rparr>) = Inr d'" "formatted g timestamp (dv_data d) (dv_data d')"
    using ext2_io_formats [OF g(2) d(2) _ assms(3,4)] g(3) by fastforce
  have "mkfs_ext2_main 4096 compat_supp opts None False timestamp uuid seed (Some d) = Some (Inr d')"
    using volume_kilobytes [OF assms(1)] s(1) n(1,2) g(1) r(1,2) assms(2) d(1)
    by (simp add: mkfs_ext2_main_def Let_def w32_small ext2_plain_def flip: k_def n_def)
  moreover have "length (dv_data d) div e2_bs (dv_data d') < e2_blocks (dv_data d') + e2_per_group (dv_data d')"
    using formatted_fields [OF r(3)] g(3,5) n(3) by simp
  ultimately show ?thesis using formatted_volume [OF r(3)] formatted_length [OF r(3)] by blast
qed

definition demo_part :: vdev where
  "demo_part = \<lparr>dv_kind = BlockDev, dv_data = replicate 61440 (CHR 0xFF), dv_pos = 7, dv_limit = 61440, dv_seekable = True,
     dv_events = [Chunk 100, Eintr, Chunk 0], dv_blksszget = Some 512, dv_getgeo = None, dv_fdgetprm = None\<rparr>"

definition demo_opts :: ext2_opts where
  "demo_opts = \<lparr>opt_b = None, opt_i = None, opt_I = None, opt_m = 5, opt_L = ''system'', opt_n = False, opt_F = False\<rparr>"

lemma demo_part_device: "ext2_device demo_part"
  by (simp add: ext2_device_def dev_ready_def demo_part_def)

theorem ext2_formats_witness:
  "\<exists>d'. mkfs_ext2_main 4096 0 demo_opts None False 7 (replicate 16 CHR ''u'') (replicate 16 CHR ''s'') (Some demo_part) = Some (Inr d')
     \<and> ext2_volume (dv_data d') \<and> length (dv_data d') = 61440"
proof -
  have "ext2_plain demo_opts" by (simp add: ext2_plain_def demo_opts_def)
  moreover have "length (dv_data demo_part) = 61440" by (simp add: demo_part_def)
  ultimately show ?thesis
    using ext2_formats [OF demo_part_device, of demo_opts "replicate 16 CHR ''u''" "replicate 16 CHR ''s''" 0 7] by auto
qed

text \<open>
  A device of 60 to 62 KB with \<open>-i 1024\<close>: the table of inodes grows so much that the only group is
  taken for a short last one and dropped.
\<close>

lemma small_plan:
  assumes "k \<in> {60, 61, 62}"
  shows "ext2_plan 1024 128 1024 k k = Some (Inl DivisionByZero)"
proof -
  have ipg: "group_inodes 1024 128 k 1 = 64"
    using assms group_inodes_eq [of 1024 128 k 1] by (auto simp: table_blocks_def ceil_div_def)
  have n: "div_roundup (sub32 k 1) 8192 = 1" "w32 (k * 1024 div 1024) = k" "sub32 k 1 = k - 1"
    using assms by (auto simp: sub32_small w32_small div_roundup_ceil ceil_div_def)
  have "ext2_geometry 1024 128 1024 k k = \<lparr>blocksize = 1024, inodesize = 128, first_block = 1, nblocks = k, ngroups = 1, group_desc_blocks = 1,
      inodes_per_group = 64, inode_table_blocks = 8, lost_and_found_blocks = 12\<rparr>"
    using assms ipg n by (auto simp: ext2_geometry_def bpg_values Let_def EXT2_MIN_BLOCK_SIZE_def EXT2_GOOD_OLD_FIRST_INO_def log_values)
      (simp_all add: div_roundup_ceil w32_small ceil_div_def)
  then have g: "ngroups (ext2_geometry 1024 128 1024 k k) = 1" "chop (ext2_geometry 1024 128 1024 k k) = k - 1"
    using assms n by (auto simp: chop_def Let_def bpg_values sub32_small w32_small)
  have h: "ngroups (ext2_geometry 1024 128 1024 k 1) = 0"
    by (simp add: ext2_geometry_def div_roundup_def bpg_values Let_def w32_small sub32_small EXT2_MIN_BLOCK_SIZE_def)
  have "ext2_plan 1024 128 1024 k k = ext2_plan 1024 128 1024 k 1"
    using g assms by (subst ext2_plan.simps) (auto simp: Let_def)
  also have "\<dots> = Some (Inl DivisionByZero)" using h by (subst ext2_plan.simps) (simp add: Let_def)
  finally show ?thesis .
qed

text \<open>
  C39. The smallest volumes are not safe from the loss of their only group: on a block device of 60 to
  62 KB with \<open>-i 1024\<close> the program drops the last group as too small, is left without a group and
  divides by their number, which is 0. The source says that 60 blocks rule this out.
\<close>

theorem ext2_small_crash:
  assumes "ext2_device d" "length (dv_data d) div 1024 \<in> {60, 61, 62}" "opt_i opts = Some 1024" "opt_b opts = None" "opt_I opts = None" "opt_m opts \<le> 50"
  shows "mkfs_ext2_main 4096 compat_supp opts None False timestamp uuid seed (Some d) = Some (Inl DivisionByZero)"
proof -
  define k where "k = length (dv_data d) div 1024"
  have k: "k \<in> {60, 61, 62}" using assms(2) by (simp add: k_def)
  have "ext2_sizes 4096 opts k = Inr (1024, 128, 1024)"
    using k assms(3-5) by (auto simp: ext2_sizes_def Let_def EXT2_MIN_BLOCK_SIZE_def block_size_masks)
  moreover have "dv_kind d = BlockDev" using assms(1) by (simp add: ext2_device_def)
  ultimately show ?thesis
    using volume_kilobytes [OF assms(1)] small_plan [OF k] k assms(6)
    by (auto simp: mkfs_ext2_main_def Let_def log_values w32_small simp flip: k_def)
qed

theorem ext2_small_crash_witness:
  "mkfs_ext2_main 4096 0 (demo_opts\<lparr>opt_i := Some 1024\<rparr>) None False 7 [] [] (Some demo_part) = Some (Inl DivisionByZero)"
proof -
  have "length (dv_data demo_part) div 1024 \<in> {60, 61, 62}" by (simp add: demo_part_def)
  from ext2_small_crash [OF demo_part_device this, of "demo_opts\<lparr>opt_i := Some 1024\<rparr>" 0 7 "[]" "[]"]
  show ?thesis by (simp add: demo_opts_def)
qed

end
