(* ===== verification/Spec2Isabelle.thy ===== *)
theory Spec2Isabelle
  imports Cpio Ui ShellMath Md5 Sha Dd Cut Tr Test FdiskState VfatImage Ext2Volume
begin

text \<open>
  \<^bold>\<open>A verification library for the SD-card flash tool.\<close>

  \<^bold>\<open>The program.\<close> The repository builds a bootable SD card that flashes an i.MX device.
  \<open>mkrelease.sh\<close> packs a root directory with \<open>mkbootfs\<close> (\<open>src/mkbootfs\<close>) into the ramdisk of that
  card. On the device \<open>root/etc/init.d/flash.sh\<close> runs under the shell of busybox: it shows its
  progress with \<open>ui_client\<close> and \<open>ui_server\<close> (\<open>src/ui\<close>), compares the sums of the images with those in
  \<open>md5sum.txt\<close>, computes the layout with the arithmetic of the shell, clears and creates partitions,
  makes their file systems and copies every image with \<open>dd\<close>. All tools it calls are applets of
  \<open>src/busybox-1.17.3\<close>. The library models the C code of the tool itself and the applets and routines
  of busybox that decide whether the right bytes reach the device. busybox is taken with its default
  options, on a 32-bit target whose plain \<open>char\<close> is unsigned.

  \<^bold>\<open>The theories.\<close>
  \<^item> \<open>Prelude\<close>: C strings, decimal and hexadecimal text, bytes and words, results with errors
    (\<open>and_then\<close>), used by all others.
  \<^item> \<open>FsConfig\<close>: \<open>android_filesystem_config.h\<close>, the tables of owners and modes and the lookup.
  \<^item> \<open>Mkbootfs\<close>: \<open>mkbootfs.c\<close>, the walk over the tree (\<open>archive1\<close>, \<open>archive_dir\<close>, \<open>archive_loop\<close> for
    \<open>_archive\<close>, \<open>_archive_dir\<close>), the writer (\<open>eject\<close> for \<open>_eject\<close>) and \<open>main\<close>. The state holds what was
    written, the byte counter \<open>total_size\<close> at its 32 bits and the next inode number. The file tree is
    an argument. The lemmas show that the output is the abstract \<open>newc_stream\<close> of the entries of the tree.
  \<^item> \<open>Fdio\<close>: \<open>libbb/read.c\<close>, \<open>safe_write.c\<close>, \<open>full_write.c\<close>, \<open>copyfd.c\<close>. A descriptor is its data and a
    list of events, one per system call: a transfer of any part, an interruption, an error. Every
    property about files quantifies over these events. The locale \<open>byte_source\<close> is what a reader of
    exact sizes promises.
  \<^item> \<open>Cpio\<close>: \<open>archival/libunarchive/get_header_cpio.c\<close> with the skipping, aligning, listing and
    extracting routines around it and the loop of \<open>cpio_main\<close>. The locale \<open>cpio_client\<close> is what the
    hooks of an archive handle promise; it is interpreted for listing and for extracting to
    standard output.
  \<^item> \<open>Ui\<close>: \<open>ui_server.c\<close> and \<open>ui_client.c\<close>. The calls of the drawing library are recorded in order;
    server, progress thread and clients are interleaved by the relation \<open>sys_step\<close>.
  \<^item> \<open>ShellMath\<close>: \<open>shell/math.c\<close>, the evaluator of \<open>$((...))\<close> with its two stacks, and \<open>endofname\<close> of
    \<open>shell/ash.c\<close>; a grammar with its evaluation is the specification.
  \<^item> \<open>Lines\<close>: \<open>libbb/get_line_from_file.c\<close>.
  \<^item> \<open>HashCore\<close>, \<open>Md5\<close>, \<open>Sha\<close>: \<open>coreutils/md5_sha1_sum.c\<close>, \<open>libbb/md5.c\<close>, \<open>libbb/sha1.c\<close>. The locale
    \<open>hash_algo\<close> is what the checksum programs need of a hash function; \<open>Md5\<close> and \<open>Sha\<close> interpret it. The
    specifications are RFC 1321 and FIPS 180-2 on whole messages.
  \<^item> \<open>Numbers\<close>: \<open>libbb/xatonum_template.c\<close> for any width, \<open>index_in_strings\<close>.
  \<^item> \<open>Dd\<close>: \<open>coreutils/dd.c\<close>, arguments, files, skipping, seeking and the copy loop.
  \<^item> \<open>Cut\<close>: \<open>coreutils/cut.c\<close>, with the set of selected positions as the specification.
  \<^item> \<open>Tr\<close>: \<open>coreutils/tr.c\<close> and \<open>libbb/process_escape_sequence.c\<close>.
  \<^item> \<open>Test\<close>: \<open>coreutils/test.c\<close>, the recursive descent over the argument vector and all operators; the
    documented grammar with its evaluation is the specification.
  \<^item> \<open>Fdisk\<close>: \<open>util-linux/fdisk.c\<close> on DOS partition tables, the only kind built by default: the entries
    and their sector buffers, the geometry, the prompts, reading and writing the table with its
    chain of logical partitions, and every command of the two menus that changes something. Sector
    buffers are a store of byte lists, because the four primary entries share one buffer and
    pointers into it are copied. \<open>FdiskTable\<close>: what is stored in an entry is read back, and a new
    partition overlaps nothing. \<open>FdiskOrder\<close>: the command that sorts the entries; the locale
    \<open>exchange_loop\<close> is what its three loops share and is interpreted for each. \<open>FdiskState\<close>: the
    invariant of all states of a session (\<open>session\<close>) and the round trip over the device.
  \<^item> \<open>Mkvfat\<close>: \<open>util-linux/mkfs_vfat.c\<close> and \<open>libbb/get_volsize.c\<close>, the program the script runs on the
    partition for the user's data. \<open>VfatLayout\<close>: the search for the number of clusters and the size of
    the tables. \<open>VfatImage\<close>: what a driver expects of a FAT32 volume (\<open>fat32_volume\<close>, stated on bytes
    only), and that the program makes every large enough block device one. \<open>DiskFields\<close>: storing and
    reading the little-endian fields of a sector, shared with the next group.
  \<^item> \<open>Mke2fs\<close>: \<open>util-linux/mkfs_ext2.c\<close>, the program the script runs on the partitions of the system,
    from the sizes and groups to every block that is written. \<open>Ext2Layout\<close>: the bitmaps, the groups
    with a copy of the superblock, and the loop that drops a short last group; every group has room
    for its own data (\<open>geo_ok\<close>). \<open>Ext2Image\<close>: the writes and the regions of the volume they fill, which
    do not overlap. \<open>Ext2Volume\<close>: what a driver expects of an ext2 volume (\<open>ext2_volume\<close>, stated on bytes
    only), and that the program with its default sizes makes every block device one; a combination
    of options for which it divides by zero.
  \<^item> This theory: the properties that span components. The archive of \<open>mkbootfs\<close> read by \<open>cpio\<close>; the
    pipe \<open>md5sum | cut\<close> and the use of \<open>tr\<close> in the script.

  \<^bold>\<open>Bounds and fuel.\<close> Loops are recursive functions with termination proofs wherever they end by
  themselves. Two take fuel. \<open>arith\<close> takes the depth of nested variable lookups, and the number of
  variables plus two is enough because a variable met twice on one path is an error;
  \<open>arith_always_returns\<close> states this. \<open>cpio_loop\<close> takes the number of members, because a reader of a
  corrupt archive may go on; the round trips state that one more than the number of packed entries
  is enough. Loops of \<open>fdisk\<close> that may not end are partial functions whose value \<open>None\<close> is not
  returning: \<open>fdisk_add_returns\<close> and \<open>fdisk_fix_order\<close> show that they return. So is the search of
  \<open>mkfs.vfat\<close>, which \<open>vfat_layout_fits\<close> shows to return, and the loop of \<open>mke2fs\<close> over the number of
  groups, which returns for all default sizes (\<open>ext2_formats\<close>). \<open>remove_links\<close> counts its rounds, one
  per entry, and reports the loop that makes no progress as \<open>Hang\<close>. \<open>BUFSIZ\<close> of the C library, the
  size of the copy buffer and two constants of \<open>linux/ext2_fs.h\<close> that differ between its versions are
  arguments. Counters keep the width of the C type where
  it matters: the sizes of \<open>mkbootfs\<close>, the words of the hash functions and their byte counts, the
  numbers of the shell and of the number reader, the offsets of \<open>dd\<close>, the sectors of \<open>fdisk\<close>, the block
  numbers of \<open>mke2fs\<close>.

  \<^bold>\<open>Not modelled.\<close> The remaining applets of busybox (the shell besides its arithmetic,
  \<open>sed\<close>, \<open>grep\<close> and all that the script does not call), the parsing of options
  by \<open>getopt32\<close>, what \<open>mke2fs\<close> prints, what \<open>fdisk\<close> prints (listings, its check of the table, help) and its options \<open>-l\<close> and
  \<open>-s\<close>, other disk labels, \<open>cpio -o\<close> and extraction into the file system, the scripts themselves, and the
  library \<open>minui\<close>, whose source is not in the repository. Allocation of memory is taken to succeed.
\<close>

section \<open>The ramdisk: what mkbootfs packs is what the cpio reader finds\<close>

lemma mkbootfs_stream_feeds:
  assumes "roots \<noteq> []" "list_all (arg_ok fs) roots" "list_all wf_entry (packed fs roots)"
    and "mkbootfs_main fs roots = Inr st" "feeds f (out_bytes st)"
  shows "\<exists>z. feeds f (newc_stream 300000 (packed fs roots @ [trailer]) @ z)"
  using mkbootfs_main_eq [OF wf_entry_fits [OF assms(3)] assms(1,2)] assms(4,5)
  by (auto simp: pad_def)

text \<open>
  C1. \<open>cpio -t\<close> on the archive that \<open>mkbootfs\<close> writes lists exactly the paths of the packed
  tree, in order. Whatever the directories hold (readable, with names the format can carry),
  however the kernel splits the reads and whether or not the input can seek, the reader finds
  every member at its place, decodes every header field, skips every member's data and padding
  and stops at the trailer: it neither fails nor runs on.
\<close>

theorem cpio_lists_mkbootfs:
  assumes "roots \<noteq> []" "list_all (arg_ok fs) roots" "list_all wf_entry (packed fs roots)"
    and "mkbootfs_main fs roots = Inr st" "feeds f (out_bytes st)"
    and "length (packed fs roots) < fuel"
  shows "\<exists>h. cpio_loop fuel cpio_t_hooks (init_handle seekable f []) = Some (Inr h)
     \<and> ah_world h = concat (map (\<lambda>(p, m, d). p @ [CHR 0x0A]) (packed fs roots))"
proof -
  obtain z where "feeds f (newc_stream 300000 (packed fs roots @ [trailer]) @ z)"
    using mkbootfs_stream_feeds [OF assms(1-5)] by blast
  then have s: "at_stream (init_handle seekable f []) (newc_stream 300000 (packed fs roots @ [trailer]) @ z)"
    by (rule at_stream_init)
  show ?thesis
    using cpio_t.cpio_loop_stream [OF assms(3) s _ _ assms(6)]
    by (simp add: init_handle_def fold_header_list)
qed

lemma demo_wf: "list_all wf_entry (packed demo_fs [''root''])"
  unfolding demo_packed by (simp add: wf_entry_def wf_path_def)

theorem cpio_lists_mkbootfs_witness:
  "\<exists>st h. mkbootfs_main demo_fs [''root''] = Inr st
     \<and> cpio_loop 4 cpio_t_hooks (init_handle False (plain_fd (out_bytes st)) []) = Some (Inr h)
     \<and> ah_world h = ''bin'' @ [CHR 0x0A] @ ''bin/sh'' @ [CHR 0x0A] @ ''init'' @ [CHR 0x0A]"
proof -
  obtain st where st: "mkbootfs_main demo_fs [''root''] = Inr st"
    using mkbootfs_main_eq [OF wf_entry_fits [OF demo_wf] _ demo_ok] by auto
  have "feeds (plain_fd (out_bytes st)) (out_bytes st)" by (simp add: feeds_def)
  from cpio_lists_mkbootfs [OF _ demo_ok demo_wf st this, of 4 False] st show ?thesis
    unfolding demo_packed by auto
qed

text \<open>
  C2. \<open>cpio -i --to-stdout\<close> on the archive that \<open>mkbootfs\<close> writes reproduces the contents of
  the packed regular files, byte for byte and in order, however reads and writes are split.
\<close>

theorem cpio_cats_mkbootfs:
  assumes "roots \<noteq> []" "list_all (arg_ok fs) roots" "list_all wf_entry (packed fs roots)"
    and "mkbootfs_main fs roots = Inr st" "feeds f (out_bytes st)" "accepts (Some stdout)"
    and "length (packed fs roots) < fuel"
  shows "\<exists>h. cpio_loop fuel cpio_to_stdout_hooks (init_handle seekable f stdout) = Some (Inr h)
     \<and> sk_data (ah_world h) = sk_data stdout @ concat (map entry_data (packed fs roots))"
proof -
  obtain z where "feeds f (newc_stream 300000 (packed fs roots @ [trailer]) @ z)"
    using mkbootfs_stream_feeds [OF assms(1-5)] by blast
  then have s: "at_stream (init_handle seekable f stdout) (newc_stream 300000 (packed fs roots @ [trailer]) @ z)"
    by (rule at_stream_init)
  show ?thesis
    using cpio_cat.cpio_loop_stream [OF assms(3) s _ _ assms(7)] assms(6)
    by (simp add: init_handle_def fold_entry_data)
qed

theorem cpio_cats_mkbootfs_witness:
  "\<exists>st h. mkbootfs_main demo_fs [''root''] = Inr st
     \<and> cpio_loop 4 cpio_to_stdout_hooks
         (init_handle False \<lparr>fd_data = out_bytes st, fd_events = [Chunk 7, Eintr, Chunk 100]\<rparr>
            \<lparr>sk_data = [], sk_events = [Chunk 2]\<rparr>) = Some (Inr h)
     \<and> sk_data (ah_world h) = ''hello''"
proof -
  let ?out = "\<lparr>sk_data = [], sk_events = [Chunk 2]\<rparr>"
  obtain st where st: "mkbootfs_main demo_fs [''root''] = Inr st"
    using mkbootfs_main_eq [OF wf_entry_fits [OF demo_wf] _ demo_ok] by auto
  have "feeds \<lparr>fd_data = out_bytes st, fd_events = [Chunk 7, Eintr, Chunk 100]\<rparr> (out_bytes st)"
    "accepts (Some ?out)" by (simp_all add: feeds_def accepts_def)
  from cpio_cats_mkbootfs [OF _ demo_ok demo_wf st this, of 4 False] st show ?thesis
    unfolding demo_packed by (auto simp: entry_data_def S_ISLNK_def)
qed

section \<open>The image check: md5sum and cut\<close>

lemma pick_first: "xs \<noteq> [] \<Longrightarrow> pick [Single 1] xs = [hd xs]"
proof -
  assume xs: "xs \<noteq> []"
  then have "[0..<length xs] = 0 # [1..<length xs]" by (simp add: upt_conv_Cons)
  then show ?thesis using xs by (simp add: pick_def filter_empty_conv hd_conv_nth)
qed

lemma split_fields_first: "d \<notin> set a \<Longrightarrow> hd (split_fields d (a @ d # b)) = a"
proof (induction a)
  case (Cons c a)
  obtain f fs where "split_fields d (a @ d # b) = f # fs" by (meson split_fields_nonempty neq_Nil_conv)
  then show ?case using Cons by auto
qed simp

text \<open>
  C22. The sum that the flash script compares, \<open>md5sum <image> | cut -f 1 -d ' '\<close>, is the RFC 1321
  digest of the image and nothing else: however the reads of the image are split, \<open>md5sum\<close> succeeds
  and \<open>cut\<close> reduces its output to the hexadecimal text.
\<close>

theorem flash_realsum:
  assumes "files img = Some f" "feeds f d" "line_ok img" "length img < 2 ^ 30"
  shows "\<exists>r. md5_sha1_sum_main (hash_file md5_ctx0 (md5_hash v) (md5_end v) files) files False False False [img] = Inr r \<and> s_ok r
    \<and> cut_main (\<lambda>n. if n = ''-'' then Some (s_out r) else None) (Some (Fields, ''1'')) (Some '' '') False [''-'']
      = Inr (True, bin2hex (md5_spec d) @ [NL])"
proof -
  let ?h = "bin2hex (md5_spec d)"
  let ?line = "?h @ ''  '' @ img"
  let ?out = "?line @ [NL]"
  have len: "length ?h = 32" by (simp add: length_bin2hex md5_spec_def regs_bytes_def split: prod.splits)
  have hash: "hash_file md5_ctx0 (md5_hash v) (md5_end v) files img = Some ?h"
    using assms(1,2) by (rule md5.hash_file_digest)
  then have sum: "md5_sha1_sum_main (hash_file md5_ctx0 (md5_hash v) (md5_end v) files) files False False False [img]
      = Inr (sum_init\<lparr>s_out := ?out\<rparr>)"
    by (simp add: md5_sha1_sum_main_def sum_line_def sum_init_def)
  have "line_ok ?line" using assms(3) bin2hex_chars [of "md5_spec d"] by (auto simp: line_ok_def)
  then have lines: "getlines ?out = [?line]" using getlines_Cons [of ?line "[]"] by simp
  have "hd (split_fields (CHR '' '') ?line) = ?h"
    using split_fields_first [of "CHR '' ''" ?h "CHR '' '' # img"] bin2hex_chars(1) [of "md5_spec d"] by simp
  then have spec: "cut_spec Fields False (CHR '' '') [Single 1] 0 ?line = ?h @ [NL]"
    using pick_first [of "split_fields (CHR '' '') ?line"] by (simp add: cut_spec_def)
  have one: "join (CHR '','') (map range_text [Single 1]) = ''1''"
    by (simp add: dec_nat.simps digit_char_def char_of_digit)
  have "length ?out < INT_MAX" using len assms(4) by simp
  then have "cut_main (\<lambda>n. if n = ''-'' then Some ?out else None) (Some (Fields, ''1'')) (Some '' '') False [''-''] = Inr (True, ?h @ [NL])"
    using cut_main_lists [of "[Single 1]" "CHR '' ''" Fields False "[''-'']" "\<lambda>n. if n = ''-'' then Some ?out else None"]
      lines spec unfolding one by simp
  moreover have "s_out (sum_init\<lparr>s_out := ?out\<rparr>) = ?out" "s_ok (sum_init\<lparr>s_out := ?out\<rparr>)" by (simp_all add: sum_init_def)
  ultimately show ?thesis using sum by metis
qed

theorem flash_realsum_witness:
  "\<exists>r. md5_sha1_sum_main (hash_file md5_ctx0 (md5_hash 0) (md5_end 0) (\<lambda>n. if n = ''uImage'' then Some (plain_fd ''abc'') else None))
        (\<lambda>n. if n = ''uImage'' then Some (plain_fd ''abc'') else None) False False False [''uImage''] = Inr r \<and> s_ok r
    \<and> cut_main (\<lambda>n. if n = ''-'' then Some (s_out r) else None) (Some (Fields, ''1'')) (Some '' '') False [''-'']
      = Inr (True, ''900150983cd24fb0d6963f7d28e17f72'' @ [NL])"
  using flash_realsum [of "\<lambda>n. if n = ''uImage'' then Some (plain_fd ''abc'') else None" "''uImage''" "plain_fd ''abc''" "''abc''" 0]
  by (simp add: feeds_def line_ok_def md5_abc)

section \<open>The names of the sums: tr and the shell\<close>

text \<open>The characters of the image names the script handles.\<close>

definition image_name :: "string \<Rightarrow> bool" where
  "image_name n \<longleftrightarrow> n \<noteq> [] \<and> is_name (hd n) \<and> list_all (\<lambda>c. is_in_name c \<or> c = CHR ''-'' \<or> c = CHR ''.'') n"

text \<open>
  C24. The flash script keeps the expected sum of an image in a variable named after it:
  \<open>tr -- '-.' '__'\<close> replaces exactly the dashes and dots of the image name, the result with \<open>_sum\<close>
  behind it is a name the shell accepts, and what follows the name is left over.
\<close>

theorem flash_sum_variable:
  assumes "image_name n" "feeds f n" "Eio \<notin> set (sk_events s)" "sk_data s = []" "stops r"
  shows "\<exists>s'. tr_main bufsiz False False False [''-.'', ''__''] f s = Inr s'
    \<and> sk_data s' = map (\<lambda>c. if c = CHR ''-'' \<or> c = CHR ''.'' then CHR ''_'' else c) n
    \<and> endofname (sk_data s' @ ''_sum'' @ r) = (sk_data s' @ ''_sum'', r)"
proof -
  let ?n = "map (\<lambda>c. if c = CHR ''-'' \<or> c = CHR ''.'' then CHR ''_'' else c) n"
  have e: "expand bufsiz ''-.'' = Inr ''-.''" "expand bufsiz ''__'' = Inr ''__''"
    by (simp_all add: expand_def TR_BUFSIZ_def expand_loop.simps expand_step_def deref_def)
  have "translate ''-.'' ''__'' = (\<lambda>c. if c = CHR ''-'' \<or> c = CHR ''.'' then CHR ''_'' else c)"
    by (intro ext) (simp add: translate_def)
  then obtain s' where s': "tr_main bufsiz False False False [''-.'', ''__''] f s = Inr s'" "sk_data s' = ?n"
    using tr_main_translates [OF e, of f n s "''-.''" False] assms(2-4) by auto
  have us: "is_in_name (CHR ''_'')" "\<not> is_name (CHR ''-'')" "\<not> is_name (CHR ''.'')"
    by (simp_all add: is_in_name_def is_name_def isdigit_def)
  obtain c m where n: "n = c # m" "is_name c" using assms(1) by (cases n) (auto simp: image_name_def)
  have "list_all is_in_name (map (\<lambda>c. if c = CHR ''-'' \<or> c = CHR ''.'' then CHR ''_'' else c) m @ ''_sum'')"
    using assms(1) n us by (auto simp: image_name_def list_all_iff is_in_name_def is_name_def isdigit_def)
  then have "name_ok (?n @ ''_sum'')" using n us by (auto simp: name_ok_def)
  then show ?thesis using s' endofname_name [of "?n @ ''_sum''" r] assms(5) by simp
qed

theorem flash_sum_variable_witness:
  "\<exists>s'. tr_main 8192 False False False [''-.'', ''__''] \<lparr>fd_data = ''uImage-recovery'', fd_events = [Chunk 3]\<rparr>
      \<lparr>sk_data = [], sk_events = []\<rparr> = Inr s' \<and> sk_data s' = ''uImage_recovery''
    \<and> endofname (sk_data s' @ ''_sum'' @ ''=0'') = (sk_data s' @ ''_sum'', ''=0'')"
  using flash_sum_variable [of "''uImage-recovery''" "\<lparr>fd_data = ''uImage-recovery'', fd_events = [Chunk 3]\<rparr>"
      "\<lparr>sk_data = [], sk_events = []\<rparr>" "''=0''" 8192]
  by (simp add: image_name_def feeds_def stops_def is_in_name_def is_name_def isdigit_def)

end
